(* ===== verification/Noza_Prelude.thy ===== *)
theory Noza_Prelude
  imports Main "HOL-Library.Word"
begin

text \<open>
  Vocabulary shared by the theories of the development: the machine integers of the target,
  the ways in which kernel code can stop (\<open>halt\<close>), results that are either a halt or a value
  with their sequential composition \<open>bindE\<close>, the error numbers of
  \<^verbatim>\<open>user/posix/errno.h\<close>, and generic lemmas on lists and words, and the invariants of transition systems.
\<close>

unbundle bit_operations_syntax

section \<open>Machine integers\<close>

type_synonym u8 = "8 word"
type_synonym u32 = "32 word"

text \<open>Addition on \<^verbatim>\<open>int64_t\<close> values is followed by \<open>int64\<close>, the two's complement reading of the
  low 64 bits.\<close>

definition int64 :: "int \<Rightarrow> int" where
  "int64 x = signed_take_bit 63 x"

definition INT64_MAX :: int where
  "INT64_MAX = 2 ^ 63 - 1"

lemma int64_id: "- (2 ^ 63) \<le> x \<Longrightarrow> x < 2 ^ 63 \<Longrightarrow> int64 x = x"
  unfolding int64_def by (rule signed_take_bit_int_eq_self) simp_all

lemma int64_range: "- (2 ^ 63) \<le> int64 x \<and> int64 x < 2 ^ 63"
  using signed_take_bit_int_greater_eq_minus_exp [of 63 x] signed_take_bit_int_less_exp [of 63 x]
  by (simp add: int64_def)

section \<open>Halting and results\<close>

text \<open>
  \<open>Kernel_panic\<close> is a call of \<^verbatim>\<open>kernel_panic\<close>, which prints and spins forever; \<open>Null_deref\<close> and
  \<open>Out_of_bounds\<close> are accesses through a null pointer and outside an array; \<open>List_corrupt\<close> is a list
  operation that would break the links of a list (unlinking a node that is not in it, or linking one
  that already is); \<open>Diverge\<close> says that a loop did not end within the iterations it was given.
\<close>

datatype halt = Kernel_panic | Null_deref | Out_of_bounds | List_corrupt | Diverge

type_synonym 'a res = "halt + 'a"

fun bindE :: "'e + 'a \<Rightarrow> ('a \<Rightarrow> 'e + 'b) \<Rightarrow> 'e + 'b" where
  "bindE (Inl e) f = Inl e"
| "bindE (Inr a) f = f a"

lemma bindE_Inr_iff: "bindE m f = Inr b \<longleftrightarrow> (\<exists>a. m = Inr a \<and> f a = Inr b)"
  by (cases m) auto

lemma bindE_Inl_iff: "bindE m f = Inl e \<longleftrightarrow> m = Inl e \<or> (\<exists>a. m = Inr a \<and> f a = Inl e)"
  by (cases m) auto

lemma bindE_assoc: "bindE (bindE m f) g = bindE m (\<lambda>a. bindE (f a) g)"
  by (cases m) auto

lemma bindE_InrE [elim]:
  assumes "bindE m f = Inr b"
  obtains a where "m = Inr a" and "f a = Inr b"
  using assms by (auto simp: bindE_Inr_iff)

text \<open>Weakest precondition of a result: it is a value, and the value satisfies \<open>Q\<close>.\<close>

definition ok :: "'e + 'a \<Rightarrow> ('a \<Rightarrow> bool) \<Rightarrow> bool" where
  "ok m Q \<longleftrightarrow> (\<exists>a. m = Inr a \<and> Q a)"

lemma ok_Inr [simp]: "ok (Inr a) Q \<longleftrightarrow> Q a"
  by (auto simp: ok_def)

lemma ok_Inl [simp]: "\<not> ok (Inl e) Q"
  by (auto simp: ok_def)

lemma ok_bindE [simp]: "ok (bindE m f) Q \<longleftrightarrow> ok m (\<lambda>a. ok (f a) Q)"
  by (cases m) auto

lemma ok_mono: "ok m P \<Longrightarrow> (\<And>a. P a \<Longrightarrow> Q a) \<Longrightarrow> ok m Q"
  by (auto simp: ok_def)

lemma ok_mono2: "ok m (\<lambda>(a, b). P a b) \<Longrightarrow> (\<And>a b. P a b \<Longrightarrow> Q (a, b)) \<Longrightarrow> ok m Q"
  by (auto simp: ok_def)

lemma ok_conj: "ok m P \<Longrightarrow> ok m Q \<Longrightarrow> ok m (\<lambda>a. P a \<and> Q a)"
  by (auto simp: ok_def)

lemma ok_value: "ok m Q \<Longrightarrow> \<exists>a. m = Inr a \<and> Q a"
  by (simp add: ok_def)

section \<open>Error numbers\<close>

abbreviation "EAGAIN \<equiv> (6 :: u32)"
abbreviation "EBUSY \<equiv> (10 :: u32)"
abbreviation "ECANCELED \<equiv> (11 :: u32)"
abbreviation "EINTR \<equiv> (27 :: u32)"
abbreviation "EINVAL \<equiv> (28 :: u32)"
abbreviation "ENOENT \<equiv> (45 :: u32)"
abbreviation "ENOMEM \<equiv> (49 :: u32)"
abbreviation "ENOSYS \<equiv> (55 :: u32)"
abbreviation "EPERM \<equiv> (67 :: u32)"
abbreviation "ESRCH \<equiv> (75 :: u32)"
abbreviation "ETIMEDOUT \<equiv> (78 :: u32)"

section \<open>Lists\<close>

lemma remove1_hd: "xs \<noteq> [] \<Longrightarrow> remove1 (hd xs) xs = tl xs"
  by (cases xs) auto

lemma length_remove1_le: "length (remove1 x xs) \<le> length xs"
  by (simp add: length_remove1)

lemma find_unique: "x \<in> set xs \<Longrightarrow> (\<And>y. y \<in> set xs \<Longrightarrow> P y \<longleftrightarrow> y = x) \<Longrightarrow> find P xs = Some x"
  by (induction xs) auto

lemma find_split: "find P xs = Some x \<Longrightarrow> x \<in> set xs \<and> P x"
  by (auto simp: find_Some_iff)

section \<open>Invariants of transition systems\<close>

locale invariant_system =
  fixes start :: "'s \<Rightarrow> bool" and step :: "'s \<Rightarrow> 's \<Rightarrow> bool" and inv :: "'s \<Rightarrow> bool"
  assumes start_inv: "start s \<Longrightarrow> inv s"
    and step_inv: "inv s \<Longrightarrow> step s s' \<Longrightarrow> inv s'"
begin

lemma reach_inv:
  assumes "start s0" and "step\<^sup>*\<^sup>* s0 s"
  shows "inv s"
  using assms(2) by (induction rule: rtranclp_induct) (auto intro: start_inv [OF assms(1)] step_inv)

lemma reach_all:
  assumes "start s0" and "step\<^sup>*\<^sup>* s0 s" and "\<And>s. inv s \<Longrightarrow> P s"
  shows "P s"
  by (rule assms(3) [OF reach_inv [OF assms(1,2)]])

end

end
