(* ===== verification/Cdl.thy ===== *)
theory Cdl
  imports Noza_Prelude
begin

text \<open>
  The circular doubly linked lists of the kernel (\<^verbatim>\<open>cdl_add\<close>, \<^verbatim>\<open>cdl_remove\<close> and the sorted
  insertions of \<^verbatim>\<open>kernel/noza_os.c\<close>) and of the services (\<^verbatim>\<open>type/dblist.c\<close>), on a heap of nodes
  with \<open>next\<close> and \<open>prev\<close> pointers. A null pointer is \<open>None\<close> and following it is \<open>Null_deref\<close>. The
  representation predicate \<open>cdl h hp xs\<close> relates a heap and a head pointer to the list of nodes
  met from the head; every operation is shown to refine an operation on that list, which is what
  the other theories use for \<^verbatim>\<open>thread_list_t\<close>, \<^verbatim>\<open>noza_wait_queue_t\<close> and the timer queue.
\<close>

section \<open>Heap and operations\<close>

type_synonym node = nat

record cdl_heap =
  nxt :: "node \<Rightarrow> node option"
  prv :: "node \<Rightarrow> node option"

definition deref :: "node option \<Rightarrow> node res" where
  "deref p = (case p of None \<Rightarrow> Inl Null_deref | Some n \<Rightarrow> Inr n)"

definition set_next :: "node \<Rightarrow> node option \<Rightarrow> cdl_heap \<Rightarrow> cdl_heap" where
  "set_next n v h = h\<lparr>nxt := (nxt h)(n := v)\<rparr>"

definition set_prev :: "node \<Rightarrow> node option \<Rightarrow> cdl_heap \<Rightarrow> cdl_heap" where
  "set_prev n v h = h\<lparr>prv := (prv h)(n := v)\<rparr>"

text \<open>\<^verbatim>\<open>p->next = v\<close> and \<^verbatim>\<open>p->prev = v\<close> through a pointer \<open>p\<close>.\<close>

definition store_next :: "node option \<Rightarrow> node option \<Rightarrow> cdl_heap \<Rightarrow> cdl_heap res" where
  "store_next p v h = bindE (deref p) (\<lambda>n. Inr (set_next n v h))"

definition store_prev :: "node option \<Rightarrow> node option \<Rightarrow> cdl_heap \<Rightarrow> cdl_heap res" where
  "store_prev p v h = bindE (deref p) (\<lambda>n. Inr (set_prev n v h))"

text \<open>\<^verbatim>\<open>cdl_add\<close>: insert at the tail and return the head.\<close>

definition cdl_add :: "node option \<Rightarrow> node \<Rightarrow> cdl_heap \<Rightarrow> (node option \<times> cdl_heap) res" where
  "cdl_add hp obj h =
     (case hp of
        None \<Rightarrow> Inr (Some obj, set_prev obj (Some obj) (set_next obj (Some obj) h))
      | Some a \<Rightarrow>
          (if nxt h a = Some a then
             Inr (Some a, set_prev a (Some obj) (set_next a (Some obj)
                            (set_prev obj (Some a) (set_next obj (Some a) h))))
           else
             (let h1 = set_next obj (Some a) h;
                  h2 = set_prev obj (prv h1 a) h1
              in bindE (store_next (prv h2 a) (Some obj) h2)
                   (\<lambda>h3. Inr (Some a, set_prev a (Some obj) h3)))))"

text \<open>\<^verbatim>\<open>cdl_remove\<close>: unlink \<open>obj\<close> and return the new head.\<close>

definition cdl_remove :: "node option \<Rightarrow> node \<Rightarrow> cdl_heap \<Rightarrow> (node option \<times> cdl_heap) res" where
  "cdl_remove hp obj h =
     (case hp of
        None \<Rightarrow> Inr (None, h)
      | Some a \<Rightarrow>
          (if a = obj then
             (if nxt h a = Some a \<and> prv h a = Some a then Inr (None, h)
              else bindE (store_prev (nxt h a) (prv h a) h)
                     (\<lambda>h1. bindE (store_next (prv h1 a) (nxt h a) h1)
                        (\<lambda>h2. Inr (nxt h a, h2))))
           else bindE (store_next (prv h obj) (nxt h obj) h)
                  (\<lambda>h1. bindE (store_prev (nxt h1 obj) (prv h1 obj) h1)
                     (\<lambda>h2. Inr (Some a, h2)))))"

text \<open>\<^verbatim>\<open>dblist_insert_tail\<close>, \<^verbatim>\<open>dblist_remove_head\<close> and \<^verbatim>\<open>dblist_remove\<close> of \<^verbatim>\<open>type/dblist.c\<close>.\<close>

definition dblist_insert_tail :: "node option \<Rightarrow> node \<Rightarrow> cdl_heap \<Rightarrow> (node option \<times> cdl_heap) res" where
  "dblist_insert_tail hp item h =
     (case hp of
        None \<Rightarrow> Inr (Some item, set_prev item (Some item) (set_next item (Some item) h))
      | Some a \<Rightarrow>
          (let h1 = set_next item (Some a) h;
               h2 = set_prev item (prv h1 a) h1
           in bindE (store_next (prv h2 a) (Some item) h2)
                (\<lambda>h3. Inr (Some a, set_prev a (Some item) h3))))"

definition dblist_remove_head :: "node option \<Rightarrow> cdl_heap \<Rightarrow> (node option \<times> cdl_heap) res" where
  "dblist_remove_head hp h =
     (case hp of
        None \<Rightarrow> Inr (None, h)
      | Some a \<Rightarrow>
          (if nxt h a = Some a then Inr (None, h)
           else bindE (store_next (prv h a) (nxt h a) h)
                  (\<lambda>h1. bindE (store_prev (nxt h a) (prv h1 a) h1)
                     (\<lambda>h2. Inr (nxt h a, h2)))))"

definition dblist_remove :: "node option \<Rightarrow> node \<Rightarrow> cdl_heap \<Rightarrow> (node option \<times> cdl_heap) res" where
  "dblist_remove hp obj h =
     (case hp of
        None \<Rightarrow> Inr (None, h)
      | Some a \<Rightarrow>
          (if a = obj then
             (if nxt h a = Some a \<and> prv h a = Some a then Inr (None, h)
              else bindE (store_prev (nxt h a) (prv h a) h)
                     (\<lambda>h1. bindE (store_next (prv h1 a) (nxt h a) h1)
                        (\<lambda>h2. Inr (nxt h a, h2))))
           else bindE (store_next (prv h obj) (nxt h obj) h)
                  (\<lambda>h1. bindE (store_prev (nxt h1 obj) (prv h1 obj) h1)
                     (\<lambda>h2. Inr (Some a, h2)))))"

text \<open>Linking \<open>obj\<close> in before \<open>node\<close>, the four assignments that the sorted insertions share.\<close>

definition insert_before :: "node \<Rightarrow> node \<Rightarrow> cdl_heap \<Rightarrow> cdl_heap res" where
  "insert_before n obj h =
     (let h1 = set_next obj (Some n) h;
          h2 = set_prev obj (prv h1 n) h1
      in bindE (store_next (prv h2 n) (Some obj) h2)
           (\<lambda>h3. Inr (set_prev n (Some obj) h3)))"

text \<open>\<^verbatim>\<open>noza_os_add_thread_by_expired_time\<close>: \<open>key\<close> is the expiry time of the thread a node belongs to. The
  walk compares every node but the tail, and falls back to \<^verbatim>\<open>cdl_add\<close> when it reaches the tail.\<close>

fun expired_walk :: "nat \<Rightarrow> (node \<Rightarrow> int) \<Rightarrow> node \<Rightarrow> node \<Rightarrow> node \<Rightarrow> node \<Rightarrow> cdl_heap
    \<Rightarrow> (node option \<times> cdl_heap) res" where
  "expired_walk 0 key obj hp tail n h = Inl Diverge"
| "expired_walk (Suc k) key obj hp tail n h =
     (if n = tail then cdl_add (Some hp) obj h
      else if key n > key obj then
        bindE (insert_before n obj h) (\<lambda>h'. Inr (Some (if n = hp then obj else hp), h'))
      else bindE (deref (nxt h n)) (\<lambda>m. expired_walk k key obj hp tail m h))"

definition add_by_expired_time :: "nat \<Rightarrow> (node \<Rightarrow> int) \<Rightarrow> node option \<Rightarrow> node \<Rightarrow> cdl_heap
    \<Rightarrow> (node option \<times> cdl_heap) res" where
  "add_by_expired_time k key hp obj h =
     (case hp of
        None \<Rightarrow> Inr (Some obj, set_prev obj (Some obj) (set_next obj (Some obj) h))
      | Some n \<Rightarrow>
          (if nxt h n = Some n then
             Inr (Some (if key n > key obj then obj else n),
                  set_prev obj (Some n) (set_next obj (Some n)
                    (set_prev n (Some obj) (set_next n (Some obj) h))))
           else bindE (deref (prv h n)) (\<lambda>tail. expired_walk k key obj n tail n h)))"

text \<open>\<^verbatim>\<open>noza_timer_insert\<close>: \<open>key\<close> is the deadline. The do-while loop compares every node.\<close>

fun deadline_walk :: "nat \<Rightarrow> (node \<Rightarrow> int) \<Rightarrow> node \<Rightarrow> node \<Rightarrow> node \<Rightarrow> cdl_heap
    \<Rightarrow> (node option \<times> cdl_heap) res" where
  "deadline_walk 0 key obj hp n h = Inl Diverge"
| "deadline_walk (Suc k) key obj hp n h =
     (if key n > key obj then
        bindE (insert_before n obj h) (\<lambda>h'. Inr (Some (if n = hp then obj else hp), h'))
      else bindE (deref (nxt h n))
             (\<lambda>m. if m \<noteq> hp then deadline_walk k key obj hp m h
                  else bindE (insert_before hp obj h) (\<lambda>h'. Inr (Some hp, h'))))"

definition insert_by_deadline :: "nat \<Rightarrow> (node \<Rightarrow> int) \<Rightarrow> node option \<Rightarrow> node \<Rightarrow> cdl_heap
    \<Rightarrow> (node option \<times> cdl_heap) res" where
  "insert_by_deadline k key hp obj h =
     (case hp of
        None \<Rightarrow> Inr (Some obj, set_prev obj (Some obj) (set_next obj (Some obj) h))
      | Some n \<Rightarrow> deadline_walk k key obj n n h)"

section \<open>Representation\<close>

text \<open>\<open>seg h xs\<close>: neighbours in \<open>xs\<close> are linked both ways. \<open>cyc h xs\<close>: and so are the last node and the
  first one.\<close>

fun seg :: "cdl_heap \<Rightarrow> node list \<Rightarrow> bool" where
  "seg h [] = True"
| "seg h [x] = True"
| "seg h (x # y # zs) = (nxt h x = Some y \<and> prv h y = Some x \<and> seg h (y # zs))"

definition cyc :: "cdl_heap \<Rightarrow> node list \<Rightarrow> bool" where
  "cyc h xs = (xs \<noteq> [] \<and> distinct xs \<and> seg h xs
     \<and> nxt h (last xs) = Some (hd xs) \<and> prv h (hd xs) = Some (last xs))"

definition cdl :: "cdl_heap \<Rightarrow> node option \<Rightarrow> node list \<Rightarrow> bool" where
  "cdl h hp xs = (if xs = [] then hp = None else hp = Some (hd xs) \<and> cyc h xs)"

text \<open>What an operation leaves alone: the links of all nodes outside a set.\<close>

definition same_outside :: "node set \<Rightarrow> cdl_heap \<Rightarrow> cdl_heap \<Rightarrow> bool" where
  "same_outside A h h' = (\<forall>n. n \<notin> A \<longrightarrow> nxt h' n = nxt h n \<and> prv h' n = prv h n)"

lemma nxt_set_next [simp]: "nxt (set_next n v h) m = (if m = n then v else nxt h m)"
  by (simp add: set_next_def)

lemma prv_set_next [simp]: "prv (set_next n v h) = prv h"
  by (simp add: set_next_def)

lemma prv_set_prev [simp]: "prv (set_prev n v h) m = (if m = n then v else prv h m)"
  by (simp add: set_prev_def)

lemma nxt_set_prev [simp]: "nxt (set_prev n v h) = nxt h"
  by (simp add: set_prev_def)

lemma deref_simps [simp]: "deref (Some n) = Inr n" "deref None = Inl Null_deref"
  by (simp_all add: deref_def)

lemma store_simps [simp]:
  "store_next (Some n) v h = Inr (set_next n v h)"
  "store_prev (Some n) v h = Inr (set_prev n v h)"
  by (simp_all add: store_next_def store_prev_def)

lemma seg_append:
  "seg h (xs @ ys) \<longleftrightarrow> seg h xs \<and> seg h ys \<and>
     (xs \<noteq> [] \<longrightarrow> ys \<noteq> [] \<longrightarrow> nxt h (last xs) = Some (hd ys) \<and> prv h (hd ys) = Some (last xs))"
proof (induction xs rule: induct_list012)
  case 1
  then show ?case by simp
next
  case (2 x)
  then show ?case by (cases ys) auto
next
  case (3 x y zs)
  then show ?case by auto
qed

lemma seg_cong:
  assumes "\<And>x. x \<in> set (butlast xs) \<Longrightarrow> nxt h' x = nxt h x"
    and "\<And>x. x \<in> set (tl xs) \<Longrightarrow> prv h' x = prv h x"
  shows "seg h' xs = seg h xs"
  using assms
proof (induction xs rule: induct_list012)
  case (3 x y zs)
  have "seg h' (y # zs) = seg h (y # zs)"
    by (rule "3.IH"(2)) (use "3.prems" in \<open>auto split: if_splits\<close>)
  then show ?case using "3.prems" by simp
qed simp_all

text \<open>A cycle has no first node: it can be entered anywhere.\<close>

lemma cyc_rotate: "cyc h (as @ bs) \<Longrightarrow> cyc h (bs @ as)"
proof (cases "as = [] \<or> bs = []")
  case False
  assume "cyc h (as @ bs)"
  with False show "cyc h (bs @ as)" by (auto simp: cyc_def seg_append)
qed auto

lemma cyc_last_nxt: "cyc h xs \<Longrightarrow> nxt h (last xs) = Some (hd xs)"
  by (simp add: cyc_def)

lemma cyc_links:
  assumes "cyc h (x # ys)" and "ys \<noteq> []"
  shows "nxt h x = Some (hd ys)" and "prv h x = Some (last ys)"
    and "x \<noteq> hd ys" and "x \<noteq> last ys"
proof -
  from assms show "nxt h x = Some (hd ys)" and "prv h x = Some (last ys)"
    by (cases ys; simp add: cyc_def)+
  from assms have "x \<notin> set ys" by (simp add: cyc_def)
  with assms(2) show "x \<noteq> hd ys" and "x \<noteq> last ys"
    using hd_in_set last_in_set by metis+
qed

lemma cyc_single_iff:
  assumes "cyc h (x # ys)"
  shows "nxt h x = Some x \<longleftrightarrow> ys = []"
  using assms by (cases ys) (auto simp: cyc_def)

text \<open>Linking a fresh node in behind the last one.\<close>

lemma cyc_snoc:
  assumes c: "cyc h xs" and new: "x \<notin> set xs"
    and links: "nxt h' x = Some (hd xs)" "prv h' x = Some (last xs)"
      "nxt h' (last xs) = Some x" "prv h' (hd xs) = Some x"
    and nxt: "\<And>n. n \<noteq> x \<Longrightarrow> n \<noteq> last xs \<Longrightarrow> nxt h' n = nxt h n"
    and prv: "\<And>n. n \<noteq> x \<Longrightarrow> n \<noteq> hd xs \<Longrightarrow> prv h' n = prv h n"
  shows "cyc h' (xs @ [x])"
proof -
  from c have ne: "xs \<noteq> []" and d: "distinct xs" and s: "seg h xs" by (auto simp: cyc_def)
  have "n \<noteq> x \<and> n \<noteq> last xs" if "n \<in> set (butlast xs)" for n
  proof -
    have "distinct (butlast xs @ [last xs])" using d ne by simp
    then have "last xs \<notin> set (butlast xs)" unfolding distinct_append by auto
    moreover have "n \<in> set xs" using that by (rule in_set_butlastD)
    ultimately show ?thesis using that new by auto
  qed
  moreover have "n \<noteq> x \<and> n \<noteq> hd xs" if "n \<in> set (tl xs)" for n
    using that d ne new by (cases xs) auto
  ultimately have "seg h' xs = seg h xs"
    by (intro seg_cong) (simp_all add: nxt prv)
  with s ne d new links show ?thesis by (simp add: cyc_def seg_append)
qed

text \<open>Unlinking the first node of a cycle with at least two.\<close>

lemma cyc_unlink:
  assumes c: "cyc h (x # ys)" and ne: "ys \<noteq> []"
    and links: "nxt h' (last ys) = Some (hd ys)" "prv h' (hd ys) = Some (last ys)"
    and nxt: "\<And>n. n \<noteq> last ys \<Longrightarrow> nxt h' n = nxt h n"
    and prv: "\<And>n. n \<noteq> hd ys \<Longrightarrow> prv h' n = prv h n"
  shows "cyc h' ys"
proof -
  from c ne have d: "distinct ys" and s: "seg h ys"
    by (auto simp: cyc_def neq_Nil_conv)
  have "n \<noteq> last ys" if "n \<in> set (butlast ys)" for n
  proof -
    have "distinct (butlast ys @ [last ys])" using d ne by simp
    then show ?thesis using that unfolding distinct_append by auto
  qed
  moreover have "n \<noteq> hd ys" if "n \<in> set (tl ys)" for n
    using that d ne by (cases ys) auto
  ultimately have "seg h' ys = seg h ys"
    by (intro seg_cong) (simp_all add: nxt prv)
  with s ne d links show ?thesis by (simp add: cyc_def)
qed


section \<open>The operations refine list operations\<close>

lemma insert_before_refines:
  assumes c: "cyc h (as @ n # bs)" and new: "x \<notin> set (as @ n # bs)"
  shows "\<exists>h'. insert_before n x h = Inr h' \<and> cyc h' (as @ x # n # bs)
           \<and> same_outside (insert x (set (as @ n # bs))) h h'"
proof -
  let ?ys = "n # bs @ as"
  from cyc_rotate [OF c] have cy: "cyc h ?ys" by simp
  from cy have la: "prv h n = Some (last ?ys)" by (simp add: cyc_def)
  have mem: "last ?ys \<in> set ?ys" by (rule last_in_set) simp
  with new have xl: "x \<noteq> last ?ys" by auto
  let ?h' = "set_prev n (Some x) (set_next (last ?ys) (Some x)
               (set_prev x (Some (last ?ys)) (set_next x (Some n) h)))"
  have eq: "insert_before n x h = Inr ?h'"
    using new la by (auto simp: insert_before_def Let_def)
  have "cyc ?h' (?ys @ [x])"
    by (rule cyc_snoc [OF cy]) (use new xl in simp_all)
  then have "cyc ?h' ((n # bs) @ as @ [x])" by simp
  then have "cyc ?h' ((as @ [x]) @ n # bs)" by (rule cyc_rotate)
  moreover have "same_outside (insert x (set (as @ n # bs))) h ?h'"
    using mem by (auto simp: same_outside_def)
  ultimately show ?thesis using eq by auto
qed

theorem cdl_add_refines:
  assumes c: "cdl h hp xs" and new: "x \<notin> set xs"
  shows "\<exists>hp' h'. cdl_add hp x h = Inr (hp', h') \<and> cdl h' hp' (xs @ [x])
           \<and> same_outside (insert x (set xs)) h h'"
proof (cases xs)
  case Nil
  with c show ?thesis
    by (simp add: cdl_def cdl_add_def cyc_def same_outside_def)
next
  case (Cons a ys)
  with c have hp: "hp = Some a" and cy: "cyc h (a # ys)" by (simp_all add: cdl_def)
  from cy have la: "prv h a = Some (last (a # ys))" by (simp add: cyc_def)
  let ?h' = "set_prev a (Some x) (set_next (last (a # ys)) (Some x)
               (set_prev x (Some (last (a # ys))) (set_next x (Some a) h)))"
  have eq: "cdl_add hp x h = Inr (Some a, ?h')"
    using new Cons la cyc_single_iff [OF cy]
    by (cases "ys = []") (auto simp: cdl_add_def hp Let_def set_next_def set_prev_def)
  have "cyc ?h' ((a # ys) @ [x])"
    by (rule cyc_snoc [OF cy]) (use new Cons in \<open>auto split: if_splits\<close>)
  then have "cdl ?h' (Some a) (xs @ [x])" using Cons by (simp add: cdl_def)
  moreover have "same_outside (insert x (set xs)) h ?h'"
    using Cons by (auto simp: same_outside_def)
  ultimately show ?thesis using eq by blast
qed


lemma dblist_insert_tail_eq:
  assumes "cdl h hp xs" and "x \<notin> set xs"
  shows "dblist_insert_tail hp x h = cdl_add hp x h"
proof (cases xs)
  case Nil
  with assms show ?thesis by (simp add: cdl_def dblist_insert_tail_def cdl_add_def)
next
  case (Cons a ys)
  with assms have hp: "hp = Some a" and cy: "cyc h (a # ys)" by (simp_all add: cdl_def)
  with assms Cons cyc_single_iff [OF cy] show ?thesis
    by (cases "ys = []")
       (auto simp: dblist_insert_tail_def cdl_add_def cyc_def Let_def set_next_def set_prev_def)
qed

theorem cdl_remove_refines:
  assumes c: "cdl h hp xs" and x: "x \<in> set xs"
  shows "\<exists>hp' h'. cdl_remove hp x h = Inr (hp', h') \<and> cdl h' hp' (remove1 x xs)
           \<and> same_outside (set xs) h h'"
proof -
  from x obtain as bs where xs: "xs = as @ x # bs" and nx: "x \<notin> set as"
    by (meson split_list_first)
  from c x have hp: "hp = Some (hd xs)" and "cyc h (as @ x # bs)" 
    unfolding cdl_def using xs by (auto split: if_splits)
  from cyc_rotate [OF this(2)] have cy: "cyc h (x # bs @ as)" by simp
  have rm: "remove1 x xs = as @ bs" using xs nx by (simp add: remove1_append)
  show ?thesis
  proof (cases "bs @ as = []")
    case True
    with cy hp xs show ?thesis
      by (simp add: cdl_remove_def cdl_def cyc_def same_outside_def)
  next
    case False
    let ?n = "hd (bs @ as)" and ?p = "last (bs @ as)"
    note links = cyc_links [OF cy False]
    have mem: "?n \<in> set xs" "?p \<in> set xs"
      using hd_in_set [OF False] last_in_set [OF False] xs by auto
    let ?h' = "set_prev ?n (Some ?p) (set_next ?p (Some ?n) h)"
    have eq: "cdl_remove hp x h = Inr (if as = [] then Some ?n else hp, ?h')"
      using hp xs nx links
      by (cases as) (auto simp: cdl_remove_def set_next_def set_prev_def)
    have "cyc ?h' (bs @ as)"
      by (rule cyc_unlink [OF cy False]) simp_all
    then have "cyc ?h' (as @ bs)" by (rule cyc_rotate)
    then have "cdl ?h' (if as = [] then Some ?n else hp) (remove1 x xs)"
      using hp xs rm False by (auto simp: cdl_def hd_append)
    moreover have "same_outside (set xs) h ?h'"
      using mem by (auto simp: same_outside_def)
    ultimately show ?thesis using eq by blast
  qed
qed


lemma dblist_remove_eq: "dblist_remove = cdl_remove"
  by (intro ext) (simp add: dblist_remove_def cdl_remove_def)

theorem dblist_remove_head_refines:
  assumes c: "cdl h hp xs" and ne: "xs \<noteq> []"
  shows "\<exists>hp' h'. dblist_remove_head hp h = Inr (hp', h') \<and> cdl h' hp' (tl xs)
           \<and> same_outside (set xs) h h'"
proof -
  from ne obtain a ys where xs: "xs = a # ys" by (cases xs) auto
  with c have hp: "hp = Some a" and cy: "cyc h (a # ys)" by (simp_all add: cdl_def)
  have "dblist_remove_head hp h = cdl_remove hp a h"
  proof (cases "ys = []")
    case True
    with cy hp show ?thesis by (simp add: dblist_remove_head_def cdl_remove_def cyc_def)
  next
    case False
    note links = cyc_links [OF cy False]
    then show ?thesis using hp
      by (auto simp: dblist_remove_head_def cdl_remove_def set_next_def set_prev_def)
  qed
  with cdl_remove_refines [OF c, of a] xs show ?thesis by simp
qed

section \<open>Insertion by time\<close>

text \<open>The lists the two sorted insertions compute. \<open>insert_expired\<close> stops comparing at the tail.\<close>

fun exp_walk :: "(node \<Rightarrow> int) \<Rightarrow> node \<Rightarrow> node list \<Rightarrow> node list" where
  "exp_walk key x [] = [x]"
| "exp_walk key x [t] = [t, x]"
| "exp_walk key x (a # b # zs) =
     (if key a > key x then x # a # b # zs else a # exp_walk key x (b # zs))"

definition insert_expired :: "(node \<Rightarrow> int) \<Rightarrow> node \<Rightarrow> node list \<Rightarrow> node list" where
  "insert_expired key x xs =
     (case xs of
        [] \<Rightarrow> [x]
      | [a] \<Rightarrow> if key a > key x then [x, a] else [a, x]
      | _ \<Rightarrow> exp_walk key x xs)"

fun insert_deadline :: "(node \<Rightarrow> int) \<Rightarrow> node \<Rightarrow> node list \<Rightarrow> node list" where
  "insert_deadline key x [] = [x]"
| "insert_deadline key x (a # as) =
     (if key a > key x then x # a # as else a # insert_deadline key x as)"

lemma cdl_ConsI: "cyc h (a # ys) \<Longrightarrow> cdl h (Some a) (a # ys)"
  by (simp add: cdl_def)

lemma insert_at_refines:
  assumes c: "cyc h (as @ n # bs)" and hp: "hp = hd (as @ [n])" and new: "x \<notin> set (as @ n # bs)"
  shows "\<exists>hp' h'. bindE (insert_before n x h) (\<lambda>h'. Inr (Some (if n = hp then x else hp), h'))
             = Inr (hp', h')
           \<and> cdl h' hp' (as @ x # n # bs) \<and> same_outside (insert x (set (as @ n # bs))) h h'"
proof -
  from c have "n \<notin> set as" by (simp add: cyc_def)
  with hp have "n = hp \<longleftrightarrow> as = []" by (cases as) auto
  with insert_before_refines [OF c new] hp show ?thesis
    by (cases as) (auto simp: cdl_def)
qed

lemma expired_walk_refines:
  assumes "cyc h (as @ n # bs)" and "hp = hd (as @ [n])" and "tail = last (n # bs)"
    and "x \<notin> set (as @ n # bs)" and "length bs < k"
  shows "\<exists>hp' h'. expired_walk k key x hp tail n h = Inr (hp', h')
           \<and> cdl h' hp' (as @ exp_walk key x (n # bs))
           \<and> same_outside (insert x (set (as @ n # bs))) h h'"
  using assms
proof (induction k arbitrary: as n bs)
  case (Suc k)
  show ?case
  proof (cases bs)
    case Nil
    from Suc.prems have "cdl h (Some hp) (as @ [n])"
      by (simp add: cdl_def Nil)
    from cdl_add_refines [OF this, of x] Suc.prems Nil show ?thesis by simp
  next
    case (Cons b cs)
    then have nt: "n \<noteq> tail" using Suc.prems by (auto simp: cyc_def)
    show ?thesis
    proof (cases "key n > key x")
      case True
      with insert_at_refines [OF Suc.prems(1,2,4)] nt Cons show ?thesis by simp
    next
      case False
      from cyc_rotate [OF Suc.prems(1)] have "cyc h (n # bs @ as)" by simp
      from cyc_links(1) [OF this] Cons have nb: "nxt h n = Some b" by simp
      have "\<exists>hp' h'. expired_walk k key x hp tail b h = Inr (hp', h')
           \<and> cdl h' hp' ((as @ [n]) @ exp_walk key x (b # cs))
           \<and> same_outside (insert x (set ((as @ [n]) @ b # cs))) h h'"
        by (rule Suc.IH) (use Suc.prems Cons in \<open>auto simp: hd_append\<close>)
      with nb nt False Cons show ?thesis by simp
    qed
  qed
qed simp

theorem add_by_expired_time_refines:
  assumes c: "cdl h hp xs" and new: "x \<notin> set xs" and fuel: "length xs \<le> k"
  shows "\<exists>hp' h'. add_by_expired_time k key hp x h = Inr (hp', h')
           \<and> cdl h' hp' (insert_expired key x xs) \<and> same_outside (insert x (set xs)) h h'"
proof -
  consider (1) "xs = []" | (2) a where "xs = [a]" | (3) a b zs where "xs = a # b # zs"
    by (metis remdups_adj.cases)
  then show ?thesis
  proof cases
  case 1
  with c show ?thesis
    by (simp add: add_by_expired_time_def insert_expired_def cdl_def cyc_def same_outside_def)
next
  case (2 a)
  with c new show ?thesis
    by (auto simp: add_by_expired_time_def insert_expired_def cdl_def cyc_def same_outside_def)
next
  case (3 a b zs)
  with c have hp: "hp = Some a" and cy: "cyc h (a # b # zs)" by (simp_all add: cdl_def)
  from cyc_single_iff [OF cy] have "nxt h a \<noteq> Some a" by simp
  moreover from cy have "prv h a = Some (last (a # b # zs))" by (simp add: cyc_def)
  moreover have "\<exists>hp' h'. expired_walk k key x a (last (a # b # zs)) a h = Inr (hp', h')
           \<and> cdl h' hp' ([] @ exp_walk key x (a # b # zs))
           \<and> same_outside (insert x (set ([] @ a # b # zs))) h h'"
    by (rule expired_walk_refines) (use cy new fuel 3 in auto)
  ultimately show ?thesis using hp 3
    by (simp add: add_by_expired_time_def insert_expired_def del: last.simps)
  qed
qed

lemma deadline_walk_refines:
  assumes "cyc h (as @ n # bs)" and "hp = hd (as @ [n])"
    and "x \<notin> set (as @ n # bs)" and "length bs < k"
  shows "\<exists>hp' h'. deadline_walk k key x hp n h = Inr (hp', h')
           \<and> cdl h' hp' (as @ insert_deadline key x (n # bs))
           \<and> same_outside (insert x (set (as @ n # bs))) h h'"
  using assms
proof (induction k arbitrary: as n bs)
  case (Suc k)
  from cyc_rotate [OF Suc.prems(1)] have cy: "cyc h (n # bs @ as)" by simp
  show ?case
  proof (cases "key n > key x")
    case True
    with insert_at_refines [OF Suc.prems(1-3)] show ?thesis by simp
  next
    case le: False
    show ?thesis
    proof (cases bs)
      case Nil
      from Suc.prems Nil have nn: "nxt h n = Some hp" by (simp add: cyc_def hd_append)
      from Suc.prems obtain ys where ys: "as @ n # bs = [] @ hp # ys"
        by (cases as) auto
      from insert_before_refines [of h "[]" hp ys x] Suc.prems ys obtain h' where
        h': "insert_before hp x h = Inr h'" "cyc h' ([x] @ hp # ys)"
          "same_outside (insert x (set (as @ n # bs))) h h'" by auto
      from cyc_rotate [OF h'(2)] have "cdl h' (Some hp) (hp # ys @ [x])" by (simp add: cdl_def)
      moreover have "as @ insert_deadline key x (n # bs) = hp # ys @ [x]"
        using ys Nil le by (cases as) auto
      ultimately show ?thesis using nn le h'(1,3) by simp
    next
      case (Cons b cs)
      from cyc_links(1) [OF cy] Cons have nb: "nxt h n = Some b" by simp
      from Suc.prems Cons have "b \<noteq> hp" by (cases as) (auto simp: cyc_def)
      moreover have "\<exists>hp' h'. deadline_walk k key x hp b h = Inr (hp', h')
           \<and> cdl h' hp' ((as @ [n]) @ insert_deadline key x (b # cs))
           \<and> same_outside (insert x (set ((as @ [n]) @ b # cs))) h h'"
        by (rule Suc.IH) (use Suc.prems Cons in \<open>auto simp: hd_append\<close>)
      ultimately show ?thesis using nb le Cons by simp
    qed
  qed
qed simp

theorem insert_by_deadline_refines:
  assumes c: "cdl h hp xs" and new: "x \<notin> set xs" and fuel: "length xs \<le> k"
  shows "\<exists>hp' h'. insert_by_deadline k key hp x h = Inr (hp', h')
           \<and> cdl h' hp' (insert_deadline key x xs) \<and> same_outside (insert x (set xs)) h h'"
proof (cases xs)
  case Nil
  with c show ?thesis
    by (simp add: insert_by_deadline_def cdl_def cyc_def same_outside_def)
next
  case (Cons a ys)
  with c have hp: "hp = Some a" and cy: "cyc h (a # ys)" by (simp_all add: cdl_def)
  with deadline_walk_refines [of h "[]" a ys a x k key] new fuel Cons show ?thesis
    by (simp add: insert_by_deadline_def)
qed

subsection \<open>Order\<close>

lemma set_insert_deadline [simp]: "set (insert_deadline key x xs) = insert x (set xs)"
  by (induction xs) auto

lemma distinct_insert_deadline:
  "x \<notin> set xs \<Longrightarrow> distinct xs \<Longrightarrow> distinct (insert_deadline key x xs)"
  by (induction xs) auto

lemma sorted_insert_deadline:
  "sorted (map key xs) \<Longrightarrow> sorted (map key (insert_deadline key x xs))"
  by (induction xs) auto

lemma set_exp_walk [simp]: "set (exp_walk key x xs) = insert x (set xs)"
  by (induction key x xs rule: exp_walk.induct) auto

lemma set_insert_expired [simp]: "set (insert_expired key x xs) = insert x (set xs)"
  by (auto simp: insert_expired_def split: list.splits)

lemma distinct_exp_walk: "x \<notin> set xs \<Longrightarrow> distinct xs \<Longrightarrow> distinct (exp_walk key x xs)"
  by (induction key x xs rule: exp_walk.induct) auto

lemma distinct_insert_expired:
  "x \<notin> set xs \<Longrightarrow> distinct xs \<Longrightarrow> distinct (insert_expired key x xs)"
  using distinct_exp_walk [of x xs key]
  by (auto simp: insert_expired_def split: list.splits)

lemma sorted_exp_walk_iff:
  assumes "sorted (map key xs)" and "2 \<le> length xs"
  shows "sorted (map key (exp_walk key x xs)) \<longleftrightarrow>
           \<not> (key (last (butlast xs)) \<le> key x \<and> key x < key (last xs))"
  using assms
proof (induction key x xs rule: exp_walk.induct)
  case (3 key x a b zs)
  show ?case
  proof (cases "zs = []")
    case True
    with "3.prems" show ?thesis by auto
  next
    case False
    then have IH: "sorted (map key (exp_walk key x (b # zs))) \<longleftrightarrow>
        \<not> (key (last (butlast (b # zs))) \<le> key x \<and> key x < key (last (b # zs)))"
      if "\<not> key a > key x" using "3.IH" "3.prems" that by (cases zs) auto
    have "key a \<le> key (last (butlast (b # zs)))"
    proof -
      have "last (butlast (b # zs)) \<in> set (b # zs)"
        using False in_set_butlastD last_in_set [of "butlast (b # zs)"] by fastforce
      with "3.prems" show ?thesis by auto
    qed
    with IH "3.prems" False show ?thesis
      by (cases "key a > key x") (auto simp: not_less)
  qed
qed simp_all

text \<open>C12: Inserting a thread into a sleep list that is sorted by wake-up time keeps it sorted except when the
  list has at least two threads and the new wake-up time is at or after the last but one and before the
  last: the walk of \<^verbatim>\<open>noza_os_add_thread_by_expired_time\<close> never compares with the tail.\<close>

theorem insert_expired_sorted_iff:
  assumes "sorted (map key xs)"
  shows "sorted (map key (insert_expired key x xs)) \<longleftrightarrow>
           \<not> (2 \<le> length xs \<and> key (last (butlast xs)) \<le> key x \<and> key x < key (last xs))"
proof -
  consider (1) "xs = []" | (2) a where "xs = [a]" | (3) a b zs where "xs = a # b # zs"
    by (metis remdups_adj.cases)
  then show ?thesis
  proof cases
    case 3
    with sorted_exp_walk_iff [OF assms, of x] show ?thesis by (simp add: insert_expired_def)
  qed (auto simp: insert_expired_def)
qed

theorem insert_expired_sorted_iff_witness:
  "sorted (map int [1, 3, 9]) \<and> sorted (map int (insert_expired int 2 [1, 3, 9]))
     \<and> \<not> sorted (map int (insert_expired int 5 [1, 3, 9]))"
proof -
  have s: "sorted (map int [1, 3, 9])" by simp
  from insert_expired_sorted_iff [OF s, of 2] insert_expired_sorted_iff [OF s, of 5] s show ?thesis by simp
qed

section \<open>The contract of a linked queue\<close>

text \<open>
  A queue on a shared heap of nodes: adding appends, removing unlinks, and an operation touches
  only the nodes of its own queue and the node it is given. Moving a node from one queue to
  another (\<^verbatim>\<open>noza_os_change_state\<close>) is derived once from this contract.
\<close>

locale linked_queue =
  fixes rep :: "'h \<Rightarrow> 'q \<Rightarrow> 'a list \<Rightarrow> bool"
    and add :: "'q \<Rightarrow> 'a \<Rightarrow> 'h \<Rightarrow> ('q \<times> 'h) res"
    and remove :: "'q \<Rightarrow> 'a \<Rightarrow> 'h \<Rightarrow> ('q \<times> 'h) res"
    and same :: "'a set \<Rightarrow> 'h \<Rightarrow> 'h \<Rightarrow> bool"
  assumes rep_distinct: "rep h q xs \<Longrightarrow> distinct xs"
    and rep_frame: "rep h q ys \<Longrightarrow> same A h h' \<Longrightarrow> A \<inter> set ys = {} \<Longrightarrow> rep h' q ys"
    and add_rep: "rep h q xs \<Longrightarrow> x \<notin> set xs \<Longrightarrow>
      \<exists>q' h'. add q x h = Inr (q', h') \<and> rep h' q' (xs @ [x]) \<and> same (insert x (set xs)) h h'"
    and remove_rep: "rep h q xs \<Longrightarrow> x \<in> set xs \<Longrightarrow>
      \<exists>q' h'. remove q x h = Inr (q', h') \<and> rep h' q' (remove1 x xs) \<and> same (set xs) h h'"
begin

lemma move_rep:
  assumes p: "rep h p xs" and q: "rep h q ys" and x: "x \<in> set xs" and dj: "set xs \<inter> set ys = {}"
  shows "\<exists>p' q' h2. bindE (remove p x h) (\<lambda>(p', h1). bindE (add q x h1) (\<lambda>(q', h2). Inr (p', q', h2)))
             = Inr (p', q', h2) \<and> rep h2 p' (remove1 x xs) \<and> rep h2 q' (ys @ [x])"
proof -
  obtain p' h1 where r: "remove p x h = Inr (p', h1)" "rep h1 p' (remove1 x xs)" "same (set xs) h h1"
    using remove_rep [OF p x] by blast
  from rep_frame [OF q r(3)] dj have q1: "rep h1 q ys" by blast
  moreover from x dj have "x \<notin> set ys" by blast
  ultimately obtain q' h2 where a: "add q x h1 = Inr (q', h2)" "rep h2 q' (ys @ [x])"
    "same (insert x (set ys)) h1 h2"
    using add_rep by blast
  have "insert x (set ys) \<inter> set (remove1 x xs) = {}"
    using dj rep_distinct [OF p] by auto
  with rep_frame [OF r(2) a(3)] have "rep h2 p' (remove1 x xs)" .
  with r a show ?thesis by simp
qed

end

lemma cdl_frame: "cdl h hp ys \<Longrightarrow> same_outside A h h' \<Longrightarrow> A \<inter> set ys = {} \<Longrightarrow> cdl h' hp ys"
proof (cases "ys = []")
  case False
  assume c: "cdl h hp ys" and s: "same_outside A h h'" and d: "A \<inter> set ys = {}"
  have same: "nxt h' n = nxt h n" "prv h' n = prv h n" if "n \<in> set ys" for n
    using that s d by (auto simp: same_outside_def)
  have "seg h' ys = seg h ys"
    by (rule seg_cong) (auto intro: same dest: in_set_butlastD list.set_sel(2) [OF False])
  with c False show "cdl h' hp ys"
    by (simp add: cdl_def cyc_def same)
qed (simp add: cdl_def)

interpretation kq: linked_queue cdl cdl_add cdl_remove same_outside
proof unfold_locales
  show "distinct xs" if "cdl h q xs" for h q xs
    using that by (cases xs) (auto simp: cdl_def cyc_def)
qed (auto intro: cdl_frame cdl_add_refines cdl_remove_refines)

interpretation dq: linked_queue cdl dblist_insert_tail dblist_remove same_outside
proof unfold_locales
  show "\<exists>q' h'. dblist_insert_tail q x h = Inr (q', h') \<and> cdl h' q' (xs @ [x])
          \<and> same_outside (insert x (set xs)) h h'" if "cdl h q xs" "x \<notin> set xs" for h q xs x
    using cdl_add_refines [OF that] dblist_insert_tail_eq [OF that] by simp
qed (auto simp: dblist_remove_eq intro: kq.rep_distinct kq.rep_frame kq.remove_rep)

section \<open>Thread lists with their element count\<close>

text \<open>\<^verbatim>\<open>thread_list_t\<close> (without \<^verbatim>\<open>state_id\<close>) and the list part of \<^verbatim>\<open>noza_os_add_thread\<close> and
  \<^verbatim>\<open>noza_os_remove_thread\<close> for an unsorted list.\<close>

record thread_list_t =
  tl_head :: "node option"
  tl_count :: u32

definition thread_list_add :: "thread_list_t \<Rightarrow> node \<Rightarrow> cdl_heap \<Rightarrow> (thread_list_t \<times> cdl_heap) res" where
  "thread_list_add l x h =
     bindE (cdl_add (tl_head l) x h)
       (\<lambda>(hp, h'). Inr (l\<lparr>tl_head := hp, tl_count := tl_count l + 1\<rparr>, h'))"

definition thread_list_remove :: "thread_list_t \<Rightarrow> node \<Rightarrow> cdl_heap \<Rightarrow> (thread_list_t \<times> cdl_heap) res" where
  "thread_list_remove l x h =
     bindE (cdl_remove (tl_head l) x h)
       (\<lambda>(hp, h'). Inr (l\<lparr>tl_head := hp, tl_count := tl_count l - 1\<rparr>, h'))"

definition thread_list_change_state :: "thread_list_t \<Rightarrow> thread_list_t \<Rightarrow> node \<Rightarrow> cdl_heap
    \<Rightarrow> (thread_list_t \<times> thread_list_t \<times> cdl_heap) res" where
  "thread_list_change_state from to x h =
     bindE (thread_list_remove from x h)
       (\<lambda>(from', h1). bindE (thread_list_add to x h1) (\<lambda>(to', h2). Inr (from', to', h2)))"

definition tlist :: "cdl_heap \<Rightarrow> thread_list_t \<Rightarrow> node list \<Rightarrow> bool" where
  "tlist h l xs \<longleftrightarrow> cdl h (tl_head l) xs \<and> tl_count l = of_nat (length xs)"

interpretation tq: linked_queue tlist thread_list_add thread_list_remove same_outside
proof unfold_locales
  show "\<exists>q' h'. thread_list_add q x h = Inr (q', h') \<and> tlist h' q' (xs @ [x])
          \<and> same_outside (insert x (set xs)) h h'" if "tlist h q xs" "x \<notin> set xs" for h q xs x
    using that kq.add_rep [of h "tl_head q" xs x]
    by (auto simp: thread_list_add_def tlist_def)
  show "\<exists>q' h'. thread_list_remove q x h = Inr (q', h') \<and> tlist h' q' (remove1 x xs)
          \<and> same_outside (set xs) h h'" if "tlist h q xs" "x \<in> set xs" for h q xs x
  proof -
    from that have "0 < length xs" by (cases xs) auto
    then have "(of_nat (length (remove1 x xs)) :: u32) = of_nat (length xs) - 1"
      using that by (cases "length xs") (auto simp: length_remove1)
    with that kq.remove_rep [of h "tl_head q" xs x] show ?thesis
      by (auto simp: thread_list_remove_def tlist_def)
  qed
qed (auto simp: tlist_def intro: kq.rep_distinct kq.rep_frame)

text \<open>C3: Moving a thread between two lists by pointer surgery on the shared nodes refines the move between the
  lists they represent: it unlinks the thread from the first and appends it to the second, with both
  element counts exact.\<close>

theorem change_state_refines:
  assumes "tlist h from xs" and "tlist h to ys" and "x \<in> set xs" and "set xs \<inter> set ys = {}"
  shows "\<exists>from' to' h'. thread_list_change_state from to x h = Inr (from', to', h')
           \<and> tlist h' from' (remove1 x xs) \<and> tlist h' to' (ys @ [x])"
  unfolding thread_list_change_state_def using tq.move_rep [OF assms] .

theorem change_state_refines_witness:
  "let h = \<lparr>nxt = (\<lambda>_. None)(1 := Some 2, 2 := Some 1), prv = (\<lambda>_. None)(1 := Some 2, 2 := Some 1)\<rparr>;
       from = \<lparr>tl_head = Some 1, tl_count = 2\<rparr>; to = \<lparr>tl_head = None, tl_count = 0\<rparr>
   in tlist h from [1, 2] \<and> (\<exists>from' to' h'. thread_list_change_state from to 1 h = Inr (from', to', h')
        \<and> tlist h' from' [2] \<and> tlist h' to' [1])"
proof -
  let ?h = "\<lparr>nxt = (\<lambda>_. None)(1 := Some 2, 2 := Some 1), prv = (\<lambda>_. None)(1 := Some 2, 2 := Some 1)\<rparr> :: cdl_heap"
  let ?from = "\<lparr>tl_head = Some 1, tl_count = 2\<rparr> :: thread_list_t"
  let ?to = "\<lparr>tl_head = None, tl_count = 0\<rparr> :: thread_list_t"
  have f: "tlist ?h ?from [1, 2]" by (simp add: tlist_def cdl_def cyc_def)
  have t: "tlist ?h ?to []" by (simp add: tlist_def cdl_def)
  from change_state_refines [OF f t, of 1] f show ?thesis unfolding Let_def by simp
qed

end
