(* ===== verification/Kernel_State.thy ===== *)
theory Kernel_State
  imports Cdl
begin

text \<open>
  The data structures of \<^verbatim>\<open>kernel/noza_os.c\<close> (lines 30-345): thread states, the thread control
  block \<open>thread_t\<close>, wait queues, futex slots, timers, interrupt bindings and the kernel state
  \<open>kstate\<close>, which joins \<^verbatim>\<open>noza_os\<close> and the other static variables of the file. A thread is named
  by its index in \<^verbatim>\<open>noza_os.thread\<close> (its \<open>pid\<close>). A pointer to one of the kernel's thread lists is
  a \<open>lid\<close>, a pointer to a wait queue a \<open>wqid\<close>; the contents of a list are the pids from its head on,
  which is justified by the refinement theorems of theory \<open>Cdl\<close>.
\<close>

section \<open>Configuration\<close>

text \<open>\<^verbatim>\<open>kernel/noza_config.h\<close>, \<^verbatim>\<open>kernel/platform_config.h\<close> for the RP2040, and the sizes defined in
  \<^verbatim>\<open>noza_os.c\<close>.\<close>

abbreviation "NOZA_OS_TASK_LIMIT \<equiv> (32 :: nat)"
abbreviation "NOZA_OS_PRIORITY_LIMIT \<equiv> (8 :: nat)"
abbreviation "NOZA_OS_NUM_CORES \<equiv> (2 :: nat)"
abbreviation "NOZA_OS_TIME_SLICE \<equiv> (10000 :: int)"
abbreviation "NOZA_FUTEX_SLOT_COUNT \<equiv> (64 :: nat)"
abbreviation "NOZA_MAX_TIMERS \<equiv> (32 :: nat)"
abbreviation "NOZA_PLATFORM_IRQ_COUNT \<equiv> (26 :: nat)"
abbreviation "NOZA_VID_AUTO \<equiv> (0xFFFFFFFF :: u32)"
abbreviation "NOZA_WAIT_FOREVER \<equiv> (- 1 :: int)"
abbreviation "IRQ_SERVER_VID \<equiv> (65000 :: u32)"
abbreviation "UNDEF_REG \<equiv> (- 1 :: u32)"
abbreviation "FLAG_DETACH \<equiv> (0x01 :: u8)"
abbreviation "FLAG_WAIT_TIMEOUT \<equiv> (0x02 :: u8)"
abbreviation "NOZA_TIMER_FLAG_PERIODIC \<equiv> (0x01 :: u32)"

section \<open>Data\<close>

type_synonym pid = nat

datatype thread_state =
    THREAD_FREE | THREAD_RUNNING | THREAD_READY | THREAD_WAITING_MSG | THREAD_WAITING_READ
  | THREAD_WAITING_REPLY | THREAD_WAITING_SYNC | THREAD_SLEEP | THREAD_ZOMBIE
  | THREAD_PENDING_JOIN | THREAD_STOPPED

datatype syscall_state = SYSCALL_DONE | SYSCALL_PENDING | SYSCALL_SERVING | SYSCALL_OUTPUT

datatype port_state = PORT_WAIT_LISTEN | PORT_READY

text \<open>The thread lists: \<^verbatim>\<open>noza_os.ready[i]\<close>, \<^verbatim>\<open>wait\<close>, \<^verbatim>\<open>sleep\<close>, \<^verbatim>\<open>sync_sleep\<close>, \<^verbatim>\<open>stopped\<close>, \<^verbatim>\<open>zombie\<close>,
  \<^verbatim>\<open>free\<close>, and the \<^verbatim>\<open>pending_list\<close> and \<^verbatim>\<open>reply_list\<close> of the port of each thread.\<close>

datatype lid =
    L_ready nat | L_wait | L_sleep | L_sync_sleep | L_stopped | L_zombie | L_free
  | L_pending pid | L_reply pid

text \<open>\<^verbatim>\<open>state_id\<close> of each list, as \<^verbatim>\<open>noza_init\<close> sets it.\<close>

fun state_id :: "lid \<Rightarrow> thread_state" where
  "state_id (L_ready i) = THREAD_READY"
| "state_id L_wait = THREAD_WAITING_MSG"
| "state_id L_sleep = THREAD_SLEEP"
| "state_id L_sync_sleep = THREAD_WAITING_SYNC"
| "state_id L_stopped = THREAD_STOPPED"
| "state_id L_zombie = THREAD_ZOMBIE"
| "state_id L_free = THREAD_FREE"
| "state_id (L_pending p) = THREAD_WAITING_READ"
| "state_id (L_reply p) = THREAD_WAITING_REPLY"

text \<open>Wait queues live in futex slots and in timers.\<close>

datatype wqid = W_futex nat | W_timer nat

record noza_identity_t =
  uid :: u32
  gid :: u32
  umask :: u32

text \<open>\<^verbatim>\<open>k_default_identity\<close>; the umask is octal 022.\<close>

definition k_default_identity :: noza_identity_t where
  "k_default_identity = \<lparr>uid = 0, gid = 0, umask = 18\<rparr>"

record noza_msg_t =
  to_vid :: u32
  msg_ptr :: u32
  msg_size :: u32
  msg_identity :: noza_identity_t

record kernel_trap_info_t =
  r0 :: u32
  r1 :: u32
  r2 :: u32
  r3 :: u32
  trap_state :: syscall_state

text \<open>The exception frame at the top of a thread's stack (\<^verbatim>\<open>interrupted_stack_t\<close> of
  \<^verbatim>\<open>arch/arm_m/build_stack.c\<close>): the registers the thread resumes with.\<close>

record interrupted_stack_t =
  is_r0 :: u32
  is_r1 :: u32
  is_r2 :: u32
  is_r3 :: u32
  is_r12 :: u32
  is_lr :: u32
  is_pc :: u32
  is_xpsr :: u32

record noza_os_message_t =
  om_pid :: u32
  om_size :: u32
  om_ptr :: u32
  om_identity :: noza_identity_t

record thread_t =
  frame :: interrupted_stack_t
  priority :: nat
  th_state :: thread_state
  port_st :: port_state
  expired_time :: int
  exit_code :: u32
  vid :: u32
  trap :: kernel_trap_info_t
  message :: noza_os_message_t
  pending_recv_msg :: "u32 option"
  identity :: noza_identity_t
  join_th :: "pid option"
  waiting_queue :: "wqid option"
  signal_pending :: u32
  signal_mask :: u32
  flags :: u8
  callid :: u8

record noza_timer_t =
  tm_id :: u32
  owner_vid :: u32
  deadline :: int
  period_us :: int
  tm_flags :: u32
  pending_fires :: u32
  tm_in_use :: bool
  armed :: bool

record noza_futex_slot_t =
  fx_key :: u32
  fx_in_use :: bool

record irq_binding_t =
  ev_irq_id :: u32
  ev_timestamp_us :: u32
  ev_status :: u32
  irq_owner_vid :: u32
  queued :: bool
  inflight :: bool

text \<open>
  The kernel state. \<open>slot\<close> holds the hash chains of \<^verbatim>\<open>vid_map_item_t\<close> as (vid, pid) pairs and
  \<open>free_vid_map\<close> the number of unused items; \<open>next_vid\<close> is the static \<^verbatim>\<open>ID\<close> of
  \<^verbatim>\<open>noza_os_insert_vid\<close>; \<open>timer_q\<close> the queue at \<^verbatim>\<open>noza_timer_head\<close>. The last group is the machine
  the kernel runs on: the core that executes, the microsecond clock, the last value given to
  \<^verbatim>\<open>platform_systick_config\<close>, the interrupt masks, the words and message buffers of user memory
  that the kernel reads and writes, the addresses of the event records in \<^verbatim>\<open>irq_bindings\<close>, and the value
  found in an uninitialised local variable.
\<close>

record kstate =
  running :: "nat \<Rightarrow> pid option"
  lists :: "lid \<Rightarrow> pid list"
  thread :: "pid \<Rightarrow> thread_t"
  wqs :: "wqid \<Rightarrow> pid list"
  slot :: "u8 \<Rightarrow> (u32 \<times> pid) list"
  free_vid_map :: nat
  next_vid :: nat
  next_tick_time :: "nat \<Rightarrow> int"
  futex_slots :: "nat \<Rightarrow> noza_futex_slot_t"
  timers :: "nat \<Rightarrow> noza_timer_t"
  timer_q :: "nat list"
  timer_seq :: u32
  realtime_offset_us :: int
  reserved_vid0_assigned :: bool
  irq_bindings :: "nat \<Rightarrow> irq_binding_t"
  irq_pending_bitmap :: u32
  NOZAOS_PID :: "nat \<Rightarrow> u32"
  cpu :: nat
  clock :: int
  systick :: u32
  irq_masked :: "nat \<Rightarrow> bool"
  umem :: "u32 \<Rightarrow> u32"
  umsg :: "u32 \<Rightarrow> noza_msg_t"
  irq_event_addr :: "nat \<Rightarrow> u32"
  uninit :: u32

section \<open>Updates\<close>

definition upd_thread :: "pid \<Rightarrow> (thread_t \<Rightarrow> thread_t) \<Rightarrow> kstate \<Rightarrow> kstate" where
  "upd_thread p f s = s\<lparr>thread := (thread s)(p := f (thread s p))\<rparr>"

definition upd_list :: "lid \<Rightarrow> (pid list \<Rightarrow> pid list) \<Rightarrow> kstate \<Rightarrow> kstate" where
  "upd_list l f s = s\<lparr>lists := (lists s)(l := f (lists s l))\<rparr>"

definition upd_wq :: "wqid \<Rightarrow> (pid list \<Rightarrow> pid list) \<Rightarrow> kstate \<Rightarrow> kstate" where
  "upd_wq w f s = s\<lparr>wqs := (wqs s)(w := f (wqs s w))\<rparr>"

definition upd_timer :: "nat \<Rightarrow> (noza_timer_t \<Rightarrow> noza_timer_t) \<Rightarrow> kstate \<Rightarrow> kstate" where
  "upd_timer i f s = s\<lparr>timers := (timers s)(i := f (timers s i))\<rparr>"

definition upd_irq :: "nat \<Rightarrow> (irq_binding_t \<Rightarrow> irq_binding_t) \<Rightarrow> kstate \<Rightarrow> kstate" where
  "upd_irq i f s = s\<lparr>irq_bindings := (irq_bindings s)(i := f (irq_bindings s i))\<rparr>"

definition noza_os_get_running_thread :: "kstate \<Rightarrow> pid option" where
  "noza_os_get_running_thread s = running s (cpu s)"

definition noza_os_clear_running_thread :: "kstate \<Rightarrow> kstate" where
  "noza_os_clear_running_thread s = s\<lparr>running := (running s)(cpu s := None)\<rparr>"

text \<open>Return values of a system call are left in the trap record and copied to the thread's
  registers when it is resumed.\<close>

definition noza_os_set_return_value4 :: "pid \<Rightarrow> u32 \<Rightarrow> u32 \<Rightarrow> u32 \<Rightarrow> u32 \<Rightarrow> kstate \<Rightarrow> kstate" where
  "noza_os_set_return_value4 p a b c d =
     upd_thread p (\<lambda>t. t\<lparr>trap := \<lparr>r0 = a, r1 = b, r2 = c, r3 = d, trap_state = SYSCALL_OUTPUT\<rparr>\<rparr>)"

definition noza_os_set_return_value3 :: "pid \<Rightarrow> u32 \<Rightarrow> u32 \<Rightarrow> u32 \<Rightarrow> kstate \<Rightarrow> kstate" where
  "noza_os_set_return_value3 p a b c =
     upd_thread p (\<lambda>t. t\<lparr>trap := \<lparr>r0 = a, r1 = b, r2 = c, r3 = UNDEF_REG, trap_state = SYSCALL_OUTPUT\<rparr>\<rparr>)"

definition noza_os_set_return_value2 :: "pid \<Rightarrow> u32 \<Rightarrow> u32 \<Rightarrow> kstate \<Rightarrow> kstate" where
  "noza_os_set_return_value2 p a b =
     upd_thread p (\<lambda>t. t\<lparr>trap := \<lparr>r0 = a, r1 = b, r2 = UNDEF_REG, r3 = UNDEF_REG, trap_state = SYSCALL_OUTPUT\<rparr>\<rparr>)"

definition noza_os_set_return_value1 :: "pid \<Rightarrow> u32 \<Rightarrow> kstate \<Rightarrow> kstate" where
  "noza_os_set_return_value1 p a =
     upd_thread p (\<lambda>t. t\<lparr>trap := \<lparr>r0 = a, r1 = UNDEF_REG, r2 = UNDEF_REG, r3 = UNDEF_REG, trap_state = SYSCALL_OUTPUT\<rparr>\<rparr>)"

lemmas set_return_defs =
  noza_os_set_return_value1_def noza_os_set_return_value2_def
  noza_os_set_return_value3_def noza_os_set_return_value4_def

text \<open>\<^verbatim>\<open>noza_thread_set_identity\<close>, \<^verbatim>\<open>noza_ipc_snapshot_identity\<close>, \<^verbatim>\<open>noza_ipc_write_user_message\<close>.\<close>

definition noza_thread_set_identity :: "pid \<Rightarrow> pid option \<Rightarrow> kstate \<Rightarrow> kstate" where
  "noza_thread_set_identity p parent s =
     upd_thread p (\<lambda>t. t\<lparr>identity :=
       (case parent of Some q \<Rightarrow> identity (thread s q) | None \<Rightarrow> k_default_identity)\<rparr>) s"

definition noza_ipc_snapshot_identity :: "pid \<Rightarrow> kstate \<Rightarrow> kstate" where
  "noza_ipc_snapshot_identity p =
     upd_thread p (\<lambda>t. t\<lparr>message := (message t)\<lparr>om_identity := identity t\<rparr>\<rparr>)"

definition noza_ipc_write_user_message :: "pid \<Rightarrow> u32 \<Rightarrow> u32 \<Rightarrow> u32 \<Rightarrow> noza_identity_t \<Rightarrow> kstate \<Rightarrow> kstate" where
  "noza_ipc_write_user_message target sender_vid ptr sz ident s =
     (case pending_recv_msg (thread s target) of
        None \<Rightarrow> s
      | Some a \<Rightarrow>
          upd_thread target (\<lambda>t. t\<lparr>pending_recv_msg := None\<rparr>)
            (s\<lparr>umsg := (umsg s)(a :=
                 \<lparr>to_vid = sender_vid, msg_ptr = ptr, msg_size = sz, msg_identity = ident\<rparr>)\<rparr>))"

section \<open>Selectors of updated states\<close>

lemma upd_thread_sel [simp]:
  "running (upd_thread p f s) = running s"
  "lists (upd_thread p f s) = lists s"
  "thread (upd_thread p f s) = (thread s)(p := f (thread s p))"
  "wqs (upd_thread p f s) = wqs s"
  "slot (upd_thread p f s) = slot s"
  "free_vid_map (upd_thread p f s) = free_vid_map s"
  "next_vid (upd_thread p f s) = next_vid s"
  "next_tick_time (upd_thread p f s) = next_tick_time s"
  "futex_slots (upd_thread p f s) = futex_slots s"
  "timers (upd_thread p f s) = timers s"
  "timer_q (upd_thread p f s) = timer_q s"
  "timer_seq (upd_thread p f s) = timer_seq s"
  "realtime_offset_us (upd_thread p f s) = realtime_offset_us s"
  "reserved_vid0_assigned (upd_thread p f s) = reserved_vid0_assigned s"
  "irq_bindings (upd_thread p f s) = irq_bindings s"
  "irq_pending_bitmap (upd_thread p f s) = irq_pending_bitmap s"
  "NOZAOS_PID (upd_thread p f s) = NOZAOS_PID s"
  "cpu (upd_thread p f s) = cpu s"
  "clock (upd_thread p f s) = clock s"
  "systick (upd_thread p f s) = systick s"
  "irq_masked (upd_thread p f s) = irq_masked s"
  "umem (upd_thread p f s) = umem s"
  "umsg (upd_thread p f s) = umsg s"
  "irq_event_addr (upd_thread p f s) = irq_event_addr s"
  "uninit (upd_thread p f s) = uninit s"
  by (simp_all add: upd_thread_def)

lemma upd_list_sel [simp]:
  "running (upd_list l g s) = running s"
  "lists (upd_list l g s) = (lists s)(l := g (lists s l))"
  "thread (upd_list l g s) = thread s"
  "wqs (upd_list l g s) = wqs s"
  "slot (upd_list l g s) = slot s"
  "free_vid_map (upd_list l g s) = free_vid_map s"
  "next_vid (upd_list l g s) = next_vid s"
  "next_tick_time (upd_list l g s) = next_tick_time s"
  "futex_slots (upd_list l g s) = futex_slots s"
  "timers (upd_list l g s) = timers s"
  "timer_q (upd_list l g s) = timer_q s"
  "timer_seq (upd_list l g s) = timer_seq s"
  "realtime_offset_us (upd_list l g s) = realtime_offset_us s"
  "reserved_vid0_assigned (upd_list l g s) = reserved_vid0_assigned s"
  "irq_bindings (upd_list l g s) = irq_bindings s"
  "irq_pending_bitmap (upd_list l g s) = irq_pending_bitmap s"
  "NOZAOS_PID (upd_list l g s) = NOZAOS_PID s"
  "cpu (upd_list l g s) = cpu s"
  "clock (upd_list l g s) = clock s"
  "systick (upd_list l g s) = systick s"
  "irq_masked (upd_list l g s) = irq_masked s"
  "umem (upd_list l g s) = umem s"
  "umsg (upd_list l g s) = umsg s"
  "irq_event_addr (upd_list l g s) = irq_event_addr s"
  "uninit (upd_list l g s) = uninit s"
  by (simp_all add: upd_list_def)

lemma upd_wq_sel [simp]:
  "running (upd_wq w g s) = running s"
  "lists (upd_wq w g s) = lists s"
  "thread (upd_wq w g s) = thread s"
  "wqs (upd_wq w g s) = (wqs s)(w := g (wqs s w))"
  "slot (upd_wq w g s) = slot s"
  "free_vid_map (upd_wq w g s) = free_vid_map s"
  "next_vid (upd_wq w g s) = next_vid s"
  "next_tick_time (upd_wq w g s) = next_tick_time s"
  "futex_slots (upd_wq w g s) = futex_slots s"
  "timers (upd_wq w g s) = timers s"
  "timer_q (upd_wq w g s) = timer_q s"
  "timer_seq (upd_wq w g s) = timer_seq s"
  "realtime_offset_us (upd_wq w g s) = realtime_offset_us s"
  "reserved_vid0_assigned (upd_wq w g s) = reserved_vid0_assigned s"
  "irq_bindings (upd_wq w g s) = irq_bindings s"
  "irq_pending_bitmap (upd_wq w g s) = irq_pending_bitmap s"
  "NOZAOS_PID (upd_wq w g s) = NOZAOS_PID s"
  "cpu (upd_wq w g s) = cpu s"
  "clock (upd_wq w g s) = clock s"
  "systick (upd_wq w g s) = systick s"
  "irq_masked (upd_wq w g s) = irq_masked s"
  "umem (upd_wq w g s) = umem s"
  "umsg (upd_wq w g s) = umsg s"
  "irq_event_addr (upd_wq w g s) = irq_event_addr s"
  "uninit (upd_wq w g s) = uninit s"
  by (simp_all add: upd_wq_def)

lemma upd_timer_sel [simp]:
  "running (upd_timer i g s) = running s"
  "lists (upd_timer i g s) = lists s"
  "thread (upd_timer i g s) = thread s"
  "wqs (upd_timer i g s) = wqs s"
  "slot (upd_timer i g s) = slot s"
  "free_vid_map (upd_timer i g s) = free_vid_map s"
  "next_vid (upd_timer i g s) = next_vid s"
  "next_tick_time (upd_timer i g s) = next_tick_time s"
  "futex_slots (upd_timer i g s) = futex_slots s"
  "timers (upd_timer i g s) = (timers s)(i := g (timers s i))"
  "timer_q (upd_timer i g s) = timer_q s"
  "timer_seq (upd_timer i g s) = timer_seq s"
  "realtime_offset_us (upd_timer i g s) = realtime_offset_us s"
  "reserved_vid0_assigned (upd_timer i g s) = reserved_vid0_assigned s"
  "irq_bindings (upd_timer i g s) = irq_bindings s"
  "irq_pending_bitmap (upd_timer i g s) = irq_pending_bitmap s"
  "NOZAOS_PID (upd_timer i g s) = NOZAOS_PID s"
  "cpu (upd_timer i g s) = cpu s"
  "clock (upd_timer i g s) = clock s"
  "systick (upd_timer i g s) = systick s"
  "irq_masked (upd_timer i g s) = irq_masked s"
  "umem (upd_timer i g s) = umem s"
  "umsg (upd_timer i g s) = umsg s"
  "irq_event_addr (upd_timer i g s) = irq_event_addr s"
  "uninit (upd_timer i g s) = uninit s"
  by (simp_all add: upd_timer_def)

lemma upd_irq_sel [simp]:
  "running (upd_irq i g s) = running s"
  "lists (upd_irq i g s) = lists s"
  "thread (upd_irq i g s) = thread s"
  "wqs (upd_irq i g s) = wqs s"
  "slot (upd_irq i g s) = slot s"
  "free_vid_map (upd_irq i g s) = free_vid_map s"
  "next_vid (upd_irq i g s) = next_vid s"
  "next_tick_time (upd_irq i g s) = next_tick_time s"
  "futex_slots (upd_irq i g s) = futex_slots s"
  "timers (upd_irq i g s) = timers s"
  "timer_q (upd_irq i g s) = timer_q s"
  "timer_seq (upd_irq i g s) = timer_seq s"
  "realtime_offset_us (upd_irq i g s) = realtime_offset_us s"
  "reserved_vid0_assigned (upd_irq i g s) = reserved_vid0_assigned s"
  "irq_bindings (upd_irq i g s) = (irq_bindings s)(i := g (irq_bindings s i))"
  "irq_pending_bitmap (upd_irq i g s) = irq_pending_bitmap s"
  "NOZAOS_PID (upd_irq i g s) = NOZAOS_PID s"
  "cpu (upd_irq i g s) = cpu s"
  "clock (upd_irq i g s) = clock s"
  "systick (upd_irq i g s) = systick s"
  "irq_masked (upd_irq i g s) = irq_masked s"
  "umem (upd_irq i g s) = umem s"
  "umsg (upd_irq i g s) = umsg s"
  "irq_event_addr (upd_irq i g s) = irq_event_addr s"
  "uninit (upd_irq i g s) = uninit s"
  by (simp_all add: upd_irq_def)

lemma clear_running_sel [simp]:
  "running (noza_os_clear_running_thread s) = (running s)(cpu s := None)"
  "lists (noza_os_clear_running_thread s) = lists s"
  "thread (noza_os_clear_running_thread s) = thread s"
  "wqs (noza_os_clear_running_thread s) = wqs s"
  "slot (noza_os_clear_running_thread s) = slot s"
  "free_vid_map (noza_os_clear_running_thread s) = free_vid_map s"
  "next_vid (noza_os_clear_running_thread s) = next_vid s"
  "next_tick_time (noza_os_clear_running_thread s) = next_tick_time s"
  "futex_slots (noza_os_clear_running_thread s) = futex_slots s"
  "timers (noza_os_clear_running_thread s) = timers s"
  "timer_q (noza_os_clear_running_thread s) = timer_q s"
  "timer_seq (noza_os_clear_running_thread s) = timer_seq s"
  "realtime_offset_us (noza_os_clear_running_thread s) = realtime_offset_us s"
  "reserved_vid0_assigned (noza_os_clear_running_thread s) = reserved_vid0_assigned s"
  "irq_bindings (noza_os_clear_running_thread s) = irq_bindings s"
  "irq_pending_bitmap (noza_os_clear_running_thread s) = irq_pending_bitmap s"
  "NOZAOS_PID (noza_os_clear_running_thread s) = NOZAOS_PID s"
  "cpu (noza_os_clear_running_thread s) = cpu s"
  "clock (noza_os_clear_running_thread s) = clock s"
  "systick (noza_os_clear_running_thread s) = systick s"
  "irq_masked (noza_os_clear_running_thread s) = irq_masked s"
  "umem (noza_os_clear_running_thread s) = umem s"
  "umsg (noza_os_clear_running_thread s) = umsg s"
  "irq_event_addr (noza_os_clear_running_thread s) = irq_event_addr s"
  "uninit (noza_os_clear_running_thread s) = uninit s"
  by (simp_all add: noza_os_clear_running_thread_def)

lemma set_return_value1_sel [simp]:
  "running (noza_os_set_return_value1 p a s) = running s"
  "lists (noza_os_set_return_value1 p a s) = lists s"
  "wqs (noza_os_set_return_value1 p a s) = wqs s"
  "slot (noza_os_set_return_value1 p a s) = slot s"
  "free_vid_map (noza_os_set_return_value1 p a s) = free_vid_map s"
  "next_vid (noza_os_set_return_value1 p a s) = next_vid s"
  "next_tick_time (noza_os_set_return_value1 p a s) = next_tick_time s"
  "futex_slots (noza_os_set_return_value1 p a s) = futex_slots s"
  "timers (noza_os_set_return_value1 p a s) = timers s"
  "timer_q (noza_os_set_return_value1 p a s) = timer_q s"
  "timer_seq (noza_os_set_return_value1 p a s) = timer_seq s"
  "realtime_offset_us (noza_os_set_return_value1 p a s) = realtime_offset_us s"
  "reserved_vid0_assigned (noza_os_set_return_value1 p a s) = reserved_vid0_assigned s"
  "irq_bindings (noza_os_set_return_value1 p a s) = irq_bindings s"
  "irq_pending_bitmap (noza_os_set_return_value1 p a s) = irq_pending_bitmap s"
  "NOZAOS_PID (noza_os_set_return_value1 p a s) = NOZAOS_PID s"
  "cpu (noza_os_set_return_value1 p a s) = cpu s"
  "clock (noza_os_set_return_value1 p a s) = clock s"
  "systick (noza_os_set_return_value1 p a s) = systick s"
  "irq_masked (noza_os_set_return_value1 p a s) = irq_masked s"
  "umem (noza_os_set_return_value1 p a s) = umem s"
  "umsg (noza_os_set_return_value1 p a s) = umsg s"
  "frame (thread (noza_os_set_return_value1 p a s) q) = frame (thread s q)"
  "priority (thread (noza_os_set_return_value1 p a s) q) = priority (thread s q)"
  "th_state (thread (noza_os_set_return_value1 p a s) q) = th_state (thread s q)"
  "port_st (thread (noza_os_set_return_value1 p a s) q) = port_st (thread s q)"
  "expired_time (thread (noza_os_set_return_value1 p a s) q) = expired_time (thread s q)"
  "exit_code (thread (noza_os_set_return_value1 p a s) q) = exit_code (thread s q)"
  "vid (thread (noza_os_set_return_value1 p a s) q) = vid (thread s q)"
  "message (thread (noza_os_set_return_value1 p a s) q) = message (thread s q)"
  "pending_recv_msg (thread (noza_os_set_return_value1 p a s) q) = pending_recv_msg (thread s q)"
  "identity (thread (noza_os_set_return_value1 p a s) q) = identity (thread s q)"
  "join_th (thread (noza_os_set_return_value1 p a s) q) = join_th (thread s q)"
  "waiting_queue (thread (noza_os_set_return_value1 p a s) q) = waiting_queue (thread s q)"
  "signal_pending (thread (noza_os_set_return_value1 p a s) q) = signal_pending (thread s q)"
  "signal_mask (thread (noza_os_set_return_value1 p a s) q) = signal_mask (thread s q)"
  "flags (thread (noza_os_set_return_value1 p a s) q) = flags (thread s q)"
  "callid (thread (noza_os_set_return_value1 p a s) q) = callid (thread s q)"
  by (simp_all add: noza_os_set_return_value1_def)

lemma set_return_value2_sel [simp]:
  "running (noza_os_set_return_value2 p a b s) = running s"
  "lists (noza_os_set_return_value2 p a b s) = lists s"
  "wqs (noza_os_set_return_value2 p a b s) = wqs s"
  "slot (noza_os_set_return_value2 p a b s) = slot s"
  "free_vid_map (noza_os_set_return_value2 p a b s) = free_vid_map s"
  "next_vid (noza_os_set_return_value2 p a b s) = next_vid s"
  "next_tick_time (noza_os_set_return_value2 p a b s) = next_tick_time s"
  "futex_slots (noza_os_set_return_value2 p a b s) = futex_slots s"
  "timers (noza_os_set_return_value2 p a b s) = timers s"
  "timer_q (noza_os_set_return_value2 p a b s) = timer_q s"
  "timer_seq (noza_os_set_return_value2 p a b s) = timer_seq s"
  "realtime_offset_us (noza_os_set_return_value2 p a b s) = realtime_offset_us s"
  "reserved_vid0_assigned (noza_os_set_return_value2 p a b s) = reserved_vid0_assigned s"
  "irq_bindings (noza_os_set_return_value2 p a b s) = irq_bindings s"
  "irq_pending_bitmap (noza_os_set_return_value2 p a b s) = irq_pending_bitmap s"
  "NOZAOS_PID (noza_os_set_return_value2 p a b s) = NOZAOS_PID s"
  "cpu (noza_os_set_return_value2 p a b s) = cpu s"
  "clock (noza_os_set_return_value2 p a b s) = clock s"
  "systick (noza_os_set_return_value2 p a b s) = systick s"
  "irq_masked (noza_os_set_return_value2 p a b s) = irq_masked s"
  "umem (noza_os_set_return_value2 p a b s) = umem s"
  "umsg (noza_os_set_return_value2 p a b s) = umsg s"
  "frame (thread (noza_os_set_return_value2 p a b s) q) = frame (thread s q)"
  "priority (thread (noza_os_set_return_value2 p a b s) q) = priority (thread s q)"
  "th_state (thread (noza_os_set_return_value2 p a b s) q) = th_state (thread s q)"
  "port_st (thread (noza_os_set_return_value2 p a b s) q) = port_st (thread s q)"
  "expired_time (thread (noza_os_set_return_value2 p a b s) q) = expired_time (thread s q)"
  "exit_code (thread (noza_os_set_return_value2 p a b s) q) = exit_code (thread s q)"
  "vid (thread (noza_os_set_return_value2 p a b s) q) = vid (thread s q)"
  "message (thread (noza_os_set_return_value2 p a b s) q) = message (thread s q)"
  "pending_recv_msg (thread (noza_os_set_return_value2 p a b s) q) = pending_recv_msg (thread s q)"
  "identity (thread (noza_os_set_return_value2 p a b s) q) = identity (thread s q)"
  "join_th (thread (noza_os_set_return_value2 p a b s) q) = join_th (thread s q)"
  "waiting_queue (thread (noza_os_set_return_value2 p a b s) q) = waiting_queue (thread s q)"
  "signal_pending (thread (noza_os_set_return_value2 p a b s) q) = signal_pending (thread s q)"
  "signal_mask (thread (noza_os_set_return_value2 p a b s) q) = signal_mask (thread s q)"
  "flags (thread (noza_os_set_return_value2 p a b s) q) = flags (thread s q)"
  "callid (thread (noza_os_set_return_value2 p a b s) q) = callid (thread s q)"
  by (simp_all add: noza_os_set_return_value2_def)

lemma set_return_value3_sel [simp]:
  "running (noza_os_set_return_value3 p a b c s) = running s"
  "lists (noza_os_set_return_value3 p a b c s) = lists s"
  "wqs (noza_os_set_return_value3 p a b c s) = wqs s"
  "slot (noza_os_set_return_value3 p a b c s) = slot s"
  "free_vid_map (noza_os_set_return_value3 p a b c s) = free_vid_map s"
  "next_vid (noza_os_set_return_value3 p a b c s) = next_vid s"
  "next_tick_time (noza_os_set_return_value3 p a b c s) = next_tick_time s"
  "futex_slots (noza_os_set_return_value3 p a b c s) = futex_slots s"
  "timers (noza_os_set_return_value3 p a b c s) = timers s"
  "timer_q (noza_os_set_return_value3 p a b c s) = timer_q s"
  "timer_seq (noza_os_set_return_value3 p a b c s) = timer_seq s"
  "realtime_offset_us (noza_os_set_return_value3 p a b c s) = realtime_offset_us s"
  "reserved_vid0_assigned (noza_os_set_return_value3 p a b c s) = reserved_vid0_assigned s"
  "irq_bindings (noza_os_set_return_value3 p a b c s) = irq_bindings s"
  "irq_pending_bitmap (noza_os_set_return_value3 p a b c s) = irq_pending_bitmap s"
  "NOZAOS_PID (noza_os_set_return_value3 p a b c s) = NOZAOS_PID s"
  "cpu (noza_os_set_return_value3 p a b c s) = cpu s"
  "clock (noza_os_set_return_value3 p a b c s) = clock s"
  "systick (noza_os_set_return_value3 p a b c s) = systick s"
  "irq_masked (noza_os_set_return_value3 p a b c s) = irq_masked s"
  "umem (noza_os_set_return_value3 p a b c s) = umem s"
  "umsg (noza_os_set_return_value3 p a b c s) = umsg s"
  "frame (thread (noza_os_set_return_value3 p a b c s) q) = frame (thread s q)"
  "priority (thread (noza_os_set_return_value3 p a b c s) q) = priority (thread s q)"
  "th_state (thread (noza_os_set_return_value3 p a b c s) q) = th_state (thread s q)"
  "port_st (thread (noza_os_set_return_value3 p a b c s) q) = port_st (thread s q)"
  "expired_time (thread (noza_os_set_return_value3 p a b c s) q) = expired_time (thread s q)"
  "exit_code (thread (noza_os_set_return_value3 p a b c s) q) = exit_code (thread s q)"
  "vid (thread (noza_os_set_return_value3 p a b c s) q) = vid (thread s q)"
  "message (thread (noza_os_set_return_value3 p a b c s) q) = message (thread s q)"
  "pending_recv_msg (thread (noza_os_set_return_value3 p a b c s) q) = pending_recv_msg (thread s q)"
  "identity (thread (noza_os_set_return_value3 p a b c s) q) = identity (thread s q)"
  "join_th (thread (noza_os_set_return_value3 p a b c s) q) = join_th (thread s q)"
  "waiting_queue (thread (noza_os_set_return_value3 p a b c s) q) = waiting_queue (thread s q)"
  "signal_pending (thread (noza_os_set_return_value3 p a b c s) q) = signal_pending (thread s q)"
  "signal_mask (thread (noza_os_set_return_value3 p a b c s) q) = signal_mask (thread s q)"
  "flags (thread (noza_os_set_return_value3 p a b c s) q) = flags (thread s q)"
  "callid (thread (noza_os_set_return_value3 p a b c s) q) = callid (thread s q)"
  by (simp_all add: noza_os_set_return_value3_def)

lemma set_return_value4_sel [simp]:
  "running (noza_os_set_return_value4 p a b c d s) = running s"
  "lists (noza_os_set_return_value4 p a b c d s) = lists s"
  "wqs (noza_os_set_return_value4 p a b c d s) = wqs s"
  "slot (noza_os_set_return_value4 p a b c d s) = slot s"
  "free_vid_map (noza_os_set_return_value4 p a b c d s) = free_vid_map s"
  "next_vid (noza_os_set_return_value4 p a b c d s) = next_vid s"
  "next_tick_time (noza_os_set_return_value4 p a b c d s) = next_tick_time s"
  "futex_slots (noza_os_set_return_value4 p a b c d s) = futex_slots s"
  "timers (noza_os_set_return_value4 p a b c d s) = timers s"
  "timer_q (noza_os_set_return_value4 p a b c d s) = timer_q s"
  "timer_seq (noza_os_set_return_value4 p a b c d s) = timer_seq s"
  "realtime_offset_us (noza_os_set_return_value4 p a b c d s) = realtime_offset_us s"
  "reserved_vid0_assigned (noza_os_set_return_value4 p a b c d s) = reserved_vid0_assigned s"
  "irq_bindings (noza_os_set_return_value4 p a b c d s) = irq_bindings s"
  "irq_pending_bitmap (noza_os_set_return_value4 p a b c d s) = irq_pending_bitmap s"
  "NOZAOS_PID (noza_os_set_return_value4 p a b c d s) = NOZAOS_PID s"
  "cpu (noza_os_set_return_value4 p a b c d s) = cpu s"
  "clock (noza_os_set_return_value4 p a b c d s) = clock s"
  "systick (noza_os_set_return_value4 p a b c d s) = systick s"
  "irq_masked (noza_os_set_return_value4 p a b c d s) = irq_masked s"
  "umem (noza_os_set_return_value4 p a b c d s) = umem s"
  "umsg (noza_os_set_return_value4 p a b c d s) = umsg s"
  "frame (thread (noza_os_set_return_value4 p a b c d s) q) = frame (thread s q)"
  "priority (thread (noza_os_set_return_value4 p a b c d s) q) = priority (thread s q)"
  "th_state (thread (noza_os_set_return_value4 p a b c d s) q) = th_state (thread s q)"
  "port_st (thread (noza_os_set_return_value4 p a b c d s) q) = port_st (thread s q)"
  "expired_time (thread (noza_os_set_return_value4 p a b c d s) q) = expired_time (thread s q)"
  "exit_code (thread (noza_os_set_return_value4 p a b c d s) q) = exit_code (thread s q)"
  "vid (thread (noza_os_set_return_value4 p a b c d s) q) = vid (thread s q)"
  "message (thread (noza_os_set_return_value4 p a b c d s) q) = message (thread s q)"
  "pending_recv_msg (thread (noza_os_set_return_value4 p a b c d s) q) = pending_recv_msg (thread s q)"
  "identity (thread (noza_os_set_return_value4 p a b c d s) q) = identity (thread s q)"
  "join_th (thread (noza_os_set_return_value4 p a b c d s) q) = join_th (thread s q)"
  "waiting_queue (thread (noza_os_set_return_value4 p a b c d s) q) = waiting_queue (thread s q)"
  "signal_pending (thread (noza_os_set_return_value4 p a b c d s) q) = signal_pending (thread s q)"
  "signal_mask (thread (noza_os_set_return_value4 p a b c d s) q) = signal_mask (thread s q)"
  "flags (thread (noza_os_set_return_value4 p a b c d s) q) = flags (thread s q)"
  "callid (thread (noza_os_set_return_value4 p a b c d s) q) = callid (thread s q)"
  by (simp_all add: noza_os_set_return_value4_def)

lemma write_user_message_sel [simp]:
  "running (noza_ipc_write_user_message p v a n i s) = running s"
  "lists (noza_ipc_write_user_message p v a n i s) = lists s"
  "wqs (noza_ipc_write_user_message p v a n i s) = wqs s"
  "slot (noza_ipc_write_user_message p v a n i s) = slot s"
  "free_vid_map (noza_ipc_write_user_message p v a n i s) = free_vid_map s"
  "next_vid (noza_ipc_write_user_message p v a n i s) = next_vid s"
  "next_tick_time (noza_ipc_write_user_message p v a n i s) = next_tick_time s"
  "futex_slots (noza_ipc_write_user_message p v a n i s) = futex_slots s"
  "timers (noza_ipc_write_user_message p v a n i s) = timers s"
  "timer_q (noza_ipc_write_user_message p v a n i s) = timer_q s"
  "timer_seq (noza_ipc_write_user_message p v a n i s) = timer_seq s"
  "realtime_offset_us (noza_ipc_write_user_message p v a n i s) = realtime_offset_us s"
  "reserved_vid0_assigned (noza_ipc_write_user_message p v a n i s) = reserved_vid0_assigned s"
  "irq_bindings (noza_ipc_write_user_message p v a n i s) = irq_bindings s"
  "irq_pending_bitmap (noza_ipc_write_user_message p v a n i s) = irq_pending_bitmap s"
  "NOZAOS_PID (noza_ipc_write_user_message p v a n i s) = NOZAOS_PID s"
  "cpu (noza_ipc_write_user_message p v a n i s) = cpu s"
  "clock (noza_ipc_write_user_message p v a n i s) = clock s"
  "systick (noza_ipc_write_user_message p v a n i s) = systick s"
  "irq_masked (noza_ipc_write_user_message p v a n i s) = irq_masked s"
  "umem (noza_ipc_write_user_message p v a n i s) = umem s"
  "frame (thread (noza_ipc_write_user_message p v a n i s) q) = frame (thread s q)"
  "priority (thread (noza_ipc_write_user_message p v a n i s) q) = priority (thread s q)"
  "th_state (thread (noza_ipc_write_user_message p v a n i s) q) = th_state (thread s q)"
  "port_st (thread (noza_ipc_write_user_message p v a n i s) q) = port_st (thread s q)"
  "expired_time (thread (noza_ipc_write_user_message p v a n i s) q) = expired_time (thread s q)"
  "exit_code (thread (noza_ipc_write_user_message p v a n i s) q) = exit_code (thread s q)"
  "vid (thread (noza_ipc_write_user_message p v a n i s) q) = vid (thread s q)"
  "trap (thread (noza_ipc_write_user_message p v a n i s) q) = trap (thread s q)"
  "message (thread (noza_ipc_write_user_message p v a n i s) q) = message (thread s q)"
  "identity (thread (noza_ipc_write_user_message p v a n i s) q) = identity (thread s q)"
  "join_th (thread (noza_ipc_write_user_message p v a n i s) q) = join_th (thread s q)"
  "waiting_queue (thread (noza_ipc_write_user_message p v a n i s) q) = waiting_queue (thread s q)"
  "signal_pending (thread (noza_ipc_write_user_message p v a n i s) q) = signal_pending (thread s q)"
  "signal_mask (thread (noza_ipc_write_user_message p v a n i s) q) = signal_mask (thread s q)"
  "flags (thread (noza_ipc_write_user_message p v a n i s) q) = flags (thread s q)"
  "callid (thread (noza_ipc_write_user_message p v a n i s) q) = callid (thread s q)"
  by (simp_all add: noza_ipc_write_user_message_def split: option.splits)

end
