(* ===== verification/Id_Map.thy ===== *)
theory Id_Map
  imports Kernel_State
begin

text \<open>
  Hash tables from 32-bit identifiers with 256 chained slots: the thread identifier map of the
  kernel (\<^verbatim>\<open>slot\<close>, \<^verbatim>\<open>vid_map\<close> in \<^verbatim>\<open>kernel/noza_os.c\<close>) and the user-space \<^verbatim>\<open>type/hashslot.c\<close>. Both
  are shown to implement one contract, the locale \<open>id_map\<close>, a finite map from identifiers.
\<close>

section \<open>The contract\<close>

locale id_map =
  fixes inv :: "'m \<Rightarrow> bool"
    and lookup :: "'m \<Rightarrow> u32 \<Rightarrow> 'v option"
    and insert :: "u32 \<Rightarrow> 'v \<Rightarrow> 'm \<Rightarrow> 'm"
    and delete :: "u32 \<Rightarrow> 'v \<Rightarrow> 'm \<Rightarrow> 'm"
    and fresh :: "'v \<Rightarrow> 'm \<Rightarrow> bool"
  assumes lookup_insert: "inv m \<Longrightarrow> lookup (insert k v m) = (lookup m)(k \<mapsto> v)"
    and lookup_delete: "inv m \<Longrightarrow> lookup m k = Some v \<Longrightarrow> lookup (delete k v m) = (lookup m)(k := None)"
    and inv_insert: "inv m \<Longrightarrow> lookup m k = None \<Longrightarrow> fresh v m \<Longrightarrow> inv (insert k v m)"
    and inv_delete: "inv m \<Longrightarrow> lookup m k = Some v \<Longrightarrow> inv (delete k v m)"
    and fresh_delete: "inv m \<Longrightarrow> lookup m k = Some v \<Longrightarrow> fresh v (delete k v m)"
begin

lemma lookup_insert_same [simp]: "inv m \<Longrightarrow> lookup (insert k v m) k = Some v"
  by (simp add: lookup_insert)

text \<open>Moving a value to another, unused identifier.\<close>

lemma rename:
  assumes "inv m" and "lookup m k = Some v" and "lookup m k' = None"
  shows "lookup (insert k' v (delete k v m)) = (lookup m)(k := None, k' \<mapsto> v)"
    and "inv (insert k' v (delete k v m))"
proof -
  from assms have k': "lookup (delete k v m) k' = None" by (simp add: lookup_delete)
  from assms show "lookup (insert k' v (delete k v m)) = (lookup m)(k := None, k' \<mapsto> v)"
    by (simp add: lookup_insert lookup_delete inv_delete)
  from assms k' show "inv (insert k' v (delete k v m))"
    by (intro inv_insert inv_delete fresh_delete)
qed

lemma delete_insert:
  assumes "inv m" and "lookup m k = None" and "fresh v m"
  shows "lookup (delete k v (insert k v m)) = lookup m"
  using assms by (auto simp: lookup_delete lookup_insert inv_insert)

end

section \<open>Chained slots\<close>

text \<open>\<^verbatim>\<open>hash32to8\<close>, which both files define.\<close>

definition hash32to8 :: "u32 \<Rightarrow> u8" where
  "hash32to8 v =
     (let byte1 = ucast (drop_bit 24 v AND 0xFF);
          byte2 = ucast (drop_bit 16 v AND 0xFF);
          byte3 = ucast (drop_bit 8 v AND 0xFF);
          byte4 = ucast (v AND 0xFF)
      in byte1 XOR byte2 XOR byte3 XOR byte4)"

type_synonym 'v slots = "u8 \<Rightarrow> (u32 \<times> 'v) list"

definition chain_lookup :: "'v slots \<Rightarrow> u32 \<Rightarrow> 'v option" where
  "chain_lookup T v = map_of (T (hash32to8 v)) v"

definition chain_insert :: "u32 \<Rightarrow> 'v \<Rightarrow> 'v slots \<Rightarrow> 'v slots" where
  "chain_insert v x T = T(hash32to8 v := (v, x) # T (hash32to8 v))"

text \<open>Unlinking the first item of a chain that satisfies a test.\<close>

fun unlink :: "('a \<Rightarrow> bool) \<Rightarrow> 'a list \<Rightarrow> 'a list" where
  "unlink P [] = []"
| "unlink P (x # xs) = (if P x then xs else x # unlink P xs)"

definition chain_inv :: "'v slots \<Rightarrow> bool" where
  "chain_inv T \<longleftrightarrow> (\<forall>h. distinct (map fst (T h)) \<and> (\<forall>(v, x) \<in> set (T h). hash32to8 v = h))"

lemma unlink_notin: "\<forall>x\<in>set xs. \<not> P x \<Longrightarrow> unlink P xs = xs"
  by (induction xs) auto

lemma set_unlink_subset: "set (unlink P xs) \<subseteq> set xs"
  by (induction xs) auto

lemma set_unlink_unique:
  assumes "distinct xs" and "x \<in> set xs" and "\<And>y. y \<in> set xs \<Longrightarrow> P y \<longleftrightarrow> y = x"
  shows "set (unlink P xs) = set xs - {x}"
  using assms
proof (induction xs)
  case (Cons a xs)
  show ?case
  proof (cases "a = x")
    case True
    with Cons.prems show ?thesis by auto
  next
    case False
    with Cons.prems have "x \<in> set xs" and "\<not> P a" by auto
    moreover have "set (unlink P xs) = set xs - {x}"
      by (rule Cons.IH) (use Cons.prems \<open>x \<in> set xs\<close> in simp_all)
    ultimately show ?thesis using False by auto
  qed
qed simp

lemma length_unlink: "x \<in> set xs \<Longrightarrow> P x \<Longrightarrow> length (unlink P xs) = length xs - 1"
proof (induction xs)
  case (Cons a xs)
  then show ?case by (cases xs) auto
qed simp

lemma distinct_unlink: "distinct (map f xs) \<Longrightarrow> distinct (map f (unlink P xs))"
  by (induction xs) (auto dest: set_unlink_subset [THEN subsetD])

lemma map_of_unlink:
  assumes "distinct (map fst xs)" and "(k, v) \<in> set xs"
    and "\<And>y. y \<in> set xs \<Longrightarrow> P y \<longleftrightarrow> y = (k, v)"
  shows "map_of (unlink P xs) = (map_of xs)(k := None)"
  using assms
proof (induction xs)
  case (Cons a xs)
  show ?case
  proof (cases "a = (k, v)")
    case True
    with Cons.prems(1) have "map_of xs k = None"
      by (auto simp: map_of_eq_None_iff)
    with True Cons.prems(3) show ?thesis by auto
  next
    case False
    with Cons.prems have "(k, v) \<in> set xs" "\<not> P a" by auto
    moreover from this(1) have "k \<in> set (map fst xs)" by force
    with Cons.prems(1) have "fst a \<noteq> k" by auto
    moreover have "map_of (unlink P xs) = (map_of xs)(k := None)"
      by (rule Cons.IH) (use Cons.prems \<open>(k, v) \<in> set xs\<close> in simp_all)
    ultimately show ?thesis by (cases a) (simp add: fun_eq_iff)
  qed
qed simp

lemma chain_lookup_Some_iff:
  "chain_inv T \<Longrightarrow> chain_lookup T k = Some v \<longleftrightarrow> (k, v) \<in> set (T (hash32to8 k))"
  by (simp add: chain_lookup_def chain_inv_def map_of_eq_Some_iff)

lemma chain_lookup_insert: "chain_lookup (chain_insert k v T) = (chain_lookup T)(k \<mapsto> v)"
  by (rule ext) (simp add: chain_lookup_def chain_insert_def)

lemma chain_inv_insert: "chain_inv T \<Longrightarrow> chain_lookup T k = None \<Longrightarrow> chain_inv (chain_insert k v T)"
  by (auto simp: chain_inv_def chain_insert_def chain_lookup_def map_of_eq_None_iff)

lemma chain_inv_unlink: "chain_inv T \<Longrightarrow> chain_inv (T(h := unlink P (T h)))"
  by (auto simp: chain_inv_def intro: distinct_unlink dest!: set_unlink_subset [THEN subsetD])

lemma chain_lookup_unlink:
  assumes "chain_inv T" and "chain_lookup T k = Some v"
    and "\<And>y. y \<in> set (T (hash32to8 k)) \<Longrightarrow> P y \<longleftrightarrow> y = (k, v)"
  shows "chain_lookup (T(hash32to8 k := unlink P (T (hash32to8 k)))) = (chain_lookup T)(k := None)"
proof
  fix k'
  have d: "distinct (map fst (T (hash32to8 k)))" using assms(1) by (simp add: chain_inv_def)
  have m: "(k, v) \<in> set (T (hash32to8 k))" using assms(2) by (simp add: chain_lookup_Some_iff [OF assms(1)])
  note eq = map_of_unlink [where P = P and k = k and v = v, OF d m assms(3)]
  show "chain_lookup (T(hash32to8 k := unlink P (T (hash32to8 k)))) k'
      = ((chain_lookup T)(k := None)) k'"
    by (cases "hash32to8 k' = hash32to8 k") (auto simp: chain_lookup_def eq)
qed

section \<open>The user-space table\<close>

text \<open>\<^verbatim>\<open>type/hashslot.c\<close>: items are caller-provided and pushed on the chain of their slot. The table's
  spin lock makes each operation atomic.\<close>

definition mapping_init :: "'v slots" where
  "mapping_init = (\<lambda>_. [])"

definition mapping_insert :: "u32 \<Rightarrow> 'v \<Rightarrow> 'v slots \<Rightarrow> 'v slots" where
  "mapping_insert i v T = (let h = hash32to8 i in T(h := (i, v) # T h))"

definition mapping_remove :: "u32 \<Rightarrow> 'v slots \<Rightarrow> 'v slots" where
  "mapping_remove i T = (let h = hash32to8 i in T(h := unlink (\<lambda>(j, _). j = i) (T h)))"

definition mapping_get_value :: "'v slots \<Rightarrow> u32 \<Rightarrow> 'v option" where
  "mapping_get_value T i = map_of (T (hash32to8 i)) i"

lemma mapping_insert_eq: "mapping_insert = chain_insert"
  by (intro ext) (simp add: mapping_insert_def chain_insert_def Let_def)

lemma mapping_get_value_eq: "mapping_get_value = chain_lookup"
  by (intro ext) (simp add: mapping_get_value_def chain_lookup_def)

lemma chain_inv_init [simp]: "chain_inv mapping_init"
  by (simp add: chain_inv_def mapping_init_def)

lemma mapping_remove_lookup:
  assumes "chain_inv T" and "chain_lookup T k = Some v"
  shows "chain_lookup (mapping_remove k T) = (chain_lookup T)(k := None)"
proof -
  have "(case y of (i, _) \<Rightarrow> i = k) \<longleftrightarrow> y = (k, v)" if "y \<in> set (T (hash32to8 k))" for y
    using that assms(2) assms(1) [unfolded chain_inv_def]
    by (auto simp: chain_lookup_Some_iff [OF assms(1)] dest: eq_key_imp_eq_value)
  then show ?thesis
    unfolding mapping_remove_def Let_def by (rule chain_lookup_unlink [OF assms])
qed

lemma chain_inv_mapping_remove: "chain_inv T \<Longrightarrow> chain_inv (mapping_remove k T)"
  unfolding mapping_remove_def Let_def by (rule chain_inv_unlink)

interpretation hs: id_map chain_inv mapping_get_value mapping_insert "\<lambda>k v. mapping_remove k" "\<lambda>v m. True"
proof unfold_locales
  fix T :: "'a slots" and k v
  assume T: "chain_inv T"
  show "mapping_get_value (mapping_insert k v T) = (mapping_get_value T)(k \<mapsto> v)"
    unfolding mapping_get_value_eq mapping_insert_eq by (rule chain_lookup_insert)
  show "chain_inv (mapping_insert k v T)" if "mapping_get_value T k = None"
    using T that unfolding mapping_get_value_eq mapping_insert_eq by (rule chain_inv_insert)
  show "chain_inv (mapping_remove k T)"
    using T by (rule chain_inv_mapping_remove)
  show "mapping_get_value (mapping_remove k T) = (mapping_get_value T)(k := None)"
    if "mapping_get_value T k = Some v"
    using T that unfolding mapping_get_value_eq by (rule mapping_remove_lookup)
qed simp

section \<open>Properties\<close>



end
