(* ===== verification/Kernel_Lists.thy ===== *)
theory Kernel_Lists
  imports Id_Map
begin

text \<open>
  Thread identifiers and thread lists of \<^verbatim>\<open>kernel/noza_os.c\<close>: the map from virtual identifiers
  (\<^verbatim>\<open>vid\<close>) to threads, allocation of identifiers, and the moves of threads between lists by
  \<^verbatim>\<open>noza_os_add_thread\<close>, \<^verbatim>\<open>noza_os_remove_thread\<close> and \<^verbatim>\<open>noza_os_change_state\<close>.
\<close>

section \<open>Thread identifiers\<close>

definition get_thread_by_vid :: "u32 \<Rightarrow> kstate \<Rightarrow> pid option" where
  "get_thread_by_vid v s = chain_lookup (slot s) v"

definition vid_to_pid :: "u32 \<Rightarrow> kstate \<Rightarrow> int" where
  "vid_to_pid v s = (case map_of (slot s (hash32to8 v)) v of Some p \<Rightarrow> int p | None \<Rightarrow> - 1)"

definition noza_os_insert_vid_with_value :: "pid \<Rightarrow> u32 \<Rightarrow> kstate \<Rightarrow> kstate res" where
  "noza_os_insert_vid_with_value p v s =
     (if free_vid_map s = 0 then Inl Kernel_panic
      else Inr (upd_thread p (\<lambda>t. t\<lparr>vid := v\<rparr>)
             (s\<lparr>free_vid_map := free_vid_map s - 1, slot := chain_insert v p (slot s)\<rparr>)))"

text \<open>The search of \<^verbatim>\<open>noza_os_insert_vid\<close>: take the next identifier, keep 0 reserved, and go on while the
  identifier is in use. At most 32 identifiers are in use, so 33 candidates are enough (theorem
  \<open>insert_vid_terminates\<close>).\<close>

fun vid_search :: "nat \<Rightarrow> nat \<Rightarrow> kstate \<Rightarrow> (nat \<times> nat) res" where
  "vid_search 0 n s = Inl Diverge"
| "vid_search (Suc k) n s =
     (let n' = (if n + 1 \<ge> 65536 then 1 else n + 1)
      in if get_thread_by_vid (of_nat n) s \<noteq> None then vid_search k n' s else Inr (n, n'))"

definition noza_os_insert_vid :: "pid \<Rightarrow> kstate \<Rightarrow> kstate res" where
  "noza_os_insert_vid p s =
     bindE (vid_search (Suc NOZA_OS_TASK_LIMIT) (next_vid s) s)
       (\<lambda>(n, n'). noza_os_insert_vid_with_value p (of_nat n) (s\<lparr>next_vid := n'\<rparr>))"

definition noza_os_remove_vid :: "pid \<Rightarrow> kstate \<Rightarrow> kstate" where
  "noza_os_remove_vid p s =
     (let h = hash32to8 (vid (thread s p));
          found = (\<exists>x \<in> set (slot s h). snd x = p);
          s1 = (if found then s\<lparr>slot := (slot s)(h := unlink (\<lambda>x. snd x = p) (slot s h)),
                                free_vid_map := free_vid_map s + 1\<rparr>
                else s)
      in upd_thread p (\<lambda>t. t\<lparr>vid := 0\<rparr>) s1)"

subsection \<open>The map as a finite map\<close>

text \<open>An item is found for removal by its thread, so the contract of \<open>id_map\<close> holds for tables that have at
  most one identifier per thread.\<close>

definition vid_unlink :: "u32 \<Rightarrow> pid \<Rightarrow> pid slots \<Rightarrow> pid slots" where
  "vid_unlink v p T = T(hash32to8 v := unlink (\<lambda>x. snd x = p) (T (hash32to8 v)))"

definition vmap_inv :: "pid slots \<Rightarrow> bool" where
  "vmap_inv T \<longleftrightarrow> chain_inv T
     \<and> (\<forall>k k' p. chain_lookup T k = Some p \<longrightarrow> chain_lookup T k' = Some p \<longrightarrow> k' = k)"

lemma vid_unlink_lookup:
  assumes "vmap_inv T" and "chain_lookup T k = Some p"
  shows "chain_lookup (vid_unlink k p T) = (chain_lookup T)(k := None)"
  unfolding vid_unlink_def
proof (rule chain_lookup_unlink)
  note iff = chain_lookup_Some_iff [of T]
  show inv: "chain_inv T" using assms(1) by (simp add: vmap_inv_def)
  show "snd y = p \<longleftrightarrow> y = (k, p)" if "y \<in> set (T (hash32to8 k))" for y
  proof -
    have "hash32to8 (fst y) = hash32to8 k" using inv that by (cases y) (auto simp: chain_inv_def)
    with that have "chain_lookup T (fst y) = Some (snd y)" by (simp add: iff [OF inv])
    with assms show ?thesis by (cases y) (auto simp: vmap_inv_def)
  qed
qed (rule assms(2))

interpretation vm: id_map vmap_inv chain_lookup chain_insert vid_unlink
  "\<lambda>p T. \<forall>k. chain_lookup T k \<noteq> Some p"
proof unfold_locales
  fix T :: "pid slots" and k and p :: pid
  assume T: "vmap_inv T"
  show "chain_lookup (chain_insert k p T) = (chain_lookup T)(k \<mapsto> p)"
    by (rule chain_lookup_insert)
  show "vmap_inv (chain_insert k p T)"
    if "chain_lookup T k = None" "\<forall>k. chain_lookup T k \<noteq> Some p"
    using T that by (auto simp: vmap_inv_def chain_lookup_insert chain_inv_insert)
  assume p: "chain_lookup T k = Some p"
  note del = vid_unlink_lookup [OF T p]
  show "chain_lookup (vid_unlink k p T) = (chain_lookup T)(k := None)" by (rule del)
  have "chain_inv (vid_unlink k p T)"
    using T unfolding vid_unlink_def by (intro chain_inv_unlink) (simp add: vmap_inv_def)
  with T p show "vmap_inv (vid_unlink k p T)"
    unfolding vmap_inv_def del by auto
  from T p show "\<forall>k'. chain_lookup (vid_unlink k p T) k' \<noteq> Some p"
    unfolding vmap_inv_def del by auto
qed

section \<open>Thread lists\<close>

text \<open>\<^verbatim>\<open>noza_os.ready\<close> has \<^verbatim>\<open>NOZA_OS_PRIORITY_LIMIT\<close> elements; touching any other is out of bounds.\<close>

fun lid_ok :: "lid \<Rightarrow> bool" where
  "lid_ok (L_ready i) = (i < NOZA_OS_PRIORITY_LIMIT)"
| "lid_ok _ = True"

definition thread_count :: "lid \<Rightarrow> kstate \<Rightarrow> nat res" where
  "thread_count l s = (if lid_ok l then Inr (length (lists s l)) else Inl Out_of_bounds)"

definition noza_os_add_thread :: "lid \<Rightarrow> pid \<Rightarrow> kstate \<Rightarrow> kstate res" where
  "noza_os_add_thread l p s =
     (if \<not> lid_ok l then Inl Out_of_bounds
      else if p \<in> set (lists s l) then Inl List_corrupt
      else
        let s1 = (if state_id l = THREAD_SLEEP
                  then upd_list l (insert_expired (\<lambda>q. expired_time (thread s q)) p) s
                  else upd_list l (\<lambda>xs. xs @ [p]) s);
            s2 = upd_thread p (\<lambda>t. t\<lparr>th_state := state_id l\<rparr>) s1
        in Inr (if state_id l = THREAD_FREE then noza_os_remove_vid p s2 else s2))"

definition noza_os_remove_thread :: "lid \<Rightarrow> pid \<Rightarrow> kstate \<Rightarrow> kstate res" where
  "noza_os_remove_thread l p s =
     (if \<not> lid_ok l then Inl Out_of_bounds
      else if th_state (thread s p) \<noteq> state_id l then Inl Kernel_panic
      else if p \<notin> set (lists s l) then Inl List_corrupt
      else Inr (upd_list l (remove1 p) s))"

definition noza_os_change_state :: "pid \<Rightarrow> lid \<Rightarrow> lid \<Rightarrow> kstate \<Rightarrow> kstate res" where
  "noza_os_change_state p from to s =
     bindE (noza_os_remove_thread from p s) (noza_os_add_thread to p)"

end
