(* ===== verification/Kernel_Inv.thy ===== *)
theory Kernel_Inv
  imports Kernel_Lists
begin

text \<open>
  The invariant of the kernel's thread bookkeeping. Where a thread is linked is described by four
  sets: the thread lists and wait queues that contain it, the cores that run it and the threads it
  waits for in a join. \<open>thread_ok\<close> says that its state field determines these sets, so that a
  thread is in exactly one place and no thread is lost; \<open>kinv\<close> collects the whole invariant.
\<close>

section \<open>Where a thread is\<close>

definition on_lists :: "kstate \<Rightarrow> pid \<Rightarrow> lid set" where
  "on_lists s p = {l. p \<in> set (lists s l)}"

definition on_wqs :: "kstate \<Rightarrow> pid \<Rightarrow> wqid set" where
  "on_wqs s p = {w. p \<in> set (wqs s w)}"

definition on_cores :: "kstate \<Rightarrow> pid \<Rightarrow> nat set" where
  "on_cores s p = {c. running s c = Some p}"

definition joins :: "kstate \<Rightarrow> pid \<Rightarrow> pid set" where
  "joins s p = {t. t < NOZA_OS_TASK_LIMIT \<and> join_th (thread s t) = Some p}"

definition wait_timeout :: "thread_t \<Rightarrow> bool" where
  "wait_timeout t \<longleftrightarrow> flags t AND FLAG_WAIT_TIMEOUT \<noteq> 0"

definition live :: "thread_t \<Rightarrow> bool" where
  "live t \<longleftrightarrow> th_state t \<noteq> THREAD_FREE \<and> th_state t \<noteq> THREAD_ZOMBIE"

text \<open>The place a state calls for: on no queue, on no core, waiting for no thread, and on the lists
  \<open>ls\<close>.\<close>

definition parked :: "kstate \<Rightarrow> pid \<Rightarrow> lid set \<Rightarrow> bool" where
  "parked s p ls \<longleftrightarrow> on_lists s p = ls \<and> on_wqs s p = {} \<and> on_cores s p = {} \<and> joins s p = {}
     \<and> waiting_queue (thread s p) = None"

definition thread_ok :: "kstate \<Rightarrow> pid \<Rightarrow> bool" where
  "thread_ok s p \<longleftrightarrow>
     (case th_state (thread s p) of
        THREAD_FREE \<Rightarrow> parked s p {L_free}
      | THREAD_RUNNING \<Rightarrow> on_lists s p = {} \<and> on_wqs s p = {} \<and> joins s p = {}
          \<and> waiting_queue (thread s p) = None \<and> (\<exists>c. on_cores s p = {c})
      | THREAD_READY \<Rightarrow> parked s p {L_ready (priority (thread s p))}
      | THREAD_WAITING_MSG \<Rightarrow> parked s p {L_wait}
      | THREAD_WAITING_READ \<Rightarrow> (\<exists>ow. parked s p {L_pending ow})
      | THREAD_WAITING_REPLY \<Rightarrow> (\<exists>ow. parked s p {L_reply ow})
      | THREAD_WAITING_SYNC \<Rightarrow>
          on_lists s p = (if wait_timeout (thread s p) then {L_sync_sleep} else {})
          \<and> (\<exists>w. waiting_queue (thread s p) = Some w \<and> on_wqs s p = {w})
          \<and> on_cores s p = {} \<and> joins s p = {}
      | THREAD_SLEEP \<Rightarrow> parked s p {L_sleep}
      | THREAD_ZOMBIE \<Rightarrow> parked s p {L_zombie}
      | THREAD_PENDING_JOIN \<Rightarrow> on_lists s p = {} \<and> on_wqs s p = {} \<and> on_cores s p = {}
          \<and> waiting_queue (thread s p) = None \<and> (\<exists>t. joins s p = {t})
      | THREAD_STOPPED \<Rightarrow> parked s p {L_stopped})"

section \<open>The invariant\<close>

text \<open>\<open>sched_ok X\<close>: every thread but those of \<open>X\<close>, which are on their way from one place to another, is
  where its state says.\<close>

definition sched_ok :: "pid set \<Rightarrow> kstate \<Rightarrow> bool" where
  "sched_ok X s \<longleftrightarrow>
     (\<forall>l. distinct (lists s l)) \<and> (\<forall>w. distinct (wqs s w))
     \<and> (\<forall>p. p < NOZA_OS_TASK_LIMIT \<longrightarrow> p \<notin> X \<longrightarrow> thread_ok s p)
     \<and> (\<forall>p. \<not> p < NOZA_OS_TASK_LIMIT \<longrightarrow>
           on_lists s p = {} \<and> on_wqs s p = {} \<and> on_cores s p = {} \<and> joins s p = {})"

definition prio_ok :: "kstate \<Rightarrow> bool" where
  "prio_ok s \<longleftrightarrow> (\<forall>p < NOZA_OS_TASK_LIMIT. priority (thread s p) < NOZA_OS_PRIORITY_LIMIT)"

text \<open>Only live threads have others waiting at their port or for their exit.\<close>

definition owners_ok :: "kstate \<Rightarrow> bool" where
  "owners_ok s \<longleftrightarrow>
     (\<forall>ow. lists s (L_pending ow) \<noteq> [] \<or> lists s (L_reply ow) \<noteq> []
        \<longrightarrow> ow < NOZA_OS_TASK_LIMIT \<and> live (thread s ow))
     \<and> (\<forall>t < NOZA_OS_TASK_LIMIT. join_th (thread s t) \<noteq> None \<longrightarrow> live (thread s t))"

text \<open>The identifier map names exactly the threads of \<open>M\<close>, each by its own \<^verbatim>\<open>vid\<close>; the reserved
  identifier 0 is in use only after it was assigned.\<close>

definition vid_ok :: "pid set \<Rightarrow> kstate \<Rightarrow> bool" where
  "vid_ok M s \<longleftrightarrow>
     chain_inv (slot s)
     \<and> (\<forall>v p. get_thread_by_vid v s = Some p \<longleftrightarrow> p \<in> M \<and> vid (thread s p) = v)
     \<and> M \<subseteq> {..<NOZA_OS_TASK_LIMIT} \<and> free_vid_map s + card M = NOZA_OS_TASK_LIMIT
     \<and> 1 \<le> next_vid s \<and> next_vid s < 65536
     \<and> (get_thread_by_vid 0 s \<noteq> None \<longrightarrow> reserved_vid0_assigned s)"

definition used :: "kstate \<Rightarrow> pid set" where
  "used s = {p. p < NOZA_OS_TASK_LIMIT \<and> th_state (thread s p) \<noteq> THREAD_FREE}"

text \<open>Timers and futex slots that are not in use have no waiters; the armed timers are the ones in the
  queue, which is sorted by deadline; periods and deadlines are in the range of their C types.\<close>

definition timers_ok :: "kstate \<Rightarrow> bool" where
  "timers_ok s \<longleftrightarrow>
     distinct (timer_q s) \<and> sorted (map (\<lambda>i. deadline (timers s i)) (timer_q s))
     \<and> (\<forall>i. i \<in> set (timer_q s) \<longleftrightarrow> i < NOZA_MAX_TIMERS \<and> armed (timers s i))
     \<and> (\<forall>i. armed (timers s i) \<longrightarrow> tm_in_use (timers s i))
     \<and> (\<forall>i. 0 \<le> period_us (timers s i) \<and> period_us (timers s i) < 2 ^ 32
            \<and> - (2 ^ 63) \<le> deadline (timers s i) \<and> deadline (timers s i) < 2 ^ 63)
     \<and> (\<forall>i. \<not> tm_in_use (timers s i) \<longrightarrow> wqs s (W_timer i) = [])
     \<and> (\<forall>i. \<not> fx_in_use (futex_slots s i) \<longrightarrow> wqs s (W_futex i) = [])"

definition kinv_ex :: "pid set \<Rightarrow> kstate \<Rightarrow> bool" where
  "kinv_ex X s \<longleftrightarrow> sched_ok X s \<and> prio_ok s \<and> owners_ok s \<and> vid_ok (used s) s \<and> timers_ok s"

abbreviation kinv :: "kstate \<Rightarrow> bool" where
  "kinv \<equiv> kinv_ex {}"

section \<open>How updates change places\<close>

lemma on_lists_upd [simp]:
  "on_lists (upd_thread p f s) = on_lists s"
  "on_lists (upd_wq w g s) = on_lists s"
  "on_lists (upd_timer i tf s) = on_lists s"
  "on_lists (upd_irq i bf s) = on_lists s"
  "on_lists (noza_os_clear_running_thread s) = on_lists s"
  by (simp_all add: on_lists_def fun_eq_iff)

lemma on_wqs_upd [simp]:
  "on_wqs (upd_thread p f s) = on_wqs s"
  "on_wqs (upd_list l g s) = on_wqs s"
  "on_wqs (upd_timer i tf s) = on_wqs s"
  "on_wqs (upd_irq i bf s) = on_wqs s"
  "on_wqs (noza_os_clear_running_thread s) = on_wqs s"
  by (simp_all add: on_wqs_def fun_eq_iff)

lemma on_cores_upd [simp]:
  "on_cores (upd_thread p f s) = on_cores s"
  "on_cores (upd_list l g s) = on_cores s"
  "on_cores (upd_wq w g s) = on_cores s"
  "on_cores (upd_timer i tf s) = on_cores s"
  "on_cores (upd_irq i bf s) = on_cores s"
  by (simp_all add: on_cores_def fun_eq_iff)

lemma joins_upd [simp]:
  "joins (upd_list l g s) = joins s"
  "joins (upd_wq w g s) = joins s"
  "joins (upd_timer i tf s) = joins s"
  "joins (upd_irq i bf s) = joins s"
  "joins (noza_os_clear_running_thread s) = joins s"
  by (simp_all add: joins_def fun_eq_iff)

lemma joins_upd_thread [simp]:
  "join_th (f (thread s p)) = join_th (thread s p) \<Longrightarrow> joins (upd_thread p f s) = joins s"
  by (auto simp: joins_def fun_eq_iff)

lemma on_lists_append [simp]:
  "on_lists (upd_list l (\<lambda>xs. xs @ [p]) s) q = (if q = p then insert l (on_lists s q) else on_lists s q)"
  by (auto simp: on_lists_def)

lemma on_lists_insert_expired [simp]:
  "on_lists (upd_list l (insert_expired k p) s) q
     = (if q = p then insert l (on_lists s q) else on_lists s q)"
  by (auto simp: on_lists_def)

lemma on_lists_remove1 [simp]:
  "distinct (lists s l) \<Longrightarrow>
     on_lists (upd_list l (remove1 p) s) q = (if q = p then on_lists s q - {l} else on_lists s q)"
  by (auto simp: on_lists_def)

lemma on_wqs_append [simp]:
  "on_wqs (upd_wq w (\<lambda>xs. xs @ [p]) s) q = (if q = p then insert w (on_wqs s q) else on_wqs s q)"
  by (auto simp: on_wqs_def)

lemma on_wqs_remove1 [simp]:
  "distinct (wqs s w) \<Longrightarrow>
     on_wqs (upd_wq w (remove1 p) s) q = (if q = p then on_wqs s q - {w} else on_wqs s q)"
  by (auto simp: on_wqs_def)

lemma on_cores_clear [simp]:
  "on_cores (noza_os_clear_running_thread s) q
     = (if running s (cpu s) = Some q then on_cores s q - {cpu s} else on_cores s q)"
  by (auto simp: on_cores_def)

section \<open>Proving the invariant of an updated state\<close>

text \<open>Everything \<open>thread_ok\<close> looks at.\<close>

definition conf :: "kstate \<Rightarrow> pid \<Rightarrow>
    (lid set \<times> wqid set \<times> nat set \<times> pid set) \<times> (thread_state \<times> nat \<times> bool \<times> wqid option)" where
  "conf s p = ((on_lists s p, on_wqs s p, on_cores s p, joins s p),
     (th_state (thread s p), priority (thread s p), wait_timeout (thread s p), waiting_queue (thread s p)))"

lemma thread_ok_conf: "conf s' p = conf s p \<Longrightarrow> thread_ok s' p = thread_ok s p"
  by (simp add: conf_def thread_ok_def parked_def split: thread_state.splits)

text \<open>A step that changes the places of the threads of \<open>P\<close> only has to put those right.\<close>

lemma sched_okI:
  assumes inv: "sched_ok X s"
    and dl: "\<And>l. distinct (lists s' l)" and dw: "\<And>w. distinct (wqs s' w)"
    and others: "\<And>q. q \<notin> P \<Longrightarrow> conf s' q = conf s q"
    and moved: "\<And>p. p \<in> P \<Longrightarrow> p < NOZA_OS_TASK_LIMIT \<and> (p \<in> X' \<or> thread_ok s' p)"
    and X: "X - P \<subseteq> X'"
  shows "sched_ok X' s'"
proof -
  have "thread_ok s' p" if "p < NOZA_OS_TASK_LIMIT" "p \<notin> X'" for p
  proof (cases "p \<in> P")
    case True
    with moved [OF True] that show ?thesis by simp
  next
    case False
    with X that have "p \<notin> X" by auto
    with inv that have "thread_ok s p" by (simp add: sched_ok_def)
    with thread_ok_conf [OF others [OF False]] show ?thesis by simp
  qed
  moreover have "on_lists s' p = {} \<and> on_wqs s' p = {} \<and> on_cores s' p = {} \<and> joins s' p = {}"
    if "\<not> p < NOZA_OS_TASK_LIMIT" for p
  proof -
    have "p \<notin> P" using moved [of p] that by auto
    from others [OF this] inv that show ?thesis by (simp add: conf_def sched_ok_def)
  qed
  ultimately show ?thesis using dl dw by (simp add: sched_ok_def)
qed

lemma sched_ok_distinct:
  "sched_ok X s \<Longrightarrow> distinct (lists s l)" "sched_ok X s \<Longrightarrow> distinct (wqs s w)"
  by (simp_all add: sched_ok_def)

lemma sched_ok_same:
  assumes "sched_ok X s" and "lists s' = lists s" and "wqs s' = wqs s" and "\<And>q. conf s' q = conf s q"
  shows "sched_ok X s'"
  by (rule sched_okI [where P = "{}", OF assms(1)]) (simp_all add: assms sched_ok_distinct [OF assms(1)])

lemma sched_ok_thread: "sched_ok X s \<Longrightarrow> p < NOZA_OS_TASK_LIMIT \<Longrightarrow> p \<notin> X \<Longrightarrow> thread_ok s p"
  by (simp add: sched_ok_def)

lemma sched_ok_in_list:
  assumes "sched_ok X s" and "p \<in> set (lists s l)"
  shows "p < NOZA_OS_TASK_LIMIT"
proof (rule ccontr)
  assume "\<not> p < NOZA_OS_TASK_LIMIT"
  with assms(1) have "on_lists s p = {}" by (simp add: sched_ok_def)
  with assms(2) show False by (auto simp: on_lists_def)
qed

lemma sched_ok_in_wq:
  assumes "sched_ok X s" and "p \<in> set (wqs s w)"
  shows "p < NOZA_OS_TASK_LIMIT"
proof (rule ccontr)
  assume "\<not> p < NOZA_OS_TASK_LIMIT"
  with assms(1) have "on_wqs s p = {}" by (simp add: sched_ok_def)
  with assms(2) show False by (auto simp: on_wqs_def)
qed

text \<open>A thread in a list has the state of the list and is nowhere else.\<close>

lemma thread_ok_in_list:
  assumes "thread_ok s p" and "p \<in> set (lists s l)"
  shows "on_lists s p = {l}" and "th_state (thread s p) = state_id l"
    and "l = L_ready i \<Longrightarrow> i = priority (thread s p)"
    and "on_cores s p = {}" and "joins s p = {}"
    and "l \<noteq> L_sync_sleep \<Longrightarrow> parked s p {l}"
    and "l = L_sync_sleep \<Longrightarrow> wait_timeout (thread s p)"
proof -
  from assms(2) have l: "l \<in> on_lists s p" by (simp add: on_lists_def)
  with assms(1) show "on_lists s p = {l}" and "th_state (thread s p) = state_id l"
    and "l = L_ready i \<Longrightarrow> i = priority (thread s p)"
    and "on_cores s p = {}" and "joins s p = {}"
    and "l \<noteq> L_sync_sleep \<Longrightarrow> parked s p {l}"
    and "l = L_sync_sleep \<Longrightarrow> wait_timeout (thread s p)"
    by (auto simp: thread_ok_def parked_def split: thread_state.splits if_splits)
qed

lemma thread_ok_in_wq:
  assumes "thread_ok s p" and "p \<in> set (wqs s w)"
  shows "on_wqs s p = {w}" and "th_state (thread s p) = THREAD_WAITING_SYNC"
    and "waiting_queue (thread s p) = Some w" and "on_cores s p = {}" and "joins s p = {}"
    and "on_lists s p = (if wait_timeout (thread s p) then {L_sync_sleep} else {})"
proof -
  from assms(2) have w: "w \<in> on_wqs s p" by (simp add: on_wqs_def)
  with assms(1) show "on_wqs s p = {w}" and "th_state (thread s p) = THREAD_WAITING_SYNC"
    and "waiting_queue (thread s p) = Some w" and "on_cores s p = {}" and "joins s p = {}"
    and "on_lists s p = (if wait_timeout (thread s p) then {L_sync_sleep} else {})"
    by (auto simp: thread_ok_def parked_def split: thread_state.splits)
qed

lemma thread_ok_running:
  assumes "thread_ok s p" and "running s c = Some p"
  shows "th_state (thread s p) = THREAD_RUNNING" and "on_lists s p = {}" and "on_wqs s p = {}"
    and "joins s p = {}" and "waiting_queue (thread s p) = None" and "on_cores s p = {c}"
proof -
  from assms(2) have c: "c \<in> on_cores s p" by (simp add: on_cores_def)
  with assms(1) show "th_state (thread s p) = THREAD_RUNNING" and "on_lists s p = {}"
    and "on_wqs s p = {}" and "joins s p = {}" and "waiting_queue (thread s p) = None"
    and "on_cores s p = {c}"
    by (auto simp: thread_ok_def parked_def split: thread_state.splits)
qed

lemma not_on_lists: "on_lists s p = {} \<Longrightarrow> p \<notin> set (lists s l)"
  by (auto simp: on_lists_def)

section \<open>Updates the invariant does not see\<close>

definition core_of :: "thread_t \<Rightarrow> thread_state \<times> nat \<times> u8 \<times> wqid option \<times> pid option \<times> u32" where
  "core_of t = (th_state t, priority t, flags t, waiting_queue t, join_th t, vid t)"

definition same_kinv :: "kstate \<Rightarrow> kstate \<Rightarrow> bool" where
  "same_kinv s s' \<longleftrightarrow> lists s' = lists s \<and> wqs s' = wqs s \<and> running s' = running s \<and> slot s' = slot s
     \<and> free_vid_map s' = free_vid_map s \<and> next_vid s' = next_vid s
     \<and> reserved_vid0_assigned s' = reserved_vid0_assigned s \<and> timers s' = timers s
     \<and> timer_q s' = timer_q s \<and> futex_slots s' = futex_slots s
     \<and> (\<forall>q. core_of (thread s' q) = core_of (thread s q))"

lemma same_kinv_parts:
  assumes "same_kinv s s'"
  shows "sched_ok X s \<Longrightarrow> sched_ok X s'" and "prio_ok s' = prio_ok s" and "owners_ok s' = owners_ok s"
    and "vid_ok M s' = vid_ok M s" and "used s' = used s" and "timers_ok s' = timers_ok s"
proof -
  from assms have tcb: "th_state (thread s' q) = th_state (thread s q)"
    "priority (thread s' q) = priority (thread s q)" "flags (thread s' q) = flags (thread s q)"
    "waiting_queue (thread s' q) = waiting_queue (thread s q)"
    "join_th (thread s' q) = join_th (thread s q)" "vid (thread s' q) = vid (thread s q)" for q
    by (simp_all add: same_kinv_def core_of_def)
  from assms have fields: "lists s' = lists s" "wqs s' = wqs s" "running s' = running s"
    "slot s' = slot s" "free_vid_map s' = free_vid_map s" "next_vid s' = next_vid s"
    "reserved_vid0_assigned s' = reserved_vid0_assigned s" "timers s' = timers s" "timer_q s' = timer_q s" "futex_slots s' = futex_slots s"
    by (simp_all add: same_kinv_def)
  have "conf s' q = conf s q" for q
    by (simp add: conf_def on_lists_def on_wqs_def on_cores_def joins_def wait_timeout_def tcb fields)
  then show "sched_ok X s \<Longrightarrow> sched_ok X s'"
    by (rule sched_ok_same [rotated 3]) (simp_all add: fields)
  show "prio_ok s' = prio_ok s" by (simp add: prio_ok_def tcb)
  show "owners_ok s' = owners_ok s" by (simp add: owners_ok_def live_def tcb fields)
  show "vid_ok M s' = vid_ok M s" by (simp add: vid_ok_def get_thread_by_vid_def tcb fields)
  show "used s' = used s" by (simp add: used_def tcb)
  show "timers_ok s' = timers_ok s" by (simp add: timers_ok_def fields)
qed

lemma same_kinv_sym: "same_kinv s s' \<Longrightarrow> same_kinv s' s"
  by (simp add: same_kinv_def)

lemma kinv_ex_same: "same_kinv s s' \<Longrightarrow> kinv_ex X s' = kinv_ex X s"
  using same_kinv_parts [of s s'] same_kinv_parts(1) [OF same_kinv_sym, of s s']
  by (auto simp: kinv_ex_def)

lemma kinv_ex_upd_thread_same:
  "core_of (f (thread s p)) = core_of (thread s p) \<Longrightarrow> kinv_ex X (upd_thread p f s) = kinv_ex X s"
  by (rule kinv_ex_same) (simp add: same_kinv_def)

lemma kinv_ex_set_return [simp]:
  "kinv_ex X (noza_os_set_return_value1 p a s) = kinv_ex X s"
  "kinv_ex X (noza_os_set_return_value2 p a b s) = kinv_ex X s"
  "kinv_ex X (noza_os_set_return_value3 p a b c s) = kinv_ex X s"
  "kinv_ex X (noza_os_set_return_value4 p a b c d s) = kinv_ex X s"
  by (simp_all add: set_return_defs kinv_ex_upd_thread_same core_of_def)

lemma kinv_ex_write_user_message [simp]:
  "kinv_ex X (noza_ipc_write_user_message p v a n i s) = kinv_ex X s"
  by (rule kinv_ex_same) (simp add: same_kinv_def core_of_def)

lemma kinv_ex_machine [simp]:
  "kinv_ex X (s\<lparr>irq_pending_bitmap := b\<rparr>) = kinv_ex X s"
  "kinv_ex X (s\<lparr>irq_masked := m\<rparr>) = kinv_ex X s"
  "kinv_ex X (s\<lparr>irq_bindings := bs\<rparr>) = kinv_ex X s"
  "kinv_ex X (s\<lparr>next_tick_time := nt\<rparr>) = kinv_ex X s"
  "kinv_ex X (s\<lparr>systick := st\<rparr>) = kinv_ex X s"
  "kinv_ex X (s\<lparr>NOZAOS_PID := np\<rparr>) = kinv_ex X s"
  "kinv_ex X (s\<lparr>clock := c\<rparr>) = kinv_ex X s"
  "kinv_ex X (s\<lparr>cpu := k\<rparr>) = kinv_ex X s"
  "kinv_ex X (s\<lparr>umem := um\<rparr>) = kinv_ex X s"
  "kinv_ex X (s\<lparr>umsg := us\<rparr>) = kinv_ex X s"
  "kinv_ex X (upd_irq i f s) = kinv_ex X s"
  by (rule kinv_ex_same; simp add: same_kinv_def)+

end
