(* ===== verification/Kernel_Moves.thy ===== *)
theory Kernel_Moves
  imports Kernel_Inv
begin

text \<open>
  The moves of threads between places that the kernel's operations are made of, in closed form and
  with the invariant: making a blocked thread ready, blocking the running thread on a list, and the
  changes of the identifier map.
\<close>

section \<open>Closed forms\<close>

text \<open>What \<^verbatim>\<open>noza_os_add_thread\<close> does to a list other than the free list.\<close>

definition put :: "lid \<Rightarrow> pid \<Rightarrow> kstate \<Rightarrow> kstate" where
  "put l p s =
     upd_thread p (\<lambda>t. t\<lparr>th_state := state_id l\<rparr>)
       (upd_list l (if l = L_sleep then insert_expired (\<lambda>q. expired_time (thread s q)) p
                    else (\<lambda>xs. xs @ [p])) s)"

lemma state_id_sleep [simp]: "state_id l = THREAD_SLEEP \<longleftrightarrow> l = L_sleep"
  by (cases l) auto

lemma state_id_free [simp]: "state_id l = THREAD_FREE \<longleftrightarrow> l = L_free"
  by (cases l) auto

lemma state_id_zombie [simp]: "state_id l = THREAD_ZOMBIE \<longleftrightarrow> l = L_zombie"
  by (cases l) auto

lemma add_thread_put:
  "lid_ok l \<Longrightarrow> p \<notin> set (lists s l) \<Longrightarrow> l \<noteq> L_free \<Longrightarrow> noza_os_add_thread l p s = Inr (put l p s)"
  by (simp add: noza_os_add_thread_def put_def Let_def)

lemma add_thread_free:
  "p \<notin> set (lists s L_free) \<Longrightarrow>
     noza_os_add_thread L_free p s = Inr (noza_os_remove_vid p (put L_free p s))"
  by (simp add: noza_os_add_thread_def put_def Let_def)

lemma remove_thread_eq:
  "lid_ok l \<Longrightarrow> th_state (thread s p) = state_id l \<Longrightarrow> p \<in> set (lists s l) \<Longrightarrow>
     noza_os_remove_thread l p s = Inr (upd_list l (remove1 p) s)"
  by (simp add: noza_os_remove_thread_def)

lemma put_sel [simp]:
  "running (put l p s) = running s"
  "thread (put l p s) = (thread s)(p := (thread s p)\<lparr>th_state := state_id l\<rparr>)"
  "wqs (put l p s) = wqs s"
  "slot (put l p s) = slot s"
  "free_vid_map (put l p s) = free_vid_map s"
  "next_vid (put l p s) = next_vid s"
  "reserved_vid0_assigned (put l p s) = reserved_vid0_assigned s"
  "futex_slots (put l p s) = futex_slots s"
  "timers (put l p s) = timers s"
  "timer_q (put l p s) = timer_q s"
  "cpu (put l p s) = cpu s"
  "clock (put l p s) = clock s"
  "umsg (put l p s) = umsg s"
  "umem (put l p s) = umem s"
  by (simp_all add: put_def)

lemma lists_put: "lists (put l p s) m
    = (if m \<noteq> l then lists s m
       else if l = L_sleep then insert_expired (\<lambda>q. expired_time (thread s q)) p (lists s l)
       else lists s l @ [p])"
  by (simp add: put_def)

lemma set_lists_put [simp]: "set (lists (put l p s) m) = (if m = l then insert p (set (lists s m)) else set (lists s m))"
  by (auto simp: lists_put)

lemma lists_put_other [simp]: "m \<noteq> l \<Longrightarrow> lists (put l p s) m = lists s m"
  by (simp add: lists_put)

lemma distinct_put: "\<lbrakk>distinct (lists s m); p \<notin> set (lists s l)\<rbrakk> \<Longrightarrow> distinct (lists (put l p s) m)"
  by (auto simp: lists_put distinct_insert_expired)

lemma put_places [simp]:
  "on_lists (put l p s) q = (if q = p then insert l (on_lists s q) else on_lists s q)"
  "on_wqs (put l p s) = on_wqs s"
  "on_cores (put l p s) = on_cores s"
  "joins (put l p s) = joins s"
  by (auto simp: put_def)

text \<open>The lists a thread may be put on without further ado, with the conditions the invariant asks
  for.\<close>

fun park_list :: "kstate \<Rightarrow> pid \<Rightarrow> lid \<Rightarrow> bool" where
  "park_list s p (L_ready i) = (i = priority (thread s p))"
| "park_list s p L_wait = True"
| "park_list s p L_sleep = True"
| "park_list s p L_stopped = True"
| "park_list s p (L_pending ow) = (ow < NOZA_OS_TASK_LIMIT \<and> live (thread s ow))"
| "park_list s p (L_reply ow) = (ow < NOZA_OS_TASK_LIMIT \<and> live (thread s ow))"
| "park_list s p _ = False"

text \<open>The lists of blocked threads, and those together with the ready lists.\<close>

fun blocked_list :: "lid \<Rightarrow> bool" where
  "blocked_list L_wait = True"
| "blocked_list L_sleep = True"
| "blocked_list L_stopped = True"
| "blocked_list (L_pending ow) = True"
| "blocked_list (L_reply ow) = True"
| "blocked_list _ = False"

definition movable_list :: "lid \<Rightarrow> bool" where
  "movable_list l \<longleftrightarrow> blocked_list l \<or> (\<exists>i. l = L_ready i)"

lemma blocked_list_simps [simp]:
  "blocked_list l \<Longrightarrow> lid_ok l"
  "blocked_list l \<Longrightarrow> l \<noteq> L_ready i"
  "blocked_list l \<Longrightarrow> l \<noteq> L_free"
  "blocked_list l \<Longrightarrow> l \<noteq> L_sync_sleep"
  "blocked_list l \<Longrightarrow> l \<noteq> L_zombie"
  "blocked_list l \<Longrightarrow> L_ready i \<noteq> l"
  "blocked_list l \<Longrightarrow> L_free \<noteq> l"
  "blocked_list l \<Longrightarrow> L_sync_sleep \<noteq> l"
  "blocked_list l \<Longrightarrow> L_zombie \<noteq> l"
  by (cases l; simp)+

lemma movable_list_simps [simp]:
  "blocked_list l \<Longrightarrow> movable_list l"
  "movable_list (L_ready i)"
  "movable_list l \<Longrightarrow> l \<noteq> L_free"
  "movable_list l \<Longrightarrow> l \<noteq> L_sync_sleep"
  "movable_list l \<Longrightarrow> l \<noteq> L_zombie"
  by (auto simp: movable_list_def)

lemma park_list_simps [simp]:
  "park_list s p l \<Longrightarrow> l \<noteq> L_free"
  "park_list s p l \<Longrightarrow> l \<noteq> L_sync_sleep"
  "park_list s p l \<Longrightarrow> l \<noteq> L_zombie"
  by (cases l; simp)+

text \<open>Moving a thread from the list \<open>l\<close> to the list \<open>m\<close>, and making a thread of the list \<open>l\<close> ready.\<close>

definition move :: "lid \<Rightarrow> lid \<Rightarrow> pid \<Rightarrow> kstate \<Rightarrow> kstate" where
  "move l m p s = put m p (upd_list l (remove1 p) s)"

definition wake :: "lid \<Rightarrow> pid \<Rightarrow> kstate \<Rightarrow> kstate" where
  "wake l p s = move l (L_ready (priority (thread s p))) p s"

lemma in_lists_on: "p \<in> set (lists s m) \<longleftrightarrow> m \<in> on_lists s p"
  by (simp add: on_lists_def)

lemma in_wqs_on: "p \<in> set (wqs s w) \<longleftrightarrow> w \<in> on_wqs s p"
  by (simp add: on_wqs_def)

lemma kinv_exD:
  assumes "kinv_ex X s"
  shows "sched_ok X s" "prio_ok s" "owners_ok s" "vid_ok (used s) s" "timers_ok s"
  using assms by (simp_all add: kinv_ex_def)

lemma kinv_thread: "kinv_ex X s \<Longrightarrow> p < NOZA_OS_TASK_LIMIT \<Longrightarrow> p \<notin> X \<Longrightarrow> thread_ok s p"
  by (rule sched_ok_thread [OF kinv_exD(1)])

lemma kinv_prio: "kinv_ex X s \<Longrightarrow> p < NOZA_OS_TASK_LIMIT \<Longrightarrow> priority (thread s p) < NOZA_OS_PRIORITY_LIMIT"
  by (simp add: kinv_ex_def prio_ok_def)

lemma park_thread_ok:
  assumes "park_list s' p l" and "th_state (thread s p) = state_id l"
    and "on_lists s p = {l}" and "on_wqs s p = {}" and "on_cores s p = {}" and "joins s p = {}"
    and "waiting_queue (thread s p) = None" and "priority (thread s' p) = priority (thread s p)"
  shows "thread_ok s p"
  using assms by (cases l) (auto simp: thread_ok_def parked_def)

lemma park_lid_ok: "kinv_ex X s \<Longrightarrow> p < NOZA_OS_TASK_LIMIT \<Longrightarrow> park_list s p l \<Longrightarrow> lid_ok l"
  using kinv_prio [of X s p] by (cases l) auto

lemma kinv_in_list:
  assumes inv: "kinv_ex X s" and p: "p \<in> set (lists s l)" "p \<notin> X"
  shows "p < NOZA_OS_TASK_LIMIT" and "on_lists s p = {l}" and "th_state (thread s p) = state_id l"
    and "m \<noteq> l \<Longrightarrow> p \<notin> set (lists s m)"
    and "l \<noteq> L_sync_sleep \<Longrightarrow> parked s p {l}" and "lid_ok l"
    and "l = L_ready i \<Longrightarrow> i = priority (thread s p)"
proof -
  note lt = sched_ok_in_list [OF kinv_exD(1) [OF inv] p(1)]
  note th = thread_ok_in_list [OF kinv_thread [OF inv lt p(2)] p(1)]
  from lt th show "p < NOZA_OS_TASK_LIMIT" and "on_lists s p = {l}"
    and "th_state (thread s p) = state_id l" and "m \<noteq> l \<Longrightarrow> p \<notin> set (lists s m)"
    and "l \<noteq> L_sync_sleep \<Longrightarrow> parked s p {l}" and "l = L_ready i \<Longrightarrow> i = priority (thread s p)"
    by (auto simp: in_lists_on)
  show "lid_ok l" using th(3) kinv_prio [OF inv lt] by (cases l) auto
qed

lemma move_eq:
  assumes inv: "kinv_ex X s" and p: "p \<in> set (lists s l)" "p \<notin> X"
    and m: "park_list s p m" "m \<noteq> l"
  shows "noza_os_change_state p l m s = Inr (move l m p s)"
proof -
  note th = kinv_in_list [OF inv p]
  show ?thesis
    using p m th(3) th(4) [OF m(2)] th(6) park_lid_ok [OF inv th(1) m(1)]
    by (simp add: noza_os_change_state_def remove_thread_eq add_thread_put move_def)
qed

lemma sched_ok_move:
  assumes inv: "kinv_ex X s" and p: "p \<in> set (lists s l)" "p \<notin> X" and l: "movable_list l"
    and m: "park_list s p m" "m \<noteq> l"
  shows "sched_ok X (move l m p s)"
proof -
  note th = kinv_in_list [OF inv p]
  note d = sched_ok_distinct [OF kinv_exD(1) [OF inv]]
  show ?thesis
  proof (rule sched_okI [where P = "{p}", OF kinv_exD(1) [OF inv]])
    show "distinct (lists (move l m p s) n)" for n
      unfolding move_def using d th(4) [OF m(2)] m(2) by (intro distinct_put) auto
    show "conf (move l m p s) q = conf s q" if "q \<notin> {p}" for q
      using that d by (simp add: conf_def move_def)
    have "thread_ok (move l m p s) p"
      by (rule park_thread_ok [OF m(1)]) (use th(2,5) l d in \<open>simp_all add: move_def parked_def\<close>)
    then show "q < NOZA_OS_TASK_LIMIT \<and> (q \<in> X \<or> thread_ok (move l m p s) q)" if "q \<in> {p}" for q
      using that th(1) by simp
  qed (simp_all add: move_def d)
qed

text \<open>The parts of the invariant other than places, for a step that moves threads between lists and
  changes their states: it must not lose the life of a thread others wait for, nor make or lose a
  free thread, and must keep what the remaining parts read.\<close>

lemma owners_okI:
  assumes "owners_ok s"
    and "\<And>ow. set (lists s' (L_pending ow)) \<subseteq> set (lists s (L_pending ow)) \<union> (if ow \<in> Ow then UNIV else {})"
    and "\<And>ow. set (lists s' (L_reply ow)) \<subseteq> set (lists s (L_reply ow)) \<union> (if ow \<in> Ow then UNIV else {})"
    and "\<And>ow. ow \<in> Ow \<Longrightarrow> ow < NOZA_OS_TASK_LIMIT \<and> live (thread s ow)"
    and "\<And>q. live (thread s q) \<Longrightarrow> live (thread s' q)"
    and "\<And>q. join_th (thread s' q) \<noteq> None \<Longrightarrow> join_th (thread s q) \<noteq> None \<or> live (thread s' q)"
  shows "owners_ok s'"
proof -
  have "ow < NOZA_OS_TASK_LIMIT \<and> live (thread s' ow)"
    if "lists s' (L_pending ow) \<noteq> [] \<or> lists s' (L_reply ow) \<noteq> []" for ow
  proof (cases "ow \<in> Ow")
    case True
    then show ?thesis using assms(4,5) by simp
  next
    case False
    with that assms(2,3) [of ow] have "lists s (L_pending ow) \<noteq> [] \<or> lists s (L_reply ow) \<noteq> []"
      by auto
    then show ?thesis using assms(1,5) by (simp add: owners_ok_def)
  qed
  moreover have "live (thread s' t)" if "t < NOZA_OS_TASK_LIMIT" "join_th (thread s' t) \<noteq> None" for t
    using that assms(1,5) assms(6) [of t] by (auto simp: owners_ok_def)
  ultimately show ?thesis by (simp add: owners_ok_def)
qed

lemma vid_ok_same:
  assumes "vid_ok (used s) s" and "slot s' = slot s" and "free_vid_map s' = free_vid_map s"
    and "next_vid s' = next_vid s" and "reserved_vid0_assigned s' = reserved_vid0_assigned s"
    and "\<And>q. vid (thread s' q) = vid (thread s q)"
    and "\<And>q. q < NOZA_OS_TASK_LIMIT \<Longrightarrow>
       th_state (thread s' q) = THREAD_FREE \<longleftrightarrow> th_state (thread s q) = THREAD_FREE"
  shows "vid_ok (used s') s'"
proof -
  have "used s' = used s" using assms(7) by (auto simp: used_def)
  with assms(1-6) show ?thesis by (simp add: vid_ok_def get_thread_by_vid_def)
qed

lemma timers_ok_same:
  "\<lbrakk>timers_ok s; timers s' = timers s; timer_q s' = timer_q s; futex_slots s' = futex_slots s;
    \<And>w. wqs s w = [] \<Longrightarrow> wqs s' w = []\<rbrakk> \<Longrightarrow> timers_ok s'"
  by (simp add: timers_ok_def)

lemma prio_ok_same: "\<lbrakk>prio_ok s; \<And>q. priority (thread s' q) = priority (thread s q)\<rbrakk> \<Longrightarrow> prio_ok s'"
  by (simp add: prio_ok_def)

theorem kinv_move:
  assumes inv: "kinv_ex X s" and p: "p \<in> set (lists s l)" "p \<notin> X" and l: "movable_list l"
    and m: "park_list s p m" "m \<noteq> l"
  shows "kinv_ex X (move l m p s)"
proof -
  note d = sched_ok_distinct [OF kinv_exD(1) [OF inv]]
  note th = kinv_in_list [OF inv p]
  have "owners_ok (move l m p s)"
    by (rule owners_okI [where Ow = "{ow. m = L_pending ow \<or> m = L_reply ow}", OF kinv_exD(3) [OF inv]])
       (use m in \<open>auto simp: move_def live_def d\<close>)
  moreover have "vid_ok (used (move l m p s)) (move l m p s)"
    by (rule vid_ok_same [OF kinv_exD(4) [OF inv]]) (use th(3) l m in \<open>auto simp: move_def\<close>)
  moreover have "timers_ok (move l m p s)"
    by (rule timers_ok_same [OF kinv_exD(5) [OF inv]]) (simp_all add: move_def)
  moreover have "prio_ok (move l m p s)"
    by (rule prio_ok_same [OF kinv_exD(2) [OF inv]]) (simp add: move_def)
  ultimately show ?thesis
    using sched_ok_move [OF inv p l m] by (simp add: kinv_ex_def)
qed

lemma wake_eq:
  assumes "kinv_ex X s" and "p \<in> set (lists s l)" "p \<notin> X" and "blocked_list l"
  shows "noza_os_change_state p l (L_ready (priority (thread s p))) s = Inr (wake l p s)"
  unfolding wake_def using assms by (intro move_eq) simp_all

theorem kinv_wake:
  assumes "kinv_ex X s" and "p \<in> set (lists s l)" "p \<notin> X" and "blocked_list l"
  shows "kinv_ex X (wake l p s)"
  unfolding wake_def using assms by (intro kinv_move) simp_all

section \<open>Blocking the running thread\<close>

lemma kinv_running:
  assumes "kinv_ex X s" and "running s c = Some p" and "p \<notin> X"
  shows "p < NOZA_OS_TASK_LIMIT" and "thread_ok s p"
proof -
  from assms(2) have "c \<in> on_cores s p" by (simp add: on_cores_def)
  with kinv_exD(1) [OF assms(1)] show "p < NOZA_OS_TASK_LIMIT"
    by (cases "p < NOZA_OS_TASK_LIMIT") (auto simp: sched_ok_def)
  with assms show "thread_ok s p" by (intro kinv_thread)
qed

lemma add_running:
  assumes inv: "kinv_ex X s" and r: "running s c = Some p" "p \<notin> X" and l: "park_list s p l"
  shows "noza_os_add_thread l p s = Inr (put l p s)"
proof -
  note lt = kinv_running(1) [OF inv r] and th = thread_ok_running [OF kinv_running(2) [OF inv r] r(1)]
  from th(2) l park_lid_ok [OF inv lt l] show ?thesis by (simp add: add_thread_put not_on_lists)
qed

lemma kinv_put_running:
  assumes inv: "kinv_ex X s" and r: "running s c = Some p" "p \<notin> X" and l: "park_list s p l"
  shows "kinv_ex (insert p X) (put l p s)"
proof -
  note lt = kinv_running(1) [OF inv r] and th = thread_ok_running [OF kinv_running(2) [OF inv r] r(1)]
  note d = sched_ok_distinct [OF kinv_exD(1) [OF inv]]
  have "sched_ok (insert p X) (put l p s)"
  proof (rule sched_okI [where P = "{p}", OF kinv_exD(1) [OF inv]])
    show "distinct (lists (put l p s) m)" for m
      using d th(2) by (intro distinct_put not_on_lists) auto
    show "conf (put l p s) q = conf s q" if "q \<notin> {p}" for q
      using that by (simp add: conf_def)
  qed (use d lt in auto)
  moreover have "owners_ok (put l p s)"
    by (rule owners_okI [where Ow = "{ow. l = L_pending ow \<or> l = L_reply ow}", OF kinv_exD(3) [OF inv]])
       (use l in \<open>auto simp: live_def\<close>)
  moreover have "vid_ok (used (put l p s)) (put l p s)"
    by (rule vid_ok_same [OF kinv_exD(4) [OF inv]]) (use th(1) l in \<open>auto\<close>)
  moreover have "timers_ok (put l p s)"
    by (rule timers_ok_same [OF kinv_exD(5) [OF inv]]) simp_all
  moreover have "prio_ok (put l p s)"
    by (rule prio_ok_same [OF kinv_exD(2) [OF inv]]) simp
  ultimately show ?thesis by (simp add: kinv_ex_def)
qed

lemma same_parts_clear_running [simp]:
  "prio_ok (noza_os_clear_running_thread s) = prio_ok s"
  "owners_ok (noza_os_clear_running_thread s) = owners_ok s"
  "vid_ok M (noza_os_clear_running_thread s) = vid_ok M s"
  "used (noza_os_clear_running_thread s) = used s"
  "timers_ok (noza_os_clear_running_thread s) = timers_ok s"
  by (simp_all add: prio_ok_def owners_ok_def vid_ok_def used_def timers_ok_def get_thread_by_vid_def)

text \<open>Once the core is cleared, a parked running thread is in its place.\<close>

lemma kinv_clear_running:
  assumes inv: "kinv_ex (insert p X) s" and p: "p < NOZA_OS_TASK_LIMIT"
    and r: "running s (cpu s) = Some p" and th: "thread_ok (noza_os_clear_running_thread s) p"
  shows "kinv_ex (X - {p}) (noza_os_clear_running_thread s)"
proof -
  note d = sched_ok_distinct [OF kinv_exD(1) [OF inv]]
  have "sched_ok (X - {p}) (noza_os_clear_running_thread s)"
    by (rule sched_okI [where P = "{p}", OF kinv_exD(1) [OF inv]])
       (use d p r th in \<open>auto simp: conf_def\<close>)
  with inv show ?thesis by (simp add: kinv_ex_def)
qed

theorem kinv_block:
  assumes inv: "kinv_ex X s" and r: "running s (cpu s) = Some p" "p \<notin> X" and l: "park_list s p l"
  shows "kinv_ex X (noza_os_clear_running_thread (put l p s))"
proof -
  note lt = kinv_running(1) [OF inv r] and th = thread_ok_running [OF kinv_running(2) [OF inv r] r(1)]
  have "thread_ok (noza_os_clear_running_thread (put l p s)) p"
    by (rule park_thread_ok [OF l]) (use th r(1) in simp_all)
  with kinv_clear_running [OF kinv_put_running [OF inv r l]] lt r show ?thesis by simp
qed

section \<open>Selectors\<close>

lemmas kinv_ex_irrelevant = kinv_ex_upd_thread_same core_of_def noza_ipc_snapshot_identity_def

lemma thread_ok_waiting_msg:
  "thread_ok s p \<Longrightarrow> th_state (thread s p) = THREAD_WAITING_MSG \<Longrightarrow> p \<in> set (lists s L_wait)"
  by (simp add: thread_ok_def parked_def in_lists_on)

lemma move_sel [simp]:
  "running (move l m p s) = running s"
  "cpu (move l m p s) = cpu s"
  "clock (move l m p s) = clock s"
  "wqs (move l m p s) = wqs s"
  "timers (move l m p s) = timers s"
  "umsg (move l m p s) = umsg s"
  "thread (move l m p s) = (thread s)(p := (thread s p)\<lparr>th_state := state_id m\<rparr>)"
  "on_wqs (move l m p s) = on_wqs s"
  "on_cores (move l m p s) = on_cores s"
  "joins (move l m p s) = joins s"
  by (simp_all add: move_def)

lemma wake_sel [simp]:
  "running (wake l p s) = running s"
  "cpu (wake l p s) = cpu s"
  "clock (wake l p s) = clock s"
  "wqs (wake l p s) = wqs s"
  "timers (wake l p s) = timers s"
  "umsg (wake l p s) = umsg s"
  "thread (wake l p s) = (thread s)(p := (thread s p)\<lparr>th_state := THREAD_READY\<rparr>)"
  "on_wqs (wake l p s) = on_wqs s"
  "on_cores (wake l p s) = on_cores s"
  "joins (wake l p s) = joins s"
  by (simp_all add: wake_def move_def)

lemma on_lists_wake [simp]:
  "distinct (lists s l) \<Longrightarrow> on_lists (wake l p s) q =
     (if q = p then insert (L_ready (priority (thread s p))) (on_lists s p - {l}) else on_lists s q)"
  by (auto simp: wake_def move_def)

lemma lists_wake [simp]:
  "blocked_list l \<Longrightarrow> lists (wake l p s) m =
     (if m = L_ready (priority (thread s p)) then lists s m @ [p]
      else if m = l then remove1 p (lists s m) else lists s m)"
  by (auto simp: wake_def move_def lists_put)

lemma places_set_return [simp]:
  "on_lists (noza_os_set_return_value1 p a s) = on_lists s"
  "on_lists (noza_os_set_return_value2 p a b s) = on_lists s"
  "on_lists (noza_os_set_return_value3 p a b c s) = on_lists s"
  "on_lists (noza_os_set_return_value4 p a b c d s) = on_lists s"
  "on_wqs (noza_os_set_return_value1 p a s) = on_wqs s"
  "on_wqs (noza_os_set_return_value2 p a b s) = on_wqs s"
  "on_wqs (noza_os_set_return_value3 p a b c s) = on_wqs s"
  "on_wqs (noza_os_set_return_value4 p a b c d s) = on_wqs s"
  "on_cores (noza_os_set_return_value1 p a s) = on_cores s"
  "on_cores (noza_os_set_return_value2 p a b s) = on_cores s"
  "on_cores (noza_os_set_return_value3 p a b c s) = on_cores s"
  "on_cores (noza_os_set_return_value4 p a b c d s) = on_cores s"
  "joins (noza_os_set_return_value1 p a s) = joins s"
  "joins (noza_os_set_return_value2 p a b s) = joins s"
  "joins (noza_os_set_return_value3 p a b c s) = joins s"
  "joins (noza_os_set_return_value4 p a b c d s) = joins s"
  by (simp_all add: set_return_defs)

lemma places_write_user_message [simp]:
  "on_lists (noza_ipc_write_user_message p v a n i s) = on_lists s"
  "on_wqs (noza_ipc_write_user_message p v a n i s) = on_wqs s"
  "on_cores (noza_ipc_write_user_message p v a n i s) = on_cores s"
  "joins (noza_ipc_write_user_message p v a n i s) = joins s"
  by (simp_all add: on_lists_def on_wqs_def on_cores_def joins_def fun_eq_iff)

section \<open>Threads in transit\<close>

text \<open>Whatever is done to the places of a thread keeps the invariant of the others.\<close>

lemma kinv_transitI:
  assumes inv: "kinv_ex X s" and p: "p < NOZA_OS_TASK_LIMIT"
    and d: "\<And>l. distinct (lists s' l)" "\<And>w. distinct (wqs s' w)"
    and conf: "\<And>q. q \<noteq> p \<Longrightarrow> conf s' q = conf s q"
    and rest: "prio_ok s'" "owners_ok s'" "vid_ok (used s') s'" "timers_ok s'"
  shows "kinv_ex (insert p X) s'"
proof -
  have "sched_ok (insert p X) s'"
    by (rule sched_okI [where P = "{p}", OF kinv_exD(1) [OF inv]]) (use p d conf in auto)
  with rest show ?thesis by (simp add: kinv_ex_def)
qed

lemma kinv_transit_list:
  assumes inv: "kinv_ex X s" and p: "p < NOZA_OS_TASK_LIMIT"
  shows "kinv_ex (insert p X) (upd_list l (remove1 p) s)"
proof (rule kinv_transitI [OF inv p])
  note d = sched_ok_distinct [OF kinv_exD(1) [OF inv]]
  show "distinct (lists (upd_list l (remove1 p) s) m)" for m using d by simp
  show "conf (upd_list l (remove1 p) s) q = conf s q" if "q \<noteq> p" for q
    using that d by (simp add: conf_def)
  show "owners_ok (upd_list l (remove1 p) s)"
    by (rule owners_okI [where Ow = "{}", OF kinv_exD(3) [OF inv]])
       (auto dest: subsetD [OF set_remove1_subset])
qed (use sched_ok_distinct [OF kinv_exD(1) [OF inv]] kinv_exD [OF inv] in
      \<open>auto intro: vid_ok_same timers_ok_same prio_ok_same\<close>)

lemma kinv_transit_wq:
  assumes inv: "kinv_ex X s" and p: "p < NOZA_OS_TASK_LIMIT"
  shows "kinv_ex (insert p X) (upd_wq w (remove1 p) s)"
proof (rule kinv_transitI [OF inv p])
  note d = sched_ok_distinct [OF kinv_exD(1) [OF inv]]
  show "distinct (wqs (upd_wq w (remove1 p) s) v)" for v using d by simp
  show "conf (upd_wq w (remove1 p) s) q = conf s q" if "q \<noteq> p" for q
    using that d by (simp add: conf_def)
  show "owners_ok (upd_wq w (remove1 p) s)"
    by (rule owners_okI [where Ow = "{}", OF kinv_exD(3) [OF inv]]) auto
  show "timers_ok (upd_wq w (remove1 p) s)"
    using kinv_exD(5) [OF inv] by (auto simp: timers_ok_def)
qed (use sched_ok_distinct [OF kinv_exD(1) [OF inv]] kinv_exD [OF inv] in
      \<open>auto intro: vid_ok_same prio_ok_same\<close>)

lemma kinv_transit_thread:
  assumes inv: "kinv_ex X s" and p: "p < NOZA_OS_TASK_LIMIT"
    and f: "th_state (f (thread s p)) = th_state (thread s p)" "priority (f (thread s p)) = priority (thread s p)"
      "join_th (f (thread s p)) = join_th (thread s p)" "vid (f (thread s p)) = vid (thread s p)"
  shows "kinv_ex (insert p X) (upd_thread p f s)"
proof (rule kinv_transitI [OF inv p])
  show "conf (upd_thread p f s) q = conf s q" if "q \<noteq> p" for q
    using that f by (simp add: conf_def)
  show "owners_ok (upd_thread p f s)"
    by (rule owners_okI [where Ow = "{}", OF kinv_exD(3) [OF inv]]) (use f in \<open>auto simp: live_def\<close>)
  show "vid_ok (used (upd_thread p f s)) (upd_thread p f s)"
    by (rule vid_ok_same [OF kinv_exD(4) [OF inv]]) (use f in auto)
  show "prio_ok (upd_thread p f s)"
    by (rule prio_ok_same [OF kinv_exD(2) [OF inv]]) (use f in auto)
qed (use sched_ok_distinct [OF kinv_exD(1) [OF inv]] kinv_exD [OF inv] in
      \<open>auto intro: timers_ok_same\<close>)

lemma kinv_transit_state:
  assumes inv: "kinv_ex X s" and p: "p < NOZA_OS_TASK_LIMIT" and st: "live (thread s p)"
    and f: "live (f (thread s p))" "priority (f (thread s p)) = priority (thread s p)"
      "join_th (f (thread s p)) = join_th (thread s p)" "vid (f (thread s p)) = vid (thread s p)"
  shows "kinv_ex (insert p X) (upd_thread p f s)"
proof (rule kinv_transitI [OF inv p])
  show "conf (upd_thread p f s) q = conf s q" if "q \<noteq> p" for q
    using that f by (simp add: conf_def)
  show "owners_ok (upd_thread p f s)"
    by (rule owners_okI [where Ow = "{}", OF kinv_exD(3) [OF inv]]) (use f in auto)
  show "vid_ok (used (upd_thread p f s)) (upd_thread p f s)"
    by (rule vid_ok_same [OF kinv_exD(4) [OF inv]]) (use f st in \<open>auto simp: live_def\<close>)
  show "prio_ok (upd_thread p f s)"
    by (rule prio_ok_same [OF kinv_exD(2) [OF inv]]) (use f in auto)
qed (use sched_ok_distinct [OF kinv_exD(1) [OF inv]] kinv_exD [OF inv] in
      \<open>auto intro: timers_ok_same\<close>)

text \<open>Only a queue that is in use may get a waiter.\<close>

fun wq_in_use :: "wqid \<Rightarrow> kstate \<Rightarrow> bool" where
  "wq_in_use (W_futex i) s = fx_in_use (futex_slots s i)"
| "wq_in_use (W_timer i) s = tm_in_use (timers s i)"

lemma kinv_transit_wq_add:
  assumes inv: "kinv_ex X s" and p: "p < NOZA_OS_TASK_LIMIT" "p \<notin> set (wqs s w)" and w: "wq_in_use w s"
  shows "kinv_ex (insert p X) (upd_wq w (\<lambda>xs. xs @ [p]) s)"
proof (rule kinv_transitI [OF inv p(1)])
  note d = sched_ok_distinct [OF kinv_exD(1) [OF inv]]
  show "distinct (wqs (upd_wq w (\<lambda>xs. xs @ [p]) s) v)" for v using d p(2) by simp
  show "conf (upd_wq w (\<lambda>xs. xs @ [p]) s) q = conf s q" if "q \<noteq> p" for q
    using that by (simp add: conf_def)
  show "owners_ok (upd_wq w (\<lambda>xs. xs @ [p]) s)"
    by (rule owners_okI [where Ow = "{}", OF kinv_exD(3) [OF inv]]) auto
  show "timers_ok (upd_wq w (\<lambda>xs. xs @ [p]) s)"
    using kinv_exD(5) [OF inv] w by (cases w) (auto simp: timers_ok_def)
qed (use sched_ok_distinct [OF kinv_exD(1) [OF inv]] kinv_exD [OF inv] in
      \<open>auto intro: vid_ok_same prio_ok_same\<close>)

lemma kinv_transit_sync_sleep:
  assumes inv: "kinv_ex X s" and p: "p < NOZA_OS_TASK_LIMIT" "p \<notin> set (lists s L_sync_sleep)"
    and st: "live (thread s p)"
  shows "kinv_ex (insert p X) (put L_sync_sleep p s)"
proof (rule kinv_transitI [OF inv p(1)])
  note d = sched_ok_distinct [OF kinv_exD(1) [OF inv]]
  show "distinct (lists (put L_sync_sleep p s) l)" for l using d p(2) by (intro distinct_put) auto
  show "conf (put L_sync_sleep p s) q = conf s q" if "q \<noteq> p" for q
    using that by (simp add: conf_def)
  show "owners_ok (put L_sync_sleep p s)"
    by (rule owners_okI [where Ow = "{}", OF kinv_exD(3) [OF inv]]) (auto simp: live_def)
  show "vid_ok (used (put L_sync_sleep p s)) (put L_sync_sleep p s)"
    by (rule vid_ok_same [OF kinv_exD(4) [OF inv]]) (use st in \<open>auto simp: live_def\<close>)
qed (use sched_ok_distinct [OF kinv_exD(1) [OF inv]] kinv_exD [OF inv] in
      \<open>auto intro: timers_ok_same prio_ok_same\<close>)

text \<open>A thread that is nowhere can be put on a list.\<close>

definition loose :: "kstate \<Rightarrow> pid \<Rightarrow> bool" where
  "loose s p \<longleftrightarrow> parked s p {}"

lemma loose_not_in: "loose s p \<Longrightarrow> p \<notin> set (lists s l)"
  by (simp add: loose_def parked_def not_on_lists)

lemma add_loose:
  assumes "kinv_ex X s" and "p < NOZA_OS_TASK_LIMIT" and "loose s p" and "park_list s p l"
  shows "noza_os_add_thread l p s = Inr (put l p s)"
  using assms by (simp add: add_thread_put loose_not_in park_lid_ok)

theorem kinv_place:
  assumes inv: "kinv_ex (insert p X) s" and p: "p < NOZA_OS_TASK_LIMIT" and lo: "loose s p"
    and l: "park_list s p l" and nf: "th_state (thread s p) \<noteq> THREAD_FREE"
  shows "kinv_ex (X - {p}) (put l p s)"
proof -
  note d = sched_ok_distinct [OF kinv_exD(1) [OF inv]]
  have "thread_ok (put l p s) p"
    by (rule park_thread_ok [OF l]) (use lo in \<open>simp_all add: loose_def parked_def\<close>)
  then have "sched_ok (X - {p}) (put l p s)"
  proof (intro sched_okI [where P = "{p}" and X' = "X - {p}", OF kinv_exD(1) [OF inv]])
    show "distinct (lists (put l p s) m)" for m
      using d lo by (intro distinct_put loose_not_in) auto
  qed (use d p in \<open>auto simp: conf_def\<close>)
  moreover have "owners_ok (put l p s)"
    by (rule owners_okI [where Ow = "{ow. l = L_pending ow \<or> l = L_reply ow}", OF kinv_exD(3) [OF inv]])
       (use l in \<open>auto simp: live_def\<close>)
  moreover have "vid_ok (used (put l p s)) (put l p s)"
    by (rule vid_ok_same [OF kinv_exD(4) [OF inv]]) (use nf l in auto)
  moreover have "timers_ok (put l p s)"
    by (rule timers_ok_same [OF kinv_exD(5) [OF inv]]) simp_all
  moreover have "prio_ok (put l p s)"
    by (rule prio_ok_same [OF kinv_exD(2) [OF inv]]) simp
  ultimately show ?thesis by (simp add: kinv_ex_def)
qed

end
