(* ===== verification/Demo.thy ===== *)
theory Demo
  imports Kernel_Inv
begin

text \<open>
  A concrete state of the kernel in which every thread state occurs, and its invariant. Fourteen threads
  are in use, thread \<open>p\<close> with the identifier \<open>p + 1\<close>: 0 and 12 run on the two cores, 1 is ready, 2 waits for
  a message, 3 and 13 wait for a reply of thread 0 and 4 to be received by it, 5 and 6 sleep, 7 and 8 wait on
  the futex at address \<^verbatim>\<open>0x20000100\<close>, 8 with a time-out, 9 is a zombie, 10 waits for the end of 2, and 11 is
  stopped. Of the timers 0 is armed and periodic, 1 is in use and idle.
\<close>

definition demo_states :: "thread_state list" where
  "demo_states = [THREAD_RUNNING, THREAD_READY, THREAD_WAITING_MSG, THREAD_WAITING_REPLY, THREAD_WAITING_READ,
     THREAD_SLEEP, THREAD_SLEEP, THREAD_WAITING_SYNC, THREAD_WAITING_SYNC, THREAD_ZOMBIE, THREAD_PENDING_JOIN,
     THREAD_STOPPED, THREAD_RUNNING, THREAD_WAITING_REPLY]"

definition demo_thread :: "pid \<Rightarrow> thread_t" where
  "demo_thread p =
     \<lparr>frame = \<lparr>is_r0 = 0, is_r1 = 0, is_r2 = 0, is_r3 = 0, is_r12 = 0, is_lr = 0, is_pc = 0, is_xpsr = 0\<rparr>,
      priority = (if p = 2 \<or> p = 5 then 1 else 2),
      th_state = (if p < 14 then demo_states ! p else THREAD_FREE),
      port_st = (if p = 2 then PORT_READY else PORT_WAIT_LISTEN),
      expired_time = (if p = 5 then 500 else if p = 6 then 2000 else if p = 8 then 900 else 0),
      exit_code = (if p = 9 then 7 else 0), vid = (if p < 14 then of_nat p + 1 else 0),
      trap = \<lparr>r0 = 0, r1 = 0, r2 = 0, r3 = 0, trap_state = SYSCALL_DONE\<rparr>,
      message = (if p = 4 then \<lparr>om_pid = 1, om_size = 12, om_ptr = 0x20004000, om_identity = k_default_identity\<rparr>
                 else \<lparr>om_pid = 0, om_size = 0, om_ptr = 0, om_identity = k_default_identity\<rparr>),
      pending_recv_msg = (if p = 2 then Some 0x20002000 else None),
      identity = \<lparr>uid = of_nat p, gid = 0, umask = 18\<rparr>, join_th = (if p = 2 then Some 10 else None),
      waiting_queue = (if p = 7 \<or> p = 8 then Some (W_futex 1) else None),
      signal_pending = 0, signal_mask = 0, flags = (if p = 8 then FLAG_WAIT_TIMEOUT else 0), callid = 255\<rparr>"

definition demo_lists :: "lid \<Rightarrow> pid list" where
  "demo_lists = (\<lambda>_. [])(L_ready 2 := [1], L_wait := [2], L_reply 0 := [13, 3], L_pending 0 := [4],
     L_sleep := [5, 6], L_sync_sleep := [8], L_zombie := [9], L_stopped := [11], L_free := [14..<32])"

definition demo_timer :: "nat \<Rightarrow> noza_timer_t" where
  "demo_timer i = \<lparr>tm_id = of_nat i + 1, owner_vid = 1, deadline = (if i = 0 then 800 else 0),
     period_us = (if i = 0 then 100 else 0), tm_flags = (if i = 0 then 1 else 0), pending_fires = 0,
     tm_in_use = (i < 2), armed = (i = 0)\<rparr>"

definition demo :: kstate where
  "demo = \<lparr>running = (\<lambda>_. None)(0 := Some 0, 1 := Some 12), lists = demo_lists, thread = demo_thread,
     wqs = (\<lambda>_. [])(W_futex 1 := [7, 8]),
     slot = fold (\<lambda>p. chain_insert (of_nat p + 1) p) [0..<14] (\<lambda>_. []),
     free_vid_map = 18, next_vid = 15, next_tick_time = (\<lambda>_. 0),
     futex_slots = (\<lambda>i. \<lparr>fx_key = (if i = 1 then 0x20000100 else 0), fx_in_use = (i = 1)\<rparr>),
     timers = demo_timer, timer_q = [0], timer_seq = 3, realtime_offset_us = 0, reserved_vid0_assigned = False,
     irq_bindings = (\<lambda>i. \<lparr>ev_irq_id = of_nat i, ev_timestamp_us = 0, ev_status = 0, irq_owner_vid = 3,
       queued = False, inflight = False\<rparr>),
     irq_pending_bitmap = 0, NOZAOS_PID = (\<lambda>_. 1), cpu = 0, clock = 1000, systick = 0, irq_masked = (\<lambda>_. False),
     umem = (\<lambda>_. 0),
     umsg = (\<lambda>_. \<lparr>to_vid = 0, msg_ptr = 0, msg_size = 0, msg_identity = k_default_identity\<rparr>),
     irq_event_addr = (\<lambda>i. 0x20008000 + 16 * of_nat i), uninit = 0\<rparr>"

lemma demo_sel [simp]:
  "running demo = (\<lambda>_. None)(0 := Some 0, 1 := Some 12)" "lists demo = demo_lists" "thread demo = demo_thread"
  "wqs demo = (\<lambda>_. [])(W_futex 1 := [7, 8])" "free_vid_map demo = 18" "next_vid demo = 15"
  "futex_slots demo = (\<lambda>i. \<lparr>fx_key = (if i = 1 then 0x20000100 else 0), fx_in_use = (i = 1)\<rparr>)"
  "timers demo = demo_timer" "timer_q demo = [0]" "timer_seq demo = 3" "reserved_vid0_assigned demo = False"
  "irq_pending_bitmap demo = 0" "cpu demo = 0" "clock demo = 1000"
  "irq_bindings demo = (\<lambda>i. \<lparr>ev_irq_id = of_nat i, ev_timestamp_us = 0, ev_status = 0, irq_owner_vid = 3,
       queued = False, inflight = False\<rparr>)"
  "umem demo = (\<lambda>_. 0)"
  by (simp_all add: demo_def)

lemma less_14: "p < 14 \<longleftrightarrow> p \<in> {0, 1, 2, 3, 4, 5, 6, 7, 8, 9, 10, 11, 12, 13 :: nat}"
  unfolding insert_iff empty_iff by presburger

lemma demo_lists_sel [simp]:
  "demo_lists L_wait = [2]" "demo_lists L_sleep = [5, 6]" "demo_lists L_sync_sleep = [8]"
  "demo_lists L_zombie = [9]" "demo_lists L_stopped = [11]" "demo_lists L_free = [14..<32]"
  "demo_lists (L_ready i) = (if i = 2 then [1] else [])"
  "demo_lists (L_pending p) = (if p = 0 then [4] else [])"
  "demo_lists (L_reply p) = (if p = 0 then [13, 3] else [])"
  by (simp_all add: demo_lists_def del: upt_rec_numeral)

lemma demo_on_lists:
  "on_lists demo p = (if p = 1 then {L_ready 2} else if p = 2 then {L_wait} else if p = 3 \<or> p = 13 then {L_reply 0}
     else if p = 4 then {L_pending 0} else if p = 5 \<or> p = 6 then {L_sleep} else if p = 8 then {L_sync_sleep}
     else if p = 9 then {L_zombie} else if p = 11 then {L_stopped}
     else if 14 \<le> p \<and> p < 32 then {L_free} else {})"
proof -
  have "p \<in> set (demo_lists l) \<longleftrightarrow> l \<in> (if p = 1 then {L_ready 2} else if p = 2 then {L_wait}
     else if p = 3 \<or> p = 13 then {L_reply 0}
     else if p = 4 then {L_pending 0} else if p = 5 \<or> p = 6 then {L_sleep} else if p = 8 then {L_sync_sleep}
     else if p = 9 then {L_zombie} else if p = 11 then {L_stopped}
     else if 14 \<le> p \<and> p < 32 then {L_free} else {})" for l
  proof (cases "p < 14")
    case True
    then show ?thesis
      unfolding less_14 insert_iff empty_iff
      by (elim disjE) (cases l; simp del: upt_rec_numeral)+
  next
    case False
    then show ?thesis by (cases l; simp del: upt_rec_numeral)
  qed
  then show ?thesis by (simp add: on_lists_def)
qed

lemma demo_places:
  "on_wqs demo p = (if p = 7 \<or> p = 8 then {W_futex 1} else {})"
  "on_cores demo p = (if p = 0 then {0} else if p = 12 then {1} else {})"
  "joins demo p = (if p = 10 then {2} else {})"
  by (auto simp: on_wqs_def on_cores_def joins_def demo_thread_def)

lemma demo_lookup_fold:
  "n \<le> 14 \<Longrightarrow> chain_lookup (fold (\<lambda>p. chain_insert (of_nat p + 1) p) [0..<n] (\<lambda>_. [])) v
      = (if \<exists>p < n. v = of_nat p + 1 then Some (unat (v - 1)) else None)"
proof (induction n)
  case 0
  then show ?case by (simp add: chain_lookup_def)
next
  case (Suc n)
  have u: "unat (of_nat n :: u32) = n" using Suc.prems by (simp add: unat_of_nat)
  with Suc show ?case by (auto simp: chain_lookup_insert less_Suc_eq)
qed

lemma demo_lookup: "get_thread_by_vid v demo = (if \<exists>p < 14. v = of_nat p + 1 then Some (unat (v - 1)) else None)"
  unfolding get_thread_by_vid_def demo_def using demo_lookup_fold [of 14] by (simp del: upt_rec_numeral)

lemma demo_sched: "sched_ok {} demo"
proof -
  have "thread_ok demo p" if "p < 32" for p
  proof (cases "p < 14")
    case True
    then show ?thesis
      unfolding less_14 insert_iff empty_iff
      by (elim disjE) (simp_all add: thread_ok_def parked_def demo_on_lists demo_places demo_thread_def
        demo_states_def wait_timeout_def)
  next
    case False
    with that show ?thesis
      by (simp add: thread_ok_def parked_def demo_on_lists demo_places demo_thread_def)
  qed
  moreover have "distinct (demo_lists l)" for l by (cases l) (simp_all del: upt_rec_numeral)
  ultimately show ?thesis by (simp add: sched_ok_def demo_on_lists demo_places)
qed

lemma demo_chain_inv: "chain_inv (slot demo)"
proof -
  have inv: "chain_inv (fold (\<lambda>p. chain_insert (of_nat p + 1) p) [0..<n] (\<lambda>_. []) :: pid slots)"
    if "n \<le> 14" for n
    using that
  proof (induction n)
    case 0
    then show ?case by (simp add: chain_inv_def)
  next
    case (Suc n)
    have "(of_nat n :: u32) \<noteq> of_nat p" if "p < n" for p
      using that Suc.prems by (simp add: word_of_nat_eq_iff take_bit_nat_eq_self)
    then have "\<not> (\<exists>p < n. (of_nat n :: u32) + 1 = of_nat p + 1)" by simp
    then have "chain_lookup (fold (\<lambda>p. chain_insert (of_nat p + 1) p) [0..<n] (\<lambda>_. []) :: pid slots)
        (of_nat n + 1) = None"
      using demo_lookup_fold [of n "of_nat n + 1"] Suc.prems by simp
    with Suc show ?case by (simp add: chain_inv_insert)
  qed
  show ?thesis using inv [of 14] by (simp add: demo_def del: upt_rec_numeral)
qed

lemma unat_small: "q < 14 \<Longrightarrow> unat (of_nat q :: u32) = q"
  by (simp add: unat_of_nat)

lemma demo_get: "get_thread_by_vid v demo = Some p \<longleftrightarrow> p < 14 \<and> v = of_nat p + 1"
proof
  assume "get_thread_by_vid v demo = Some p"
  then have p: "\<exists>q < 14. v = of_nat q + 1" "p = unat (v - 1)"
    unfolding demo_lookup by (metis option.distinct(1), metis option.inject option.distinct(1))
  then obtain q where q: "q < 14" "v = of_nat q + 1" by blast
  have "p = q" unfolding p(2) q(2) using unat_small [OF q(1)] by simp
  then show "p < 14 \<and> v = of_nat p + 1" using q by simp
next
  assume a: "p < 14 \<and> v = of_nat p + 1"
  then have "\<exists>q < 14. v = of_nat q + 1" by blast
  moreover have "unat (v - 1) = p" using a unat_small [of p] by simp
  ultimately show "get_thread_by_vid v demo = Some p" by (simp add: demo_lookup)
qed

lemma demo_get_0: "get_thread_by_vid 0 demo = None"
proof -
  have "(0 :: u32) \<noteq> of_nat p + 1" if "p < 14" for p
    using that unfolding less_14 insert_iff empty_iff by (elim disjE) simp_all
  then have "\<not> (\<exists>p < 14. (0 :: u32) = of_nat p + 1)" by blast
  then show ?thesis by (simp add: demo_lookup)
qed

lemma demo_state_free: "th_state (demo_thread p) \<noteq> THREAD_FREE \<longleftrightarrow> p < 14"
proof (cases "p < 14")
  case True
  then have "th_state (demo_thread p) \<noteq> THREAD_FREE"
    unfolding less_14 insert_iff empty_iff by (elim disjE) (simp_all add: demo_thread_def demo_states_def)
  with True show ?thesis by simp
qed (simp add: demo_thread_def)

lemma demo_used: "used demo = {..<14}"
  unfolding used_def demo_sel demo_state_free by auto

lemma demo_vids: "vid_ok (used demo) demo"
proof -
  have vid: "vid (demo_thread q) = of_nat q + 1" if "q < 14" for q using that by (simp add: demo_thread_def)
  have "get_thread_by_vid v demo = Some p \<longleftrightarrow> p \<in> {..<14} \<and> vid (demo_thread p) = v" for v p
    unfolding demo_get using vid [of p] by (metis lessThan_iff)
  then show ?thesis
    unfolding vid_ok_def demo_used using demo_chain_inv demo_get_0 by simp
qed

lemma demo_kinv: "kinv demo"
proof -
  have "owners_ok demo" by (auto simp: owners_ok_def live_def demo_thread_def demo_states_def split: if_splits)
  moreover have "prio_ok demo" by (simp add: prio_ok_def demo_thread_def)
  moreover have "timers_ok demo" by (auto simp: timers_ok_def demo_timer_def)
  ultimately show ?thesis using demo_sched demo_vids by (simp add: kinv_ex_def)
qed

end
