(* ===== verification/Ipc.thy ===== *)
theory Ipc
  imports Kernel_Moves Demo
begin

text \<open>
  Message passing (\<^verbatim>\<open>kernel/noza_os.c\<close>, section "Noza IPC"): \<^verbatim>\<open>noza_os_send\<close>, \<^verbatim>\<open>noza_os_recv\<close>,
  \<^verbatim>\<open>noza_os_reply\<close> and the non-blocking forms. A sender waits in the \<^verbatim>\<open>pending_list\<close> of the target
  until the target receives, then in its \<^verbatim>\<open>reply_list\<close> until the target replies.
\<close>

section \<open>Operations\<close>

definition msg_pointer :: "u32 \<Rightarrow> u32 option" where
  "msg_pointer a = (if a = 0 then None else Some a)"

definition noza_os_send :: "pid \<Rightarrow> pid \<Rightarrow> u32 \<Rightarrow> u32 \<Rightarrow> kstate \<Rightarrow> kstate res" where
  "noza_os_send r target msg sz s =
     (if th_state (thread s target) = THREAD_FREE \<or> th_state (thread s target) = THREAD_ZOMBIE
      then Inr (noza_os_set_return_value1 r ESRCH s)
      else
        let s1 = noza_ipc_snapshot_identity r s;
            sender_vid = vid (thread s1 r);
            s2 = upd_thread r (\<lambda>t. t\<lparr>message := (message t)
                   \<lparr>om_pid := vid (thread s1 target), om_ptr := msg, om_size := sz\<rparr>\<rparr>) s1
        in bindE
             (case port_st (thread s2 target) of
                PORT_READY \<Rightarrow>
                  bindE (noza_os_add_thread (L_reply target) r s2) (\<lambda>s3.
                  if th_state (thread s3 target) \<noteq> THREAD_WAITING_MSG then Inl Kernel_panic
                  else bindE (noza_os_change_state target L_wait (L_ready (priority (thread s3 target))) s3)
                    (\<lambda>s4.
                      let s5 = noza_ipc_write_user_message target sender_vid msg sz
                                 (om_identity (message (thread s4 r))) s4;
                          s6 = noza_os_set_return_value4 target 0 sender_vid msg sz s5
                      in Inr (upd_thread target (\<lambda>t. t\<lparr>port_st := PORT_WAIT_LISTEN\<rparr>) s6)))
              | PORT_WAIT_LISTEN \<Rightarrow> noza_os_add_thread (L_pending target) r s2)
             (\<lambda>s'. Inr (noza_os_clear_running_thread s')))"

definition noza_os_nonblock_send :: "pid \<Rightarrow> pid \<Rightarrow> u32 \<Rightarrow> u32 \<Rightarrow> kstate \<Rightarrow> kstate res" where
  "noza_os_nonblock_send r target msg sz s =
     (if port_st (thread s target) = PORT_READY then noza_os_send r target msg sz s
      else Inr (noza_os_set_return_value1 r EAGAIN s))"

definition noza_os_recv :: "pid \<Rightarrow> u32 \<Rightarrow> kstate \<Rightarrow> kstate res" where
  "noza_os_recv r msg s =
     (let s1 = upd_thread r (\<lambda>t. t\<lparr>pending_recv_msg := msg_pointer msg\<rparr>) s
      in case lists s1 (L_pending r) of
           source # _ \<Rightarrow>
             (let m = message (thread s1 source);
                  src_vid = vid (thread s1 source);
                  s2 = noza_ipc_write_user_message r src_vid (om_ptr m) (om_size m) (om_identity m) s1;
                  s3 = noza_os_set_return_value4 r 0 src_vid (om_ptr m) (om_size m) s2
              in noza_os_change_state source (L_pending r) (L_reply r) s3)
         | [] \<Rightarrow>
             (let s2 = upd_thread r (\<lambda>t. t\<lparr>port_st := PORT_READY\<rparr>) s1
              in bindE (noza_os_add_thread L_wait r s2)
                   (\<lambda>s3. Inr (noza_os_clear_running_thread s3))))"

definition noza_os_nonblock_recv :: "pid \<Rightarrow> u32 \<Rightarrow> kstate \<Rightarrow> kstate res" where
  "noza_os_nonblock_recv r msg s =
     (if lists s (L_pending r) \<noteq> [] then noza_os_recv r msg s
      else Inr (noza_os_set_return_value1 r EAGAIN
                  (upd_thread r (\<lambda>t. t\<lparr>pending_recv_msg := None\<rparr>) s)))"

text \<open>\<^verbatim>\<open>noza_os_reply\<close> walks the circular reply list from its head to the first thread with the given
  identifier; a walk that comes back to the head panics, an empty list is a null head.\<close>

definition noza_os_reply :: "pid \<Rightarrow> u32 \<Rightarrow> u32 \<Rightarrow> u32 \<Rightarrow> kstate \<Rightarrow> kstate res" where
  "noza_os_reply r v msg sz s =
     (if port_st (thread s r) \<noteq> PORT_WAIT_LISTEN then Inl Kernel_panic
      else if lists s (L_reply r) = [] then Inl Null_deref
      else
        (case find (\<lambda>p. vid (thread s p) = v) (lists s (L_reply r)) of
           None \<Rightarrow> Inl Kernel_panic
         | Some th \<Rightarrow>
             (if th_state (thread s th) = THREAD_FREE \<or> th_state (thread s th) = THREAD_ZOMBIE
              then Inr (noza_os_set_return_value1 r ESRCH s)
              else bindE (noza_os_change_state th (L_reply r) (L_ready (priority (thread s th))) s)
                (\<lambda>s1. Inr (noza_os_set_return_value1 r 0
                            (noza_os_set_return_value3 th 0 msg sz s1))))))"

text \<open>Release of everyone who waits at the port of an exiting thread
  (\<^verbatim>\<open>noza_release_waiters_from_port\<close>); each loop removes the head until the list is empty.\<close>

fun release_list :: "nat \<Rightarrow> lid \<Rightarrow> u32 \<Rightarrow> kstate \<Rightarrow> kstate res" where
  "release_list n l err s =
     (case lists s l of
        [] \<Rightarrow> Inr s
      | p # _ \<Rightarrow>
          (case n of
             0 \<Rightarrow> Inl Diverge
           | Suc k \<Rightarrow>
               bindE (noza_os_change_state p l (L_ready (priority (thread s p)))
                        (noza_os_set_return_value1 p err s))
                 (release_list k l err)))"

declare release_list.simps [simp del]

definition noza_release_waiters_from_port :: "pid \<Rightarrow> u32 \<Rightarrow> kstate \<Rightarrow> kstate res" where
  "noza_release_waiters_from_port p err s =
     bindE (release_list (length (lists s (L_pending p))) (L_pending p) err s) (\<lambda>s1.
     bindE (release_list (length (lists s1 (L_reply p))) (L_reply p) err s1) (\<lambda>s2.
     Inr (upd_thread p (\<lambda>t. t\<lparr>pending_recv_msg := None\<rparr>) s2)))"

section \<open>The invariant\<close>

text \<open>A port is ready exactly while its thread waits for a message.\<close>

definition port_ok :: "kstate \<Rightarrow> bool" where
  "port_ok s \<longleftrightarrow> (\<forall>p < NOZA_OS_TASK_LIMIT.
     port_st (thread s p) = PORT_READY \<longleftrightarrow> th_state (thread s p) = THREAD_WAITING_MSG)"

subsection \<open>Sending\<close>

text \<open>The sender's message record, and the hand-over of a message to a receiver that waits for it.\<close>

definition msg_sent :: "pid \<Rightarrow> pid \<Rightarrow> u32 \<Rightarrow> u32 \<Rightarrow> kstate \<Rightarrow> kstate" where
  "msg_sent r target msg sz s =
     upd_thread r (\<lambda>t. t\<lparr>message := (message t)\<lparr>om_identity := identity t,
       om_pid := vid (thread s target), om_ptr := msg, om_size := sz\<rparr>\<rparr>) s"

definition deliver :: "pid \<Rightarrow> u32 \<Rightarrow> u32 \<Rightarrow> u32 \<Rightarrow> noza_identity_t \<Rightarrow> kstate \<Rightarrow> kstate" where
  "deliver target v msg sz ident s =
     upd_thread target (\<lambda>t. t\<lparr>port_st := PORT_WAIT_LISTEN\<rparr>)
       (noza_os_set_return_value4 target 0 v msg sz
         (noza_ipc_write_user_message target v msg sz ident s))"

lemma msg_sent_sel [simp]:
  "lists (msg_sent r target msg sz s) = lists s"
  "wqs (msg_sent r target msg sz s) = wqs s"
  "running (msg_sent r target msg sz s) = running s"
  "cpu (msg_sent r target msg sz s) = cpu s"
  "umsg (msg_sent r target msg sz s) = umsg s"
  "th_state (thread (msg_sent r target msg sz s) q) = th_state (thread s q)"
  "port_st (thread (msg_sent r target msg sz s) q) = port_st (thread s q)"
  "priority (thread (msg_sent r target msg sz s) q) = priority (thread s q)"
  "vid (thread (msg_sent r target msg sz s) q) = vid (thread s q)"
  "identity (thread (msg_sent r target msg sz s) q) = identity (thread s q)"
  "pending_recv_msg (thread (msg_sent r target msg sz s) q) = pending_recv_msg (thread s q)"
  "om_pid (message (thread (msg_sent r target msg sz s) r)) = vid (thread s target)"
  "om_ptr (message (thread (msg_sent r target msg sz s) r)) = msg"
  "om_size (message (thread (msg_sent r target msg sz s) r)) = sz"
  "om_identity (message (thread (msg_sent r target msg sz s) r)) = identity (thread s r)"
  "kinv_ex X (msg_sent r target msg sz s) = kinv_ex X s"
  by (simp_all add: msg_sent_def kinv_ex_irrelevant)

lemma kinv_ex_deliver [simp]: "kinv_ex X (deliver target v msg sz ident s) = kinv_ex X s"
  by (simp add: deliver_def kinv_ex_irrelevant)

lemma deliver_sel [simp]:
  "lists (deliver target v msg sz ident s) = lists s"
  "running (deliver target v msg sz ident s) = running s"
  "cpu (deliver target v msg sz ident s) = cpu s"
  "th_state (thread (deliver target v msg sz ident s) q) = th_state (thread s q)"
  "priority (thread (deliver target v msg sz ident s) q) = priority (thread s q)"
  "waiting_queue (thread (deliver target v msg sz ident s) q) = waiting_queue (thread s q)"
  "on_lists (deliver target v msg sz ident s) = on_lists s"
  "on_wqs (deliver target v msg sz ident s) = on_wqs s"
  "on_cores (deliver target v msg sz ident s) = on_cores s"
  "joins (deliver target v msg sz ident s) = joins s"
  by (simp_all add: deliver_def)

lemma msg_sent_eq:
  "upd_thread r (\<lambda>t. t\<lparr>message := (message t)\<lparr>om_pid := vid (thread (noza_ipc_snapshot_identity r s) target),
     om_ptr := msg, om_size := sz\<rparr>\<rparr>) (noza_ipc_snapshot_identity r s) = msg_sent r target msg sz s"
  by (simp add: msg_sent_def noza_ipc_snapshot_identity_def upd_thread_def)

lemma send_pending:
  fixes msg sz :: u32
  assumes inv: "kinv s" and r: "running s (cpu s) = Some r" and t: "target < NOZA_OS_TASK_LIMIT"
    and live: "live (thread s target)" and port: "port_st (thread s target) = PORT_WAIT_LISTEN"
  defines "s' \<equiv> noza_os_clear_running_thread (put (L_pending target) r (msg_sent r target msg sz s))"
  shows "noza_os_send r target msg sz s = Inr s'" and "kinv s'"
proof -
  let ?s2 = "msg_sent r target msg sz s"
  have inv2: "kinv ?s2" and r2: "running ?s2 (cpu ?s2) = Some r" using inv r by simp_all
  have park: "park_list ?s2 r (L_pending target)" using t live by (simp add: live_def)
  show "noza_os_send r target msg sz s = Inr s'"
    unfolding noza_os_send_def Let_def msg_sent_eq
    using add_running [OF inv2 r2 _ park] live port by (simp add: live_def s'_def)
  show "kinv s'" unfolding s'_def using kinv_block [OF inv2 r2 _ park] by simp
qed

lemma send_ready:
  fixes msg sz :: u32
  assumes inv: "kinv s" and r: "running s (cpu s) = Some r" and t: "target < NOZA_OS_TASK_LIMIT"
    and wait: "th_state (thread s target) = THREAD_WAITING_MSG"
    and port: "port_st (thread s target) = PORT_READY"
  defines "s' \<equiv> noza_os_clear_running_thread
       (deliver target (vid (thread s r)) msg sz (identity (thread s r))
         (wake L_wait target (put (L_reply target) r (msg_sent r target msg sz s))))"
  shows "noza_os_send r target msg sz s = Inr s'" and "kinv s'" and "target \<noteq> r"
    and "target \<in> set (lists s L_wait)"
proof -
  let ?s2 = "msg_sent r target msg sz s"
  let ?s3 = "put (L_reply target) r ?s2"
  have inv2: "kinv ?s2" and r2: "running ?s2 (cpu ?s2) = Some r" using inv r by simp_all
  note lt = kinv_running(1) [OF inv2 r2] and th = thread_ok_running [OF kinv_running(2) [OF inv2 r2] r2]
  show ne: "target \<noteq> r" using th(1) wait by auto
  show "target \<in> set (lists s L_wait)"
    using thread_ok_waiting_msg [OF kinv_thread [OF inv t] wait] by simp
  have park: "park_list ?s2 r (L_reply target)" using t wait by (simp add: live_def)
  have inv3: "kinv_ex {r} ?s3" using kinv_put_running [OF inv2 r2 _ park] by simp
  from \<open>target \<in> set (lists s L_wait)\<close> ne
  have tw: "target \<in> set (lists ?s3 L_wait)" "target \<notin> {r}" by simp_all
  note w = wake_eq [OF inv3 tw] kinv_wake [OF inv3 tw]
  let ?s7 = "deliver target (vid (thread s r)) msg sz (identity (thread s r)) (wake L_wait target ?s3)"
  have inv7: "kinv_ex (insert r {}) ?s7" using w(2) by simp
  have "thread_ok (noza_os_clear_running_thread ?s7) r"
    by (rule park_thread_ok [OF park])
       (use th r2 ne sched_ok_distinct [OF kinv_exD(1) [OF inv]] in simp_all)
  from kinv_clear_running [OF inv7 lt _ this] r2 show "kinv s'" by (simp add: s'_def)
  have "vid (thread (noza_ipc_snapshot_identity r s) r) = vid (thread s r)"
    by (simp add: noza_ipc_snapshot_identity_def)
  then show "noza_os_send r target msg sz s = Inr s'"
    unfolding noza_os_send_def Let_def msg_sent_eq
    using port wait add_running [OF inv2 r2 _ park] w(1) ne by (simp add: s'_def deliver_def)
qed

lemma send_kinv:
  assumes "kinv s" and "running s (cpu s) = Some r" and "target < NOZA_OS_TASK_LIMIT"
    and "port_st (thread s target) = PORT_READY \<Longrightarrow> th_state (thread s target) = THREAD_WAITING_MSG"
  shows "ok (noza_os_send r target msg sz s) kinv"
proof (cases "live (thread s target)")
  case False
  with assms(1) show ?thesis by (auto simp: noza_os_send_def live_def)
next
  case True
  with assms send_pending [OF assms(1-3)] send_ready [OF assms(1-3)] show ?thesis
    by (cases "port_st (thread s target)") simp_all
qed

subsection \<open>Receiving\<close>

definition listening :: "pid \<Rightarrow> u32 \<Rightarrow> kstate \<Rightarrow> kstate" where
  "listening r msg s = upd_thread r (\<lambda>t. t\<lparr>port_st := PORT_READY\<rparr>)
     (upd_thread r (\<lambda>t. t\<lparr>pending_recv_msg := msg_pointer msg\<rparr>) s)"

definition received :: "pid \<Rightarrow> u32 \<Rightarrow> pid \<Rightarrow> kstate \<Rightarrow> kstate" where
  "received r msg src s =
     (let m = message (thread s src)
      in noza_os_set_return_value4 r 0 (vid (thread s src)) (om_ptr m) (om_size m)
           (noza_ipc_write_user_message r (vid (thread s src)) (om_ptr m) (om_size m) (om_identity m)
             (upd_thread r (\<lambda>t. t\<lparr>pending_recv_msg := msg_pointer msg\<rparr>) s)))"

lemma listening_sel [simp]:
  "kinv_ex X (listening r msg s) = kinv_ex X s"
  "running (listening r msg s) = running s"
  "cpu (listening r msg s) = cpu s"
  "lists (listening r msg s) = lists s"
  by (simp_all add: listening_def kinv_ex_irrelevant)

lemma received_sel [simp]:
  "kinv_ex X (received r msg src s) = kinv_ex X s"
  "running (received r msg src s) = running s"
  "cpu (received r msg src s) = cpu s"
  "lists (received r msg src s) = lists s"
  "th_state (thread (received r msg src s) q) = th_state (thread s q)"
  by (simp_all add: received_def Let_def kinv_ex_irrelevant)

lemma park_wait: "park_list s p L_wait" "park_list s p L_sleep" "park_list s p L_stopped"
  by simp_all

lemma recv_wait:
  fixes msg :: u32
  assumes inv: "kinv s" and r: "running s (cpu s) = Some r" and none: "lists s (L_pending r) = []"
  defines "s' \<equiv> noza_os_clear_running_thread (put L_wait r (listening r msg s))"
  shows "noza_os_recv r msg s = Inr s'" and "kinv s'"
proof -
  let ?s = "listening r msg s"
  have inv': "kinv ?s" and r': "running ?s (cpu ?s) = Some r" using inv r by simp_all
  show "noza_os_recv r msg s = Inr s'"
    unfolding noza_os_recv_def Let_def listening_def [symmetric] s'_def
    using add_running [OF inv' r' _ park_wait(1)] none by simp
  show "kinv s'" unfolding s'_def using kinv_block [OF inv' r' _ park_wait(1)] by simp
qed

lemma recv_pending:
  fixes msg :: u32
  assumes inv: "kinv s" and r: "running s (cpu s) = Some r" and src: "lists s (L_pending r) = src # rest"
  defines "s' \<equiv> move (L_pending r) (L_reply r) src (received r msg src s)"
  shows "noza_os_recv r msg s = Inr s'" and "kinv s'" and "src \<noteq> r"
proof -
  let ?s = "received r msg src s"
  have inv': "kinv ?s" using inv by simp
  have r': "running ?s (cpu ?s) = Some r" using r by simp
  note lt = kinv_running(1) [OF inv r] and th = thread_ok_running [OF kinv_running(2) [OF inv r] r]
  from src th show ne: "src \<noteq> r" by (auto dest: not_on_lists [of _ _ "L_pending r"])
  have p: "src \<in> set (lists ?s (L_pending r))" "src \<notin> {}" using src by simp_all
  have park: "park_list ?s src (L_reply r)" "L_reply r \<noteq> L_pending r"
    using lt th(1) by (simp_all add: live_def)
  show "noza_os_recv r msg s = Inr s'"
    using move_eq [OF inv' p park] src ne by (simp add: noza_os_recv_def received_def Let_def s'_def)
  show "kinv s'" unfolding s'_def by (rule kinv_move [OF inv' p _ park]) simp
qed

lemma recv_kinv:
  assumes "kinv s" and "running s (cpu s) = Some r"
  shows "ok (noza_os_recv r msg s) kinv"
  using recv_wait [OF assms] recv_pending [OF assms]
  by (cases "lists s (L_pending r)") simp_all

subsection \<open>Replying\<close>

lemma reply_found:
  fixes msg sz :: u32
  assumes inv: "kinv s" and r: "port_st (thread s r) = PORT_WAIT_LISTEN"
    and f: "find (\<lambda>p. vid (thread s p) = v) (lists s (L_reply r)) = Some p"
  defines "s' \<equiv> noza_os_set_return_value1 r 0 (noza_os_set_return_value3 p 0 msg sz (wake (L_reply r) p s))"
  shows "noza_os_reply r v msg sz s = Inr s'" and "kinv s'" and "p \<in> set (lists s (L_reply r))"
    and "vid (thread s p) = v"
proof -
  from find_split [OF f] show p: "p \<in> set (lists s (L_reply r))" and "vid (thread s p) = v" by simp_all
  have b: "blocked_list (L_reply r)" by simp
  from wake_eq [OF inv p _ b] kinv_in_list(3) [OF inv p] p f r
  show "noza_os_reply r v msg sz s = Inr s'" by (auto simp: noza_os_reply_def s'_def)
  from kinv_wake [OF inv p _ b] show "kinv s'" by (simp add: s'_def)
qed

subsection \<open>Releasing the waiters of a port\<close>

definition release :: "lid \<Rightarrow> u32 \<Rightarrow> pid \<Rightarrow> kstate \<Rightarrow> kstate" where
  "release l err p s = wake l p (noza_os_set_return_value1 p err s)"

text \<open>What the release of the threads of a list leaves as it was.\<close>

definition frame_of :: "pid set \<Rightarrow> kstate \<Rightarrow> kstate \<Rightarrow> bool" where
  "frame_of P s s' \<longleftrightarrow>
     (\<forall>q. q \<notin> P \<longrightarrow> thread s' q = thread s q \<and> on_lists s' q = on_lists s q)
     \<and> (\<forall>q. join_th (thread s' q) = join_th (thread s q) \<and> priority (thread s' q) = priority (thread s q)
            \<and> vid (thread s' q) = vid (thread s q))
     \<and> (\<forall>l. blocked_list l \<longrightarrow> set (lists s' l) \<subseteq> set (lists s l))
     \<and> wqs s' = wqs s \<and> running s' = running s \<and> cpu s' = cpu s \<and> clock s' = clock s"

lemma frame_of_refl [simp]: "frame_of P s s"
  by (simp add: frame_of_def)

lemma frame_of_trans: "frame_of P s s' \<Longrightarrow> frame_of P s' s'' \<Longrightarrow> frame_of P s s''"
  unfolding frame_of_def by (simp; blast)

lemma frame_of_mono: "frame_of P s s' \<Longrightarrow> P \<subseteq> Q \<Longrightarrow> frame_of Q s s'"
  unfolding frame_of_def by blast

lemma frame_of_places:
  assumes "frame_of P s s'" and "q \<notin> P"
  shows "on_lists s' q = on_lists s q" and "on_wqs s' q = on_wqs s q"
    and "on_cores s' q = on_cores s q" and "joins s' q = joins s q" and "thread s' q = thread s q"
  using assms by (simp_all add: frame_of_def on_wqs_def on_cores_def joins_def)

lemma frame_of_release:
  "distinct (lists s l) \<Longrightarrow> blocked_list l \<Longrightarrow> p \<in> P \<Longrightarrow> frame_of P s (release l err p s)"
  by (auto simp: frame_of_def release_def set_return_defs dest: subsetD [OF set_remove1_subset])

lemma release_kinv:
  assumes "kinv_ex X s" and "p \<in> set (lists s l)" "p \<notin> X" and "blocked_list l"
  shows "noza_os_change_state p l (L_ready (priority (thread s p))) (noza_os_set_return_value1 p err s)
      = Inr (release l err p s)" and "kinv_ex X (release l err p s)"
  using assms wake_eq [of X "noza_os_set_return_value1 p err s" p l]
    kinv_wake [of X "noza_os_set_return_value1 p err s" p l]
  by (simp_all add: release_def)

lemma release_sel:
  "blocked_list l \<Longrightarrow> lists (release l err p s) l = remove1 p (lists s l)"
  "trap (thread (release l err p s) p) =
     \<lparr>r0 = err, r1 = UNDEF_REG, r2 = UNDEF_REG, r3 = UNDEF_REG, trap_state = SYSCALL_OUTPUT\<rparr>"
  "th_state (thread (release l err p s) p) = THREAD_READY"
  by (simp_all add: release_def noza_os_set_return_value1_def)

text \<open>Every thread of the list is made ready with the error; as many rounds as the list is long are
  enough.\<close>

definition all_released :: "pid set \<Rightarrow> u32 \<Rightarrow> kstate \<Rightarrow> bool" where
  "all_released P err s \<longleftrightarrow> (\<forall>p \<in> P. th_state (thread s p) = THREAD_READY \<and> trap (thread s p) =
     \<lparr>r0 = err, r1 = UNDEF_REG, r2 = UNDEF_REG, r3 = UNDEF_REG, trap_state = SYSCALL_OUTPUT\<rparr>)"

lemma release_list_ok:
  assumes "kinv_ex X s" and "blocked_list l" and "lists s l = xs" and "set xs \<inter> X = {}" and "length xs \<le> n"
  shows "ok (release_list n l err s) (\<lambda>s'. kinv_ex X s' \<and> lists s' l = [] \<and> frame_of (set xs) s s'
           \<and> all_released (set xs) err s')"
  using assms
proof (induction xs arbitrary: s n)
  case Nil
  then show ?case by (simp add: release_list.simps all_released_def)
next
  case (Cons p xs)
  note inv = Cons.prems(1)
  have p: "p \<in> set (lists s l)" "p \<notin> X" using Cons.prems(3,4) by auto
  note d = sched_ok_distinct(1) [OF kinv_exD(1) [OF inv], of l]
  let ?s = "release l err p s"
  from Cons.prems(5) obtain k where k: "n = Suc k" "length xs \<le> k" by (cases n) auto
  have xs: "lists ?s l = xs" "p \<notin> set xs"
    using Cons.prems(2,3) d by (simp_all add: release_sel)
  have IH: "ok (release_list k l err ?s) (\<lambda>s'. kinv_ex X s' \<and> lists s' l = []
      \<and> frame_of (set xs) ?s s' \<and> all_released (set xs) err s')"
    by (rule Cons.IH) (use Cons.prems release_kinv [OF inv p] xs(1) k in auto)
  have frame: "frame_of (set (p # xs)) s s'" if "frame_of (set xs) ?s s'" for s'
    by (rule frame_of_trans [OF frame_of_release [OF d Cons.prems(2)] frame_of_mono [OF that]]) auto
  have rel: "all_released (set (p # xs)) err s'"
    if "frame_of (set xs) ?s s'" "all_released (set xs) err s'" for s'
    using that frame_of_places(5) [OF that(1) xs(2)] by (simp add: all_released_def release_sel)
  have "release_list n l err s = release_list k l err ?s"
    using Cons.prems(2,3) release_kinv(1) [OF inv p] k by (simp add: release_list.simps [of "Suc k"])
  then show ?case using ok_mono [OF IH] frame rel by simp
qed

definition port_waiters :: "pid \<Rightarrow> kstate \<Rightarrow> pid set" where
  "port_waiters p s = set (lists s (L_pending p)) \<union> set (lists s (L_reply p))"

lemma release_waiters_ok:
  assumes inv: "kinv_ex X s" and X: "port_waiters p s \<inter> X = {}"
  shows "ok (noza_release_waiters_from_port p err s) (\<lambda>s'. \<exists>s2. kinv_ex X s2
           \<and> s' = upd_thread p (\<lambda>t. t\<lparr>pending_recv_msg := None\<rparr>) s2
           \<and> lists s2 (L_pending p) = [] \<and> lists s2 (L_reply p) = []
           \<and> frame_of (port_waiters p s) s s2 \<and> all_released (port_waiters p s) err s2)"
proof -
  let ?A = "set (lists s (L_pending p))" and ?B = "set (lists s (L_reply p))"
  have "ok (release_list (length (lists s (L_pending p))) (L_pending p) err s)
      (\<lambda>s1. kinv_ex X s1 \<and> lists s1 (L_pending p) = [] \<and> frame_of ?A s s1 \<and> all_released ?A err s1)"
    by (rule release_list_ok) (use inv X in \<open>auto simp: port_waiters_def\<close>)
  then obtain s1 where s1: "release_list (length (lists s (L_pending p))) (L_pending p) err s = Inr s1"
      "kinv_ex X s1" "lists s1 (L_pending p) = []" "frame_of ?A s s1" "all_released ?A err s1"
    by (auto dest!: ok_value)
  from s1(4) have sub: "set (lists s1 (L_reply p)) \<subseteq> ?B" by (simp add: frame_of_def)
  have "ok (release_list (length (lists s1 (L_reply p))) (L_reply p) err s1)
      (\<lambda>s2. kinv_ex X s2 \<and> lists s2 (L_reply p) = [] \<and> frame_of (set (lists s1 (L_reply p))) s1 s2
         \<and> all_released (set (lists s1 (L_reply p))) err s2)"
    by (rule release_list_ok) (use s1 sub X in \<open>auto simp: port_waiters_def\<close>)
  then obtain s2 where s2: "release_list (length (lists s1 (L_reply p))) (L_reply p) err s1 = Inr s2"
      "kinv_ex X s2" "lists s2 (L_reply p) = []" "frame_of (set (lists s1 (L_reply p))) s1 s2"
      "all_released (set (lists s1 (L_reply p))) err s2"
    by (auto dest!: ok_value)
  have disj: "q \<notin> ?B" if "q \<in> ?A" for q
    using kinv_in_list(4) [OF inv that, of "L_reply p"] that X by (auto simp: port_waiters_def)
  have "?B \<subseteq> set (lists s1 (L_reply p))"
    using s1(4) disj by (auto simp: frame_of_def on_lists_def)
  with sub have B: "set (lists s1 (L_reply p)) = ?B" by simp
  have "set (lists s2 (L_pending p)) \<subseteq> set (lists s1 (L_pending p))" using s2(4) by (simp add: frame_of_def)
  with s1(3) have "lists s2 (L_pending p) = []" by simp
  moreover have "frame_of (port_waiters p s) s s2"
    using frame_of_trans [OF frame_of_mono [OF s1(4)] frame_of_mono [OF s2(4)]] B
    by (simp add: port_waiters_def)
  moreover have "all_released (port_waiters p s) err s2"
    using s1(5) s2(5) frame_of_places(5) [OF s2(4)] B disj
    by (auto simp: all_released_def port_waiters_def)
  ultimately show ?thesis using s1(1) s2(1-3)
    by (auto simp: noza_release_waiters_from_port_def)
qed

section \<open>Properties\<close>

text \<open>C4: A message sent to a thread that waits for one is delivered at once: the receiver becomes ready
  with return values 0, the sender's identifier, the address and the size of the message, its message
  buffer in user memory is filled with these and with the sender's credentials, and the sender waits at the
  end of the receiver's reply list.\<close>

theorem send_delivers:
  assumes "kinv s" and "running s (cpu s) = Some r" and "target < NOZA_OS_TASK_LIMIT"
    and "th_state (thread s target) = THREAD_WAITING_MSG" and "port_st (thread s target) = PORT_READY"
  shows "\<exists>s'. noza_os_send r target msg sz s = Inr s' \<and> kinv s'
    \<and> th_state (thread s' target) = THREAD_READY
    \<and> trap (thread s' target) = \<lparr>r0 = 0, r1 = vid (thread s r), r2 = msg, r3 = sz, trap_state = SYSCALL_OUTPUT\<rparr>
    \<and> umsg s' = (case pending_recv_msg (thread s target) of
         None \<Rightarrow> umsg s
       | Some a \<Rightarrow> (umsg s)(a := \<lparr>to_vid = vid (thread s r), msg_ptr = msg, msg_size = sz,
                                 msg_identity = identity (thread s r)\<rparr>))
    \<and> th_state (thread s' r) = THREAD_WAITING_REPLY
    \<and> lists s' (L_reply target) = lists s (L_reply target) @ [r] \<and> running s' (cpu s) = None"
  using send_ready(1,2) [OF assms, of msg sz] send_ready(3) [OF assms]
  by (auto simp: deliver_def noza_os_set_return_value4_def noza_ipc_write_user_message_def lists_put
    split: option.split)

theorem send_delivers_witness:
  "\<exists>s'. noza_os_send 0 2 0x20004000 8 demo = Inr s' \<and> trap (thread s' 2)
      = \<lparr>r0 = 0, r1 = 1, r2 = 0x20004000, r3 = 8, trap_state = SYSCALL_OUTPUT\<rparr>
    \<and> umsg s' 0x20002000 = \<lparr>to_vid = 1, msg_ptr = 0x20004000, msg_size = 8,
                              msg_identity = \<lparr>uid = 0, gid = 0, umask = 18\<rparr>\<rparr>
    \<and> lists s' (L_reply 2) = [0]"
proof -
  have "running demo (cpu demo) = Some 0" "(2 :: nat) < NOZA_OS_TASK_LIMIT"
    "th_state (thread demo 2) = THREAD_WAITING_MSG" "port_st (thread demo 2) = PORT_READY"
    by (simp_all add: demo_thread_def demo_states_def)
  from send_delivers [OF demo_kinv this, of "0x20004000" 8] obtain s' where
    "noza_os_send 0 2 0x20004000 8 demo = Inr s'" "lists s' (L_reply 2) = lists demo (L_reply 2) @ [0]"
    "trap (thread s' 2) = \<lparr>r0 = 0, r1 = vid (thread demo 0), r2 = 0x20004000, r3 = 8, trap_state = SYSCALL_OUTPUT\<rparr>"
    "umsg s' = (case pending_recv_msg (thread demo 2) of None \<Rightarrow> umsg demo
       | Some a \<Rightarrow> (umsg demo)(a := \<lparr>to_vid = vid (thread demo 0), msg_ptr = 0x20004000, msg_size = 8,
                                 msg_identity = identity (thread demo 0)\<rparr>))"
    by blast
  then show ?thesis by (simp add: demo_thread_def)
qed



text \<open>C6: The order in which two running threads meet at a port does not matter: whether the receiver waits
  first and the sender comes second, or the sender queues first and the receiver takes the message, the
  receiver gets the same return values and the same message buffer, and the sender waits for its reply.\<close>

theorem rendezvous_order:
  assumes inv: "kinv s" and r: "running s c = Some r" and q: "running s d = Some q" and cd: "c \<noteq> d"
    and none: "lists s (L_pending r) = []" and port: "port_st (thread s r) = PORT_WAIT_LISTEN" and m: "m \<noteq> 0"
  shows "\<exists>a b. bindE (noza_os_recv r m (s\<lparr>cpu := c\<rparr>)) (\<lambda>x. noza_os_send q r msg sz (x\<lparr>cpu := d\<rparr>)) = Inr a
    \<and> bindE (noza_os_send q r msg sz (s\<lparr>cpu := d\<rparr>)) (\<lambda>x. noza_os_recv r m (x\<lparr>cpu := c\<rparr>)) = Inr b
    \<and> trap (thread a r) = trap (thread b r) \<and> umsg a = umsg b
    \<and> th_state (thread a q) = THREAD_WAITING_REPLY \<and> th_state (thread b q) = THREAD_WAITING_REPLY
    \<and> lists a (L_reply r) = lists b (L_reply r)"
proof -
  have "c \<in> on_cores s r" "d \<in> on_cores s q" using r q by (simp_all add: on_cores_def)
  note thr = thread_ok_running [OF kinv_running(2) [OF inv r] r, simplified]
    and thq = thread_ok_running [OF kinv_running(2) [OF inv q] q, simplified]
  have ne: "q \<noteq> r" using thr(6) \<open>d \<in> on_cores s q\<close> cd by auto
  have ltr: "r < NOZA_OS_TASK_LIMIT" by (rule kinv_running(1) [OF inv r]) simp
  let ?a1 = "noza_os_clear_running_thread (put L_wait r (listening r m (s\<lparr>cpu := c\<rparr>)))"
  let ?b1 = "noza_os_clear_running_thread (put (L_pending r) q (msg_sent q r msg sz (s\<lparr>cpu := d\<rparr>)))"
  have a1: "noza_os_recv r m (s\<lparr>cpu := c\<rparr>) = Inr ?a1" "kinv (?a1\<lparr>cpu := d\<rparr>)"
    using recv_wait [of "s\<lparr>cpu := c\<rparr>" r m] inv r none by simp_all
  have sa: "running (?a1\<lparr>cpu := d\<rparr>) d = Some q" "th_state (thread ?a1 r) = THREAD_WAITING_MSG"
    "port_st (thread ?a1 r) = PORT_READY"
    using q cd by (simp_all add: listening_def)
  note a2 = send_ready(1) [of "?a1\<lparr>cpu := d\<rparr>" q r msg sz] 
  have b1: "noza_os_send q r msg sz (s\<lparr>cpu := d\<rparr>) = Inr ?b1" "kinv (?b1\<lparr>cpu := c\<rparr>)"
    using send_pending [of "s\<lparr>cpu := d\<rparr>" q r msg sz] inv q port ltr thr(1) by (simp_all add: live_def)
  have sb: "running (?b1\<lparr>cpu := c\<rparr>) c = Some r" "lists ?b1 (L_pending r) = [q]"
    using r cd none by (simp_all add: lists_put)
  note b2 = recv_pending(1) [of "?b1\<lparr>cpu := c\<rparr>" r q "[]" m]
  show ?thesis
    using a1 a2 sa b1 b2 sb ltr ne m none
    by (simp add: deliver_def received_def Let_def noza_os_set_return_value4_def noza_ipc_write_user_message_def
      msg_pointer_def listening_def lists_put move_def msg_sent_def)
qed

theorem rendezvous_order_witness:
  "\<exists>a b. bindE (noza_os_recv 12 0x20003000 (demo\<lparr>cpu := 1\<rparr>)) (\<lambda>x. noza_os_send 0 12 0x20004000 8 (x\<lparr>cpu := 0\<rparr>)) = Inr a
    \<and> bindE (noza_os_send 0 12 0x20004000 8 (demo\<lparr>cpu := 0\<rparr>)) (\<lambda>x. noza_os_recv 12 0x20003000 (x\<lparr>cpu := 1\<rparr>)) = Inr b
    \<and> trap (thread a 12) = trap (thread b 12) \<and> umsg a = umsg b"
proof -
  have "running demo 1 = Some 12" "running demo 0 = Some 0" "(1 :: nat) \<noteq> 0" "lists demo (L_pending 12) = []"
    "port_st (thread demo 12) = PORT_WAIT_LISTEN" "(0x20003000 :: u32) \<noteq> 0"
    by (simp_all add: demo_thread_def)
  from rendezvous_order [OF demo_kinv this, of "0x20004000" 8] show ?thesis by blast
qed

lemma vid_unique:
  assumes inv: "kinv s" and p: "p \<in> set (lists s l)" and q: "q \<in> set (lists s m)"
    and v: "vid (thread s p) = vid (thread s q)" and l: "l \<noteq> L_free" "m \<noteq> L_free"
  shows "p = q"
proof -
  have "p \<in> used s" "q \<in> used s"
    using kinv_in_list(1,3) [OF inv p] kinv_in_list(1,3) [OF inv q] l by (simp_all add: used_def)
  then have "get_thread_by_vid (vid (thread s q)) s = Some p" "get_thread_by_vid (vid (thread s q)) s = Some q"
    using kinv_exD(4) [OF inv] v by (simp_all add: vid_ok_def)
  then show ?thesis by simp
qed

text \<open>C7: A reply to a caller that waits for it makes exactly this caller ready, with 0, the reply's address
  and size as its return values; it leaves the reply list and joins the end of the ready list of its priority,
  and no other thread changes its state.\<close>

theorem reply_wakes_caller:
  assumes inv: "kinv s" and r: "running s (cpu s) = Some r" and port: "port_st (thread s r) = PORT_WAIT_LISTEN"
    and p: "p \<in> set (lists s (L_reply r))"
  shows "\<exists>s'. noza_os_reply r (vid (thread s p)) msg sz s = Inr s' \<and> kinv s'
    \<and> th_state (thread s' p) = THREAD_READY
    \<and> trap (thread s' p) = \<lparr>r0 = 0, r1 = msg, r2 = sz, r3 = UNDEF_REG, trap_state = SYSCALL_OUTPUT\<rparr>
    \<and> r0 (trap (thread s' r)) = 0
    \<and> lists s' (L_reply r) = remove1 p (lists s (L_reply r))
    \<and> lists s' (L_ready (priority (thread s p))) = lists s (L_ready (priority (thread s p))) @ [p]
    \<and> (\<forall>q. q \<noteq> p \<longrightarrow> th_state (thread s' q) = th_state (thread s q)) \<and> running s' = running s"
proof -
  have f: "find (\<lambda>q. vid (thread s q) = vid (thread s p)) (lists s (L_reply r)) = Some p"
    using p vid_unique [OF inv _ p] by (intro find_unique) auto
  have ne: "p \<noteq> r"
    using p thread_ok_running(2) [OF kinv_running(2) [OF inv r] r] by (auto dest: not_on_lists)
  from reply_found(1,2) [OF inv port f, of msg sz] ne show ?thesis
    by (simp add: noza_os_set_return_value1_def noza_os_set_return_value3_def)
qed

theorem reply_wakes_caller_witness:
  "\<exists>s'. noza_os_reply 0 (vid (thread demo 3)) 0x20005000 3 demo = Inr s' \<and> lists s' (L_reply 0) = [13]
     \<and> r1 (trap (thread s' 3)) = 0x20005000"
proof -
  have "running demo (cpu demo) = Some 0" "port_st (thread demo 0) = PORT_WAIT_LISTEN" "3 \<in> set (lists demo (L_reply 0))"
    by (simp_all add: demo_thread_def)
  from reply_wakes_caller [OF demo_kinv this, of "0x20005000" 3] show ?thesis by force
qed

text \<open>C8: \<^verbatim>\<open>noza_os_reply\<close> stops the whole kernel, by a panic or through a null pointer, exactly when the
  replying thread's port is still marked ready or when no thread with the given identifier waits for its
  reply; a user thread can cause both.\<close>

theorem reply_halts_iff:
  assumes inv: "kinv s"
  shows "(\<exists>h. noza_os_reply r v msg sz s = Inl h) \<longleftrightarrow>
    port_st (thread s r) = PORT_READY \<or> (\<forall>p \<in> set (lists s (L_reply r)). vid (thread s p) \<noteq> v)"
proof (cases "port_st (thread s r)")
  case PORT_READY
  then show ?thesis by (simp add: noza_os_reply_def)
next
  case PORT_WAIT_LISTEN
  show ?thesis
  proof (cases "find (\<lambda>p. vid (thread s p) = v) (lists s (L_reply r))")
    case None
    then have "\<forall>p \<in> set (lists s (L_reply r)). vid (thread s p) \<noteq> v" by (auto simp: find_None_iff)
    with None PORT_WAIT_LISTEN show ?thesis by (auto simp: noza_os_reply_def)
  next
    case (Some p)
    from reply_found [OF inv PORT_WAIT_LISTEN Some] PORT_WAIT_LISTEN show ?thesis by auto
  qed
qed

theorem reply_halts_iff_witness: "\<exists>h. noza_os_reply 0 99 0 0 demo = Inl h"
  using reply_halts_iff [OF demo_kinv, of 0 99 0 0] by (auto simp: demo_thread_def)

end
