(* ===== verification/Wait_Queue.thy ===== *)
theory Wait_Queue
  imports Ipc
begin

text \<open>
  Wait queues (\<^verbatim>\<open>noza_wait_queue_t\<close> in \<^verbatim>\<open>kernel/noza_os.c\<close>), on which threads block in futexes and
  timers, with an optional time-out that also puts the thread on the \<^verbatim>\<open>sync_sleep\<close> list.
\<close>

section \<open>Operations\<close>

definition noza_wait_queue_init :: "wqid \<Rightarrow> kstate \<Rightarrow> kstate" where
  "noza_wait_queue_init w = upd_wq w (\<lambda>_. [])"

definition noza_wait_queue_enqueue :: "wqid \<Rightarrow> pid \<Rightarrow> kstate \<Rightarrow> kstate res" where
  "noza_wait_queue_enqueue w p s =
     (if p \<in> set (wqs s w) then Inl List_corrupt
      else Inr (upd_thread p (\<lambda>t. t\<lparr>waiting_queue := Some w\<rparr>) (upd_wq w (\<lambda>xs. xs @ [p]) s)))"

definition noza_wait_queue_remove :: "wqid \<Rightarrow> pid \<Rightarrow> kstate \<Rightarrow> kstate res" where
  "noza_wait_queue_remove w p s =
     (if waiting_queue (thread s p) \<noteq> Some w then Inr s
      else if p \<notin> set (wqs s w) then Inl List_corrupt
      else Inr (upd_thread p (\<lambda>t. t\<lparr>waiting_queue := None\<rparr>) (upd_wq w (remove1 p) s)))"

definition noza_wait_queue_cancel_timeout :: "pid \<Rightarrow> kstate \<Rightarrow> kstate res" where
  "noza_wait_queue_cancel_timeout p s =
     (if flags (thread s p) AND FLAG_WAIT_TIMEOUT \<noteq> 0 \<and> th_state (thread s p) = THREAD_WAITING_SYNC
      then bindE (noza_os_remove_thread L_sync_sleep p s)
             (\<lambda>s1. Inr (upd_thread p (\<lambda>t. t\<lparr>flags := flags t AND NOT FLAG_WAIT_TIMEOUT\<rparr>) s1))
      else Inr s)"

text \<open>The loop of \<^verbatim>\<open>noza_wait_queue_wake\<close>: the head of the queue is woken until \<open>count\<close> threads are or the
  queue is empty.\<close>

fun wait_queue_wake_loop :: "nat \<Rightarrow> wqid \<Rightarrow> nat \<Rightarrow> u32 \<Rightarrow> nat \<Rightarrow> kstate \<Rightarrow> (nat \<times> kstate) res" where
  "wait_queue_wake_loop n w count result woke s =
     (case wqs s w of
        [] \<Rightarrow> Inr (woke, s)
      | th # _ \<Rightarrow>
          if woke < count then
            (case n of
               0 \<Rightarrow> Inl Diverge
             | Suc k \<Rightarrow>
                 bindE (noza_wait_queue_remove w th s) (\<lambda>s1.
                 bindE (noza_wait_queue_cancel_timeout th s1) (\<lambda>s2.
                 bindE (noza_os_add_thread (L_ready (priority (thread s2 th))) th s2) (\<lambda>s3.
                 wait_queue_wake_loop k w count result (woke + 1) (noza_os_set_return_value1 th result s3)))))
          else Inr (woke, s))"

declare wait_queue_wake_loop.simps [simp del]

definition noza_wait_queue_wake :: "wqid \<Rightarrow> nat \<Rightarrow> u32 \<Rightarrow> kstate \<Rightarrow> (nat \<times> kstate) res" where
  "noza_wait_queue_wake w count result s =
     (if count = 0 then Inr (0, s)
      else wait_queue_wake_loop (length (wqs s w)) w count result 0 s)"

definition noza_wait_queue_sleep :: "wqid \<Rightarrow> int \<Rightarrow> kstate \<Rightarrow> (u32 \<times> kstate) res" where
  "noza_wait_queue_sleep w timeout_us s =
     (case noza_os_get_running_thread s of
        None \<Rightarrow> Inr (EINVAL, s)
      | Some r \<Rightarrow>
          if timeout_us = 0 then Inr (ETIMEDOUT, s)
          else
            bindE (noza_wait_queue_enqueue w r s) (\<lambda>s1.
            let s2 = upd_thread r (\<lambda>t. t\<lparr>th_state := THREAD_WAITING_SYNC\<rparr>) s1
            in if timeout_us = NOZA_WAIT_FOREVER then
                 Inr (0, noza_os_clear_running_thread
                           (upd_thread r (\<lambda>t. t\<lparr>flags := flags t AND NOT FLAG_WAIT_TIMEOUT\<rparr>) s2))
               else if timeout_us > 0 then
                 bindE (noza_os_add_thread L_sync_sleep r
                          (upd_thread r (\<lambda>t. t\<lparr>flags := flags t OR FLAG_WAIT_TIMEOUT,
                             expired_time := int64 (clock s2 + timeout_us)\<rparr>) s2))
                   (\<lambda>s3. Inr (0, noza_os_clear_running_thread s3))
               else
                 bindE (noza_wait_queue_remove w r s2) (\<lambda>s3. Inr (ETIMEDOUT, s3))))"

section \<open>Taking a thread off a queue\<close>

definition unqueue :: "wqid \<Rightarrow> pid \<Rightarrow> kstate \<Rightarrow> kstate" where
  "unqueue w p s =
     (let s1 = upd_thread p (\<lambda>t. t\<lparr>waiting_queue := None\<rparr>) (upd_wq w (remove1 p) s)
      in if wait_timeout (thread s p)
         then upd_thread p (\<lambda>t. t\<lparr>flags := flags t AND NOT FLAG_WAIT_TIMEOUT\<rparr>)
                (upd_list L_sync_sleep (remove1 p) s1)
         else s1)"

lemma kinv_waiting_sync:
  assumes "kinv_ex X s" and "p < NOZA_OS_TASK_LIMIT" "p \<notin> X"
    and "th_state (thread s p) = THREAD_WAITING_SYNC"
  obtains w where "waiting_queue (thread s p) = Some w" and "on_wqs s p = {w}" and "p \<in> set (wqs s w)"
    and "on_lists s p = (if wait_timeout (thread s p) then {L_sync_sleep} else {})"
    and "on_cores s p = {}" and "joins s p = {}"
proof -
  from kinv_thread [OF assms(1-3)] assms(4) obtain w where w: "waiting_queue (thread s p) = Some w"
      "on_wqs s p = {w}" "on_lists s p = (if wait_timeout (thread s p) then {L_sync_sleep} else {})"
      "on_cores s p = {}" "joins s p = {}"
    by (auto simp: thread_ok_def)
  moreover from w(2) have "p \<in> set (wqs s w)" by (simp add: in_wqs_on)
  ultimately show thesis by (intro that)
qed

lemma unqueue_sel [simp]:
  "running (unqueue w p s) = running s"
  "cpu (unqueue w p s) = cpu s"
  "clock (unqueue w p s) = clock s"
  "timers (unqueue w p s) = timers s"
  "timer_q (unqueue w p s) = timer_q s"
  "wqs (unqueue w p s) = (wqs s)(w := remove1 p (wqs s w))"
  "lists (unqueue w p s) l = (if l = L_sync_sleep \<and> wait_timeout (thread s p)
     then remove1 p (lists s l) else lists s l)"
  "th_state (thread (unqueue w p s) q) = th_state (thread s q)"
  "priority (thread (unqueue w p s) q) = priority (thread s q)"
  "q \<noteq> p \<Longrightarrow> thread (unqueue w p s) q = thread s q"
  by (auto simp: unqueue_def Let_def)

lemma unqueue_ok:
  assumes inv: "kinv_ex X s" and p: "p < NOZA_OS_TASK_LIMIT" "p \<notin> X"
    and st: "th_state (thread s p) = THREAD_WAITING_SYNC" and w: "waiting_queue (thread s p) = Some w"
  shows "bindE (noza_wait_queue_remove w p s) (noza_wait_queue_cancel_timeout p) = Inr (unqueue w p s)"
    and "kinv_ex (insert p X) (unqueue w p s)" and "loose (unqueue w p s) p"
proof -
  note d = sched_ok_distinct [OF kinv_exD(1) [OF inv]]
  obtain w' where w': "waiting_queue (thread s p) = Some w'" "on_wqs s p = {w'}" "p \<in> set (wqs s w')"
      "on_lists s p = (if wait_timeout (thread s p) then {L_sync_sleep} else {})"
      "on_cores s p = {}" "joins s p = {}"
    using kinv_waiting_sync [OF inv p st] by blast
  from w w'(1) have [simp]: "w' = w" by simp
  from w'(4) have sl: "wait_timeout (thread s p) \<Longrightarrow> p \<in> set (lists s L_sync_sleep)"
    by (auto simp: on_lists_def)
  from w' sl st show "bindE (noza_wait_queue_remove w p s) (noza_wait_queue_cancel_timeout p)
      = Inr (unqueue w p s)"
    by (auto simp: noza_wait_queue_remove_def noza_wait_queue_cancel_timeout_def unqueue_def Let_def
      wait_timeout_def remove_thread_eq)
  let ?s1 = "upd_thread p (\<lambda>t. t\<lparr>waiting_queue := None\<rparr>) (upd_wq w (remove1 p) s)"
  have 1: "kinv_ex (insert p X) ?s1"
    using kinv_transit_thread [OF kinv_transit_wq [OF inv p(1)] p(1)] by simp
  have 2: "kinv_ex (insert p X) (upd_thread p (\<lambda>t. t\<lparr>flags := flags t AND NOT FLAG_WAIT_TIMEOUT\<rparr>)
      (upd_list L_sync_sleep (remove1 p) ?s1))"
    using kinv_transit_thread [OF kinv_transit_list [OF 1 p(1)] p(1)] by simp
  from 1 2 show "kinv_ex (insert p X) (unqueue w p s)" by (simp add: unqueue_def Let_def)
  from w' d show "loose (unqueue w p s) p"
    by (simp add: loose_def parked_def unqueue_def Let_def)
qed

definition sync_wake :: "wqid \<Rightarrow> pid \<Rightarrow> u32 \<Rightarrow> kstate \<Rightarrow> kstate" where
  "sync_wake w p result s =
     noza_os_set_return_value1 p result (put (L_ready (priority (thread s p))) p (unqueue w p s))"

text \<open>Removal from the queue, cancellation of the time-out and insertion into the ready list.\<close>

lemma sync_wake_ok:
  assumes inv: "kinv_ex X s" and p: "p < NOZA_OS_TASK_LIMIT" "p \<notin> X"
    and st: "th_state (thread s p) = THREAD_WAITING_SYNC" and w: "waiting_queue (thread s p) = Some w"
  shows "noza_os_add_thread (L_ready (priority (thread s p))) p (unqueue w p s)
      = Inr (put (L_ready (priority (thread s p))) p (unqueue w p s))"
    and "kinv_ex X (sync_wake w p result s)"
proof -
  note u = unqueue_ok [OF inv p st w]
  have park: "park_list (unqueue w p s) p (L_ready (priority (thread s p)))" by simp
  show "noza_os_add_thread (L_ready (priority (thread s p))) p (unqueue w p s)
      = Inr (put (L_ready (priority (thread s p))) p (unqueue w p s))"
    by (rule add_loose [OF u(2) p(1) u(3) park])
  from kinv_place [OF u(2) p(1) u(3) park] st p(2) show "kinv_ex X (sync_wake w p result s)"
    by (simp add: sync_wake_def)
qed

section \<open>Waking\<close>

lemma sync_wake_sel [simp]:
  "wqs (sync_wake w p result s) = (wqs s)(w := remove1 p (wqs s w))"
  "running (sync_wake w p result s) = running s"
  "cpu (sync_wake w p result s) = cpu s"
  "clock (sync_wake w p result s) = clock s"
  "timers (sync_wake w p result s) = timers s"
  "timer_q (sync_wake w p result s) = timer_q s"
  "lists (sync_wake w p result s) (L_ready i) =
     lists s (L_ready i) @ (if i = priority (thread s p) then [p] else [])"
  "th_state (thread (sync_wake w p result s) p) = THREAD_READY"
  "r0 (trap (thread (sync_wake w p result s) p)) = result"
  "trap_state (trap (thread (sync_wake w p result s) p)) = SYSCALL_OUTPUT"
  "priority (thread (sync_wake w p result s) q) = priority (thread s q)"
  "q \<noteq> p \<Longrightarrow> thread (sync_wake w p result s) q = thread s q"
  by (simp_all add: sync_wake_def lists_put noza_os_set_return_value1_def)

text \<open>What waking the threads \<open>ps\<close> of a queue, in this order, comes to.\<close>

definition woken :: "pid list \<Rightarrow> u32 \<Rightarrow> kstate \<Rightarrow> kstate \<Rightarrow> bool" where
  "woken ps result s s' \<longleftrightarrow>
     (\<forall>p \<in> set ps. th_state (thread s' p) = THREAD_READY \<and> r0 (trap (thread s' p)) = result)
     \<and> (\<forall>q. q \<notin> set ps \<longrightarrow> thread s' q = thread s q)
     \<and> (\<forall>i. lists s' (L_ready i) = lists s (L_ready i) @ filter (\<lambda>p. priority (thread s p) = i) ps)
     \<and> running s' = running s \<and> cpu s' = cpu s \<and> clock s' = clock s
     \<and> timers s' = timers s \<and> timer_q s' = timer_q s"

lemma woken_Nil [simp]: "woken [] result s s"
  by (simp add: woken_def)

lemma woken_Cons:
  assumes "woken ps result (sync_wake w p result s) s'" and "p \<notin> set ps"
  shows "woken (p # ps) result s s'"
  using assms by (auto simp: woken_def)

lemma kinv_in_wq:
  assumes inv: "kinv_ex X s" and p: "p \<in> set (wqs s w)" "p \<notin> X"
  shows "p < NOZA_OS_TASK_LIMIT" and "th_state (thread s p) = THREAD_WAITING_SYNC"
    and "waiting_queue (thread s p) = Some w"
proof -
  show lt: "p < NOZA_OS_TASK_LIMIT" by (rule sched_ok_in_wq [OF kinv_exD(1) [OF inv] p(1)])
  note th = thread_ok_in_wq [OF kinv_thread [OF inv lt p(2)] p(1)]
  show "th_state (thread s p) = THREAD_WAITING_SYNC" and "waiting_queue (thread s p) = Some w"
    by (rule th)+
qed

lemma wake_loop_step:
  assumes inv: "kinv_ex X s" and q: "wqs s w = p # ps" "p \<notin> X" and c: "woke < count"
  shows "wait_queue_wake_loop (Suc k) w count result woke s
      = wait_queue_wake_loop k w count result (Suc woke) (sync_wake w p result s)"
proof -
  from q have "p \<in> set (wqs s w)" by simp
  note th = kinv_in_wq [OF inv this q(2)]
  note u = unqueue_ok(1) [OF inv th(1) q(2) th(2,3)]
  note a = sync_wake_ok(1) [OF inv th(1) q(2) th(2,3)]
  from u have *: "bindE (noza_wait_queue_remove w p s) (\<lambda>s1. bindE (noza_wait_queue_cancel_timeout p s1) f)
      = f (unqueue w p s)" for f :: "kstate \<Rightarrow> (nat \<times> kstate) res"
    by (metis bindE.simps(2) bindE_assoc)
  show ?thesis
    using q c a by (simp add: wait_queue_wake_loop.simps [of "Suc k"] * sync_wake_def)
qed

lemma wake_loop_ok:
  assumes "kinv_ex X s" and "wqs s w = ps" and "set ps \<inter> X = {}" and "length ps \<le> n"
  shows "ok (wait_queue_wake_loop n w count result woke s)
           (\<lambda>(m, s'). m = woke + min (count - woke) (length ps) \<and> kinv_ex X s'
              \<and> wqs s' = (wqs s)(w := drop (count - woke) ps) \<and> woken (take (count - woke) ps) result s s')"
  using assms
proof (induction ps arbitrary: s n woke)
  case Nil
  then show ?case by (simp add: wait_queue_wake_loop.simps fun_upd_idem)
next
  case (Cons p ps)
  show ?case
  proof (cases "woke < count")
    case False
    with Cons.prems(1,2) show ?thesis by (simp add: wait_queue_wake_loop.simps fun_upd_idem)
  next
    case True
    from Cons.prems(4) obtain k where k: "n = Suc k" "length ps \<le> k" by (cases n) auto
    have X: "p \<notin> X" "set ps \<inter> X = {}" using Cons.prems(3) by auto
    have "p \<in> set (wqs s w)" using Cons.prems(2) by simp
    note th = kinv_in_wq [OF Cons.prems(1) this X(1)]
    let ?s = "sync_wake w p result s"
    have d: "p \<notin> set ps"
      using sched_ok_distinct(2) [OF kinv_exD(1) [OF Cons.prems(1)], of w] Cons.prems(2) by simp
    have q: "wqs ?s w = ps" using Cons.prems(2) by simp
    have c: "count - woke = Suc (count - Suc woke)" using True by simp
    note IH = Cons.IH [OF sync_wake_ok(2) [OF Cons.prems(1) th(1) X(1) th(2,3)] q X(2) k(2),
        where woke = "Suc woke"]
    have mono: "woken (p # take (count - Suc woke) ps) result s s'"
      if "woken (take (count - Suc woke) ps) result ?s s'" for s'
      using woken_Cons [OF that] d by (meson in_set_takeD)
    show ?thesis unfolding k(1) wake_loop_step [OF Cons.prems(1,2) X(1) True] c
      by (rule ok_mono [OF IH]) (use mono in auto)
  qed
qed

lemma wait_queue_wake_ok:
  assumes "kinv_ex X s" and "set (wqs s w) \<inter> X = {}"
  shows "ok (noza_wait_queue_wake w count result s)
           (\<lambda>(m, s'). m = min count (length (wqs s w)) \<and> kinv_ex X s'
              \<and> wqs s' = (wqs s)(w := drop count (wqs s w)) \<and> woken (take count (wqs s w)) result s s')"
  using wake_loop_ok [OF assms(1) refl assms(2) order_refl, where count = count and result = result and woke = 0] assms(1)
  by (simp add: noza_wait_queue_wake_def fun_upd_idem)

section \<open>Sleeping\<close>

text \<open>The running thread at the end of a queue, with and without a time-out.\<close>

definition queued_on :: "wqid \<Rightarrow> pid \<Rightarrow> kstate \<Rightarrow> kstate" where
  "queued_on w r s =
     upd_thread r (\<lambda>t. t\<lparr>th_state := THREAD_WAITING_SYNC\<rparr>)
       (upd_thread r (\<lambda>t. t\<lparr>waiting_queue := Some w\<rparr>) (upd_wq w (\<lambda>xs. xs @ [r]) s))"

definition slept_forever :: "wqid \<Rightarrow> pid \<Rightarrow> kstate \<Rightarrow> kstate" where
  "slept_forever w r s =
     upd_thread r (\<lambda>t. t\<lparr>flags := flags t AND NOT FLAG_WAIT_TIMEOUT\<rparr>) (queued_on w r s)"

definition slept_until :: "int \<Rightarrow> wqid \<Rightarrow> pid \<Rightarrow> kstate \<Rightarrow> kstate" where
  "slept_until e w r s =
     put L_sync_sleep r (upd_thread r (\<lambda>t. t\<lparr>flags := flags t OR FLAG_WAIT_TIMEOUT, expired_time := e\<rparr>)
       (queued_on w r s))"

lemma timeout_flag [simp]:
  "\<not> wait_timeout (t\<lparr>flags := f AND NOT FLAG_WAIT_TIMEOUT\<rparr>)"
  "wait_timeout (t\<lparr>flags := f OR FLAG_WAIT_TIMEOUT\<rparr>)"
  "wait_timeout (t\<lparr>th_state := st\<rparr>) = wait_timeout t"
  "wait_timeout (t\<lparr>expired_time := e\<rparr>) = wait_timeout t"
proof -
  have 1: "(f AND NOT FLAG_WAIT_TIMEOUT) AND FLAG_WAIT_TIMEOUT = 0"
    by (rule bit_word_eqI) (auto simp: bit_simps)
  have "(f OR FLAG_WAIT_TIMEOUT) AND FLAG_WAIT_TIMEOUT = FLAG_WAIT_TIMEOUT"
    by (rule bit_word_eqI) (auto simp: bit_simps)
  with 1 show "\<not> wait_timeout (t\<lparr>flags := f AND NOT FLAG_WAIT_TIMEOUT\<rparr>)"
    "wait_timeout (t\<lparr>flags := f OR FLAG_WAIT_TIMEOUT\<rparr>)"
    by (simp_all add: wait_timeout_def)
qed (simp_all add: wait_timeout_def)

lemmas timeout_flag_cleared [simp] = timeout_flag(1) [simplified]

lemma queued_on_kinv:
  assumes inv: "kinv_ex X s" and r: "running s c = Some r" "r \<notin> X" and w: "wq_in_use w s"
  shows "kinv_ex (insert r X) (queued_on w r s)"
proof -
  note lt = kinv_running(1) [OF inv r] and th = thread_ok_running [OF kinv_running(2) [OF inv r] r(1)]
  have nw: "r \<notin> set (wqs s w)" using th(3) by (auto simp: on_wqs_def)
  have 1: "kinv_ex (insert r X) (upd_thread r (\<lambda>t. t\<lparr>waiting_queue := Some w\<rparr>) (upd_wq w (\<lambda>xs. xs @ [r]) s))"
    using kinv_transit_thread [OF kinv_transit_wq_add [OF inv lt nw w] lt] by simp
  show ?thesis
    unfolding queued_on_def using kinv_transit_state [OF 1 lt] th(1) by (simp add: live_def)
qed

lemma slept_kinv:
  assumes inv: "kinv s" and r: "running s (cpu s) = Some r" and w: "wq_in_use w s"
  shows "kinv (noza_os_clear_running_thread (slept_forever w r s))"
    and "kinv (noza_os_clear_running_thread (slept_until e w r s))"
    and "noza_os_add_thread L_sync_sleep r (upd_thread r (\<lambda>t. t\<lparr>flags := flags t OR FLAG_WAIT_TIMEOUT, expired_time := e\<rparr>)
       (queued_on w r s)) = Inr (slept_until e w r s)"
proof -
  note lt = kinv_running(1) [OF inv r] and th = thread_ok_running [OF kinv_running(2) [OF inv r] r]
  note q = queued_on_kinv [OF inv r _ w]
  have 1: "kinv_ex (insert r {}) (slept_forever w r s)"
    unfolding slept_forever_def using kinv_transit_thread [OF q lt] by simp
  have "thread_ok (noza_os_clear_running_thread (slept_forever w r s)) r"
    using th r by (simp add: thread_ok_def slept_forever_def queued_on_def)
  from kinv_clear_running [OF 1 lt _ this] r
  show "kinv (noza_os_clear_running_thread (slept_forever w r s))"
    by (simp add: slept_forever_def queued_on_def)
  let ?s = "upd_thread r (\<lambda>t. t\<lparr>flags := flags t OR FLAG_WAIT_TIMEOUT, expired_time := e\<rparr>) (queued_on w r s)"
  have 2: "kinv_ex {r} ?s" using kinv_transit_thread [OF q lt] by simp
  have nl: "r \<notin> set (lists ?s L_sync_sleep)" using th(2) by (simp add: queued_on_def not_on_lists)
  from nl show "noza_os_add_thread L_sync_sleep r ?s = Inr (slept_until e w r s)"
    by (simp add: slept_until_def add_thread_put)
  have 3: "kinv_ex (insert r {}) (slept_until e w r s)"
    unfolding slept_until_def using kinv_transit_sync_sleep [OF 2 lt nl] by (simp add: live_def queued_on_def)
  have "thread_ok (noza_os_clear_running_thread (slept_until e w r s)) r"
    using th r by (simp add: thread_ok_def slept_until_def queued_on_def)
  from kinv_clear_running [OF 3 lt _ this] r
  show "kinv (noza_os_clear_running_thread (slept_until e w r s))"
    by (simp add: slept_until_def queued_on_def)
qed

lemma wait_queue_sleep_eq:
  assumes inv: "kinv s" and r: "running s (cpu s) = Some r" and w: "wq_in_use w s"
  shows "timeout = 0 \<Longrightarrow> noza_wait_queue_sleep w timeout s = Inr (ETIMEDOUT, s)"
    and "noza_wait_queue_sleep w NOZA_WAIT_FOREVER s
      = Inr (0, noza_os_clear_running_thread (slept_forever w r s))"
    and "timeout > 0 \<Longrightarrow> noza_wait_queue_sleep w timeout s
      = Inr (0, noza_os_clear_running_thread (slept_until (int64 (clock s + timeout)) w r s))"
proof -
  note th = thread_ok_running [OF kinv_running(2) [OF inv r] r]
  have enq: "noza_wait_queue_enqueue w r s
      = Inr (upd_thread r (\<lambda>t. t\<lparr>waiting_queue := Some w\<rparr>) (upd_wq w (\<lambda>xs. xs @ [r]) s))"
    using th(3) by (auto simp: noza_wait_queue_enqueue_def on_wqs_def)
  show "timeout = 0 \<Longrightarrow> noza_wait_queue_sleep w timeout s = Inr (ETIMEDOUT, s)"
    using r by (simp add: noza_wait_queue_sleep_def noza_os_get_running_thread_def)
  show "noza_wait_queue_sleep w NOZA_WAIT_FOREVER s
      = Inr (0, noza_os_clear_running_thread (slept_forever w r s))"
    using r by (simp add: noza_wait_queue_sleep_def noza_os_get_running_thread_def enq slept_forever_def
      queued_on_def Let_def)
  have c: "clock (queued_on w r s) = clock s" by (simp add: queued_on_def)
  show "timeout > 0 \<Longrightarrow> noza_wait_queue_sleep w timeout s
      = Inr (0, noza_os_clear_running_thread (slept_until (int64 (clock s + timeout)) w r s))"
    using r slept_kinv(3) [OF inv r w, of "int64 (clock s + timeout)"]
    unfolding noza_wait_queue_sleep_def noza_os_get_running_thread_def
    by (simp add: enq queued_on_def [symmetric] c Let_def)
qed

lemma wait_queue_sleep_kinv:
  assumes "kinv s" and "running s (cpu s) = Some r" and "wq_in_use w s" and "timeout \<ge> -1"
  shows "ok (noza_wait_queue_sleep w timeout s) (\<lambda>(ret, s'). kinv s' \<and> cpu s' = cpu s
           \<and> (if timeout = 0 then ret = ETIMEDOUT \<and> s' = s else ret = 0 \<and> running s' (cpu s) = None))"
proof -
  consider "timeout = 0" | "timeout = -1" | "timeout > 0" using assms(4) by linarith
  then show ?thesis
    using wait_queue_sleep_eq [OF assms(1-3)] slept_kinv [OF assms(1-3)] assms(1)
    by cases (simp_all add: slept_forever_def slept_until_def queued_on_def)
qed

end
