(* ===== verification/Futex.thy ===== *)
theory Futex
  imports Wait_Queue
begin

text \<open>
  Futexes (\<^verbatim>\<open>kernel/noza_os.c\<close>): the table of 64 slots that maps user addresses to wait queues by linear
  probing, and the two system calls on it.
\<close>

section \<open>Operations\<close>

definition noza_futex_hash :: "u32 \<Rightarrow> u32" where
  "noza_futex_hash key =
     (let k1 = key XOR drop_bit 4 key;
          k2 = k1 XOR drop_bit 9 k1;
          k3 = k2 XOR drop_bit 16 k2
      in k3 AND (of_nat NOZA_FUTEX_SLOT_COUNT - 1))"

definition futex_index :: "u32 \<Rightarrow> nat \<Rightarrow> nat" where
  "futex_index key i = unat ((noza_futex_hash key + of_nat i) AND (of_nat NOZA_FUTEX_SLOT_COUNT - 1))"

text \<open>The body of the probing loop for the indices left.\<close>

fun futex_probe :: "nat list \<Rightarrow> u32 \<Rightarrow> bool \<Rightarrow> kstate \<Rightarrow> wqid option \<times> kstate" where
  "futex_probe [] key create s = (None, s)"
| "futex_probe (idx # js) key create s =
     (let sl = futex_slots s idx
      in if fx_in_use sl \<and> fx_key sl = key then (Some (W_futex idx), s)
         else if \<not> fx_in_use sl \<and> create then
           (Some (W_futex idx),
            noza_wait_queue_init (W_futex idx)
              (s\<lparr>futex_slots := (futex_slots s)(idx := sl\<lparr>fx_in_use := True, fx_key := key\<rparr>)\<rparr>))
         else if \<not> fx_in_use sl \<and> \<not> create then (None, s)
         else futex_probe js key create s)"

definition noza_futex_get_queue :: "u32 \<Rightarrow> bool \<Rightarrow> kstate \<Rightarrow> wqid option \<times> kstate" where
  "noza_futex_get_queue addr create s =
     (if addr = 0 then (None, s)
      else futex_probe (map (futex_index addr) [0..<NOZA_FUTEX_SLOT_COUNT]) addr create s)"

definition syscall_futex_wait :: "pid \<Rightarrow> kstate \<Rightarrow> kstate res" where
  "syscall_futex_wait r s =
     (let addr = r1 (trap (thread s r));
          expected = r2 (trap (thread s r));
          timeout_us = sint (r3 (trap (thread s r)))
      in if addr = 0 then Inr (noza_os_set_return_value1 r EINVAL s)
         else if umem s addr \<noteq> expected then Inr (noza_os_set_return_value1 r EAGAIN s)
         else
           (case noza_futex_get_queue addr True s of
              (None, s1) \<Rightarrow> Inr (noza_os_set_return_value1 r ENOMEM s1)
            | (Some queue, s1) \<Rightarrow>
                let wait_time = (if timeout_us < 0 then NOZA_WAIT_FOREVER else timeout_us)
                in bindE (noza_wait_queue_sleep queue wait_time s1)
                     (\<lambda>(ret, s2). Inr (if ret \<noteq> 0 then noza_os_set_return_value1 r ret s2 else s2))))"

definition syscall_futex_wake :: "pid \<Rightarrow> kstate \<Rightarrow> kstate res" where
  "syscall_futex_wake r s =
     (let addr = r1 (trap (thread s r));
          count = r2 (trap (thread s r))
      in if addr = 0 \<or> count = 0 then Inr (noza_os_set_return_value1 r 0 s)
         else
           (case noza_futex_get_queue addr False s of
              (None, s1) \<Rightarrow> Inr (noza_os_set_return_value1 r 0 s1)
            | (Some queue, s1) \<Rightarrow>
                bindE (noza_wait_queue_wake queue (unat count) 0 s1)
                  (\<lambda>(woke, s2). Inr (noza_os_set_return_value1 r (of_nat woke) s2))))"

section \<open>The slot table\<close>

text \<open>Slot \<open>i\<close> belongs to the address \<open>a\<close>: it is in use for it, and every slot probed before it is in use
  for another address.\<close>

definition futex_at :: "u32 \<Rightarrow> nat \<Rightarrow> kstate \<Rightarrow> bool" where
  "futex_at a i s \<longleftrightarrow> a \<noteq> 0 \<and> fx_in_use (futex_slots s i) \<and> fx_key (futex_slots s i) = a
     \<and> (\<exists>n < NOZA_FUTEX_SLOT_COUNT. futex_index a n = i \<and>
          (\<forall>m < n. fx_in_use (futex_slots s (futex_index a m)) \<and> fx_key (futex_slots s (futex_index a m)) \<noteq> a))"

text \<open>Slots in use stay in use for the same address.\<close>

definition slots_grow :: "kstate \<Rightarrow> kstate \<Rightarrow> bool" where
  "slots_grow s s' \<longleftrightarrow> (\<forall>i. fx_in_use (futex_slots s i) \<longrightarrow> futex_slots s' i = futex_slots s i)"

lemma futex_at_grow: "futex_at a i s \<Longrightarrow> slots_grow s s' \<Longrightarrow> futex_at a i s'"
  by (auto simp: futex_at_def slots_grow_def)

definition new_slot :: "nat \<Rightarrow> u32 \<Rightarrow> kstate \<Rightarrow> kstate" where
  "new_slot i a s = noza_wait_queue_init (W_futex i)
     (s\<lparr>futex_slots := (futex_slots s)(i := (futex_slots s i)\<lparr>fx_in_use := True, fx_key := a\<rparr>)\<rparr>)"

text \<open>Probing passes over the slots of other addresses.\<close>

definition passed :: "u32 \<Rightarrow> kstate \<Rightarrow> nat \<Rightarrow> bool" where
  "passed a s i \<longleftrightarrow> fx_in_use (futex_slots s i) \<and> fx_key (futex_slots s i) \<noteq> a"

lemma futex_probe_eq:
  "futex_probe js a c s =
     (case dropWhile (passed a s) js of
        [] \<Rightarrow> (None, s)
      | i # _ \<Rightarrow> if fx_in_use (futex_slots s i) then (Some (W_futex i), s)
                 else if c then (Some (W_futex i), new_slot i a s) else (None, s))"
  by (induction js) (auto simp: passed_def new_slot_def Let_def)

lemma dropWhile_nth_first:
  assumes "dropWhile P xs = y # ys"
  obtains n where "n < length xs" and "xs ! n = y" and "\<forall>m < n. P (xs ! m)" and "\<not> P y"
proof (rule that [of "length (takeWhile P xs)"])
  have xs: "xs = takeWhile P xs @ y # ys" using assms takeWhile_dropWhile_id [of P xs] by simp
  then have "length xs = length (takeWhile P xs @ y # ys)" by (rule arg_cong)
  then show "length (takeWhile P xs) < length xs" by simp
  from xs show "xs ! length (takeWhile P xs) = y" by (metis nth_append_length)
  show "\<forall>m < length (takeWhile P xs). P (xs ! m)"
    by (metis nth_mem set_takeWhileD takeWhile_nth)
  show "\<not> P y" using assms by (metis hd_dropWhile list.discI list.sel(1))
qed

text \<open>What the look-up of an address gives.\<close>

lemma futex_get_queue_cases:
  obtains (none) "noza_futex_get_queue a c s = (None, s)"
  | (found) i where "noza_futex_get_queue a c s = (Some (W_futex i), s)" and "futex_at a i s"
  | (new) i where "noza_futex_get_queue a c s = (Some (W_futex i), new_slot i a s)" and "c"
      and "\<not> fx_in_use (futex_slots s i)" and "futex_at a i (new_slot i a s)"
proof -
  let ?js = "map (futex_index a) [0..<NOZA_FUTEX_SLOT_COUNT]"
  show thesis
  proof (cases "a = 0 \<or> dropWhile (passed a s) ?js = []")
    case True
    then show thesis
      by (intro none) (auto simp: noza_futex_get_queue_def futex_probe_eq simp del: dropWhile_eq_Nil_conv)
  next
    case False
    then obtain i bs where dw: "dropWhile (passed a s) ?js = i # bs" and a: "a \<noteq> 0"
      by (auto simp: neq_Nil_conv simp del: dropWhile_eq_Nil_conv)
    from dropWhile_nth_first [OF dw] obtain n where n: "n < NOZA_FUTEX_SLOT_COUNT" "futex_index a n = i"
        "\<forall>m < n. passed a s (futex_index a m)" "\<not> passed a s i"
      by (auto simp del: upt.simps)
    have probe: "noza_futex_get_queue a c s =
        (if fx_in_use (futex_slots s i) then (Some (W_futex i), s)
         else if c then (Some (W_futex i), new_slot i a s) else (None, s))"
      using a dw by (simp add: noza_futex_get_queue_def futex_probe_eq)
    show thesis
    proof (cases "fx_in_use (futex_slots s i)")
      case True
      with n a have "futex_at a i s" by (auto simp: futex_at_def passed_def)
      with True probe show thesis by (intro found) simp_all
    next
      case False
      with n(3) have "\<forall>m < n. futex_index a m \<noteq> i" by (auto simp: passed_def)
      with n a have "futex_at a i (new_slot i a s)"
        by (auto simp: futex_at_def passed_def new_slot_def noza_wait_queue_init_def)
      with False probe show thesis by (cases c) (auto intro: none new)
    qed
  qed
qed

lemma futex_get_queue_at:
  assumes "futex_at a i s"
  shows "noza_futex_get_queue a c s = (Some (W_futex i), s)"
proof -
  from assms obtain n where n: "n < NOZA_FUTEX_SLOT_COUNT" "futex_index a n = i" "a \<noteq> 0"
      "\<forall>m < n. passed a s (futex_index a m)" "fx_in_use (futex_slots s i)" "\<not> passed a s i"
    by (auto simp: futex_at_def passed_def)
  let ?f = "futex_index a"
  have "[0..<NOZA_FUTEX_SLOT_COUNT] = [0..<n] @ n # [Suc n..<NOZA_FUTEX_SLOT_COUNT]"
    using n(1) upt_add_eq_append [of 0 n "NOZA_FUTEX_SLOT_COUNT - n"] upt_conv_Cons [OF n(1)] by simp
  then have "map ?f [0..<NOZA_FUTEX_SLOT_COUNT]
      = map ?f [0..<n] @ ?f n # map ?f [Suc n..<NOZA_FUTEX_SLOT_COUNT]"
    by (metis list.simps(9) map_append)
  moreover have "dropWhile (passed a s) (map ?f [0..<n] @ zs) = dropWhile (passed a s) zs" for zs
    using n(4) by (intro dropWhile_append2) auto
  ultimately show ?thesis
    using n by (simp add: noza_futex_get_queue_def futex_probe_eq del: upt.simps upt_rec_numeral)
qed

lemma futex_get_queue_grow: "noza_futex_get_queue a c s = (q, s') \<Longrightarrow> slots_grow s s'"
  by (rule futex_get_queue_cases [of a c s]) (auto simp: slots_grow_def new_slot_def noza_wait_queue_init_def)

section \<open>The invariant\<close>

lemma new_slot_kinv:
  assumes inv: "kinv_ex X s" and "\<not> fx_in_use (futex_slots s i)"
  shows "kinv_ex X (new_slot i a s)"
proof -
  let ?s' = "new_slot i a s"
  have w: "wqs ?s' = wqs s"
    using assms kinv_exD(5) [OF inv] by (auto simp: new_slot_def noza_wait_queue_init_def timers_ok_def)
  have sel: "lists ?s' = lists s" "running ?s' = running s" "thread ?s' = thread s" "slot ?s' = slot s"
      "free_vid_map ?s' = free_vid_map s" "next_vid ?s' = next_vid s" "timers ?s' = timers s"
      "timer_q ?s' = timer_q s" "reserved_vid0_assigned ?s' = reserved_vid0_assigned s"
      "\<And>j. fx_in_use (futex_slots s j) \<Longrightarrow> fx_in_use (futex_slots ?s' j)"
    by (auto simp: new_slot_def noza_wait_queue_init_def)
  have "sched_ok X ?s'"
    by (rule sched_ok_same [OF kinv_exD(1) [OF inv] sel(1) w])
       (simp add: conf_def on_lists_def on_wqs_def on_cores_def joins_def sel w)
  moreover have "timers_ok ?s'"
    using kinv_exD(5) [OF inv] sel(10) unfolding timers_ok_def sel w by blast
  ultimately show ?thesis
    using kinv_exD [OF inv]
    by (simp add: kinv_ex_def prio_ok_def owners_ok_def vid_ok_def get_thread_by_vid_def used_def sel)
qed

lemma futex_get_queue_kinv:
  assumes "kinv_ex X s" and "noza_futex_get_queue a c s = (q, s')"
  shows "kinv_ex X s'" and "running s' = running s" and "cpu s' = cpu s" and "thread s' = thread s"
    and "lists s' = lists s" and "clock s' = clock s" and "q = Some w \<Longrightarrow> wq_in_use w s'"
proof -
  have "kinv_ex X s' \<and> running s' = running s \<and> cpu s' = cpu s \<and> thread s' = thread s \<and> lists s' = lists s
      \<and> clock s' = clock s \<and> (q = Some w \<longrightarrow> wq_in_use w s')"
    by (rule futex_get_queue_cases [of a c s])
       (use assms new_slot_kinv [OF assms(1)] in
         \<open>auto simp: futex_at_def new_slot_def noza_wait_queue_init_def\<close>)
  then show "kinv_ex X s'" and "running s' = running s" and "cpu s' = cpu s" and "thread s' = thread s"
    and "lists s' = lists s" and "clock s' = clock s" and "q = Some w \<Longrightarrow> wq_in_use w s'"
    by simp_all
qed

lemma futex_wait_kinv:
  assumes "kinv s" and "running s (cpu s) = Some r"
  shows "ok (syscall_futex_wait r s) kinv"
proof (cases "noza_futex_get_queue (r1 (trap (thread s r))) True s")
  case (Pair q s1)
  note g = futex_get_queue_kinv [OF assms(1) Pair]
  have r: "running s1 (cpu s1) = Some r" using assms(2) g by simp
  show ?thesis
  proof (cases q)
    case None
    with Pair g assms(1) show ?thesis by (simp add: syscall_futex_wait_def Let_def)
  next
    case (Some w)
    have "ok (noza_wait_queue_sleep w t s1)
        (\<lambda>(ret, s2). kinv (if ret \<noteq> 0 then noza_os_set_return_value1 r ret s2 else s2))" if "t \<ge> -1" for t
      by (rule ok_mono [OF wait_queue_sleep_kinv [OF g(1) r g(7) [OF Some] that]]) auto
    with Pair Some assms(1) show ?thesis
      by (simp add: syscall_futex_wait_def Let_def split_def)
  qed
qed

lemma futex_wake_kinv:
  assumes "kinv s"
  shows "ok (syscall_futex_wake r s) kinv"
proof (cases "noza_futex_get_queue (r1 (trap (thread s r))) False s")
  case (Pair q s1)
  note g = futex_get_queue_kinv [OF assms(1) Pair]
  show ?thesis
  proof (cases q)
    case None
    with Pair g assms show ?thesis by (simp add: syscall_futex_wake_def Let_def)
  next
    case (Some w)
    have "ok (noza_wait_queue_wake w n 0 s1)
        (\<lambda>(m, s2). kinv (noza_os_set_return_value1 r (of_nat m) s2))" for n
      by (rule ok_mono [OF wait_queue_wake_ok [OF g(1)]]) auto
    with Pair Some assms show ?thesis
      by (simp add: syscall_futex_wake_def Let_def split_def)
  qed
qed

section \<open>Properties\<close>

lemma futex_wake_woken:
  assumes inv: "kinv s" and at: "futex_at (r1 (trap (thread s r))) i s" and n: "r2 (trap (thread s r)) \<noteq> 0"
  defines "ws \<equiv> wqs s (W_futex i)" and "k \<equiv> unat (r2 (trap (thread s r)))"
  obtains s1 where "syscall_futex_wake r s = Inr (noza_os_set_return_value1 r (of_nat (min k (length ws))) s1)"
    and "kinv s1" and "wqs s1 = (wqs s)(W_futex i := drop k ws)" and "woken (take k ws) 0 s s1"
proof -
  have a: "r1 (trap (thread s r)) \<noteq> 0" using at by (simp add: futex_at_def)
  obtain m s1 where s1: "noza_wait_queue_wake (W_futex i) k 0 s = Inr (m, s1)" "m = min k (length ws)"
      "kinv s1" "wqs s1 = (wqs s)(W_futex i := drop k ws)" "woken (take k ws) 0 s s1"
    using ok_value [OF wait_queue_wake_ok [OF inv, of "W_futex i" k 0]] by (auto simp: ws_def)
  show thesis
    by (rule that [OF _ s1(3-5)])
       (use s1(1,2) a n futex_get_queue_at [OF at, of False] in \<open>simp add: syscall_futex_wake_def Let_def k_def\<close>)
qed

text \<open>C9: A wake-up of a futex wakes exactly as many waiters as asked for, or all if there are fewer, in the
  order in which they began to wait: they become ready with result 0, the others keep waiting, and the
  caller gets the number of threads woken.\<close>

theorem futex_wake_exact:
  assumes inv: "kinv s" and r: "running s (cpu s) = Some r" and at: "futex_at (r1 (trap (thread s r))) i s"
    and n: "r2 (trap (thread s r)) \<noteq> 0"
  defines "ws \<equiv> wqs s (W_futex i)" and "k \<equiv> unat (r2 (trap (thread s r)))"
  shows "\<exists>s'. syscall_futex_wake r s = Inr s' \<and> kinv s' \<and> wqs s' (W_futex i) = drop k ws
    \<and> (\<forall>p \<in> set (take k ws). th_state (thread s' p) = THREAD_READY \<and> r0 (trap (thread s' p)) = 0)
    \<and> (\<forall>p \<in> set (drop k ws). thread s' p = thread s p)
    \<and> (\<forall>j. lists s' (L_ready j) = lists s (L_ready j) @ filter (\<lambda>p. priority (thread s p) = j) (take k ws))
    \<and> r0 (trap (thread s' r)) = of_nat (min k (length ws))"
proof -
  have d: "distinct ws" unfolding ws_def by (rule sched_ok_distinct(2) [OF kinv_exD(1) [OF inv]])
  have nr: "r \<notin> set ws"
    using thread_ok_running(3) [OF kinv_running(2) [OF inv r] r] by (auto simp: ws_def on_wqs_def)
  obtain s1 where s1: "syscall_futex_wake r s = Inr (noza_os_set_return_value1 r (of_nat (min k (length ws))) s1)"
      "kinv s1" "wqs s1 = (wqs s)(W_futex i := drop k ws)" "woken (take k ws) 0 s s1"
    using futex_wake_woken [OF inv at n] unfolding ws_def k_def by metis
  let ?s = "noza_os_set_return_value1 r (of_nat (min k (length ws))) s1"
  have ne: "p \<noteq> r" if "p \<in> set (take k ws) \<or> p \<in> set (drop k ws)" for p
    using that nr by (auto dest: in_set_takeD in_set_dropD)
  have "p \<notin> set (take k ws)" if "p \<in> set (drop k ws)" for p
    using d that by (metis IntI append_take_drop_id distinct_append empty_iff)
  with s1 ne show ?thesis
    by (intro exI [of _ ?s])
       (simp add: woken_def noza_os_set_return_value1_def kinv_ex_upd_thread_same core_of_def)
qed

lemma demo_futex: "futex_at 0x20000100 1 demo"
proof -
  have i: "futex_index 0x20000100 0 = 1" by (simp add: futex_index_def noza_futex_hash_def Let_def)
  then show ?thesis unfolding futex_at_def by (intro conjI exI [of _ 0]) simp_all
qed

theorem futex_wake_exact_witness:
  "\<exists>s'. syscall_futex_wake 0 (upd_thread 0 (\<lambda>t. t\<lparr>trap := (trap t)\<lparr>r1 := 0x20000100, r2 := 1\<rparr>\<rparr>) demo) = Inr s'
     \<and> wqs s' (W_futex 1) = [8] \<and> th_state (thread s' 7) = THREAD_READY \<and> r0 (trap (thread s' 0)) = 1"
proof -
  let ?s = "upd_thread 0 (\<lambda>t. t\<lparr>trap := (trap t)\<lparr>r1 := 0x20000100, r2 := 1\<rparr>\<rparr>) demo"
  have h: "kinv ?s" "running ?s (cpu ?s) = Some 0" "futex_at (r1 (trap (thread ?s 0))) 1 ?s"
    "r2 (trap (thread ?s 0)) \<noteq> 0"
    using demo_kinv demo_futex by (simp_all add: kinv_ex_irrelevant futex_at_def)
  have k: "unat (r2 (trap (thread ?s 0))) = 1" "wqs ?s (W_futex 1) = [7, 8]" by simp_all
  from futex_wake_exact [OF h] show ?thesis unfolding k by (elim exE conjE) (rule exI, intro conjI, assumption, auto)
qed



text \<open>An address keeps its wait queue: once a look-up has found or made the queue of an address, every
  later look-up gives the same queue, whatever other addresses get queues in between, and no other address
  ever gets this queue.\<close>

theorem futex_queue_stable:
  assumes a: "noza_futex_get_queue a True s = (Some w, s1)"
    and b: "noza_futex_get_queue b True s1 = (q, s2)"
  shows "noza_futex_get_queue a c s2 = (Some w, s2) \<and> (q = Some w \<longrightarrow> b = a)"
proof (intro conjI impI)
  from a obtain i where w: "w = W_futex i" "futex_at a i s1"
    by (rule_tac futex_get_queue_cases [of a True s]) auto
  note at2 = futex_at_grow [OF w(2) futex_get_queue_grow [OF b]]
  from futex_get_queue_at [OF at2, of c] w(1) show "noza_futex_get_queue a c s2 = (Some w, s2)" by simp
  assume q: "q = Some w"
  from b obtain j where "q = Some (W_futex j)" "futex_at b j s2"
    using q by (rule_tac futex_get_queue_cases [of b True s1]) auto
  with q w(1) at2 show "b = a" by (simp add: futex_at_def)
qed

theorem futex_queue_stable_witness:
  "noza_futex_get_queue 0x20000100 False (snd (noza_futex_get_queue 0x20000200 True demo))
     = (Some (W_futex 1), snd (noza_futex_get_queue 0x20000200 True demo))"
proof -
  have a: "noza_futex_get_queue 0x20000100 True demo = (Some (W_futex 1), demo)"
    by (rule futex_get_queue_at [OF demo_futex])
  from futex_queue_stable [OF a surjective_pairing] show ?thesis by blast
qed

end
