(* ===== verification/Timer.thy ===== *)
theory Timer
  imports Wait_Queue
begin

text \<open>
  Kernel timers (\<^verbatim>\<open>kernel/noza_os.c\<close>): the queue of armed timers sorted by deadline, firing, and the
  system calls on timers and clocks.
\<close>

section \<open>Operations\<close>

definition noza_timer_remove :: "nat \<Rightarrow> kstate \<Rightarrow> kstate res" where
  "noza_timer_remove i s =
     (if \<not> armed (timers s i) \<or> timer_q s = [] then Inr s
      else if i \<notin> set (timer_q s) then Inl List_corrupt
      else Inr (upd_timer i (\<lambda>t. t\<lparr>armed := False\<rparr>) (s\<lparr>timer_q := remove1 i (timer_q s)\<rparr>)))"

definition noza_timer_insert :: "nat \<Rightarrow> kstate \<Rightarrow> kstate res" where
  "noza_timer_insert i s =
     (if i \<in> set (timer_q s) then Inl List_corrupt
      else Inr (upd_timer i (\<lambda>t. t\<lparr>armed := True\<rparr>)
             (s\<lparr>timer_q := insert_deadline (\<lambda>j. deadline (timers s j)) i (timer_q s)\<rparr>)))"

definition noza_timer_lookup :: "u32 \<Rightarrow> kstate \<Rightarrow> nat option" where
  "noza_timer_lookup v s =
     find (\<lambda>i. tm_in_use (timers s i) \<and> tm_id (timers s i) = v) [0..<NOZA_MAX_TIMERS]"

definition noza_timer_alloc :: "u32 \<Rightarrow> kstate \<Rightarrow> nat option \<times> kstate" where
  "noza_timer_alloc owner s =
     (case find (\<lambda>i. \<not> tm_in_use (timers s i)) [0..<NOZA_MAX_TIMERS] of
        None \<Rightarrow> (None, s)
      | Some i \<Rightarrow>
          let s1 = upd_timer i (\<lambda>t. t\<lparr>tm_in_use := True, armed := False, owner_vid := owner,
                     pending_fires := 0, deadline := 0, period_us := 0, tm_flags := 0,
                     tm_id := timer_seq s\<rparr>) s;
              seq = timer_seq s + 1;
              s2 = s1\<lparr>timer_seq := (if seq = 0 then 1 else seq)\<rparr>
          in (Some i, noza_wait_queue_init (W_timer i) s2))"

definition noza_timer_release :: "nat \<Rightarrow> kstate \<Rightarrow> kstate res" where
  "noza_timer_release i s =
     bindE (noza_timer_remove i s) (\<lambda>s1.
     bindE (if wqs s1 (W_timer i) \<noteq> []
            then noza_wait_queue_wake (W_timer i) (length (wqs s1 (W_timer i))) ECANCELED s1
            else Inr (0, s1)) (\<lambda>(_, s2).
     Inr (upd_timer i (\<lambda>t. t\<lparr>tm_in_use := False, pending_fires := 0, owner_vid := 0, tm_flags := 0,
                          period_us := 0, deadline := 0\<rparr>)
            (noza_wait_queue_init (W_timer i) s2))))"

definition noza_timer_fire :: "nat \<Rightarrow> kstate \<Rightarrow> kstate res" where
  "noza_timer_fire i s =
     bindE (if wqs s (W_timer i) \<noteq> []
            then bindE (noza_wait_queue_wake (W_timer i) 1 0 s) (\<lambda>(_, s1). Inr s1)
            else Inr (upd_timer i (\<lambda>t. t\<lparr>pending_fires := pending_fires t + 1\<rparr>) s)) (\<lambda>s1.
     if tm_flags (timers s1 i) AND NOZA_TIMER_FLAG_PERIODIC \<noteq> 0 \<and> period_us (timers s1 i) > 0
     then noza_timer_insert i
            (upd_timer i (\<lambda>t. t\<lparr>deadline := int64 (deadline t + period_us t)\<rparr>) s1)
     else Inr (upd_timer i (\<lambda>t. t\<lparr>armed := False\<rparr>) s1))"

text \<open>The loop of \<^verbatim>\<open>noza_timer_tick\<close> fires the head of the queue while it is due. A periodic timer goes back
  into the queue one period later, so the number of rounds is bounded by the microseconds by which the
  queued timers are overdue (\<open>tick_work\<close>).\<close>

fun timer_tick_loop :: "nat \<Rightarrow> int \<Rightarrow> kstate \<Rightarrow> kstate res" where
  "timer_tick_loop n now s =
     (case timer_q s of
        [] \<Rightarrow> Inr s
      | i # _ \<Rightarrow>
          if deadline (timers s i) > now then Inr s
          else
            (case n of
               0 \<Rightarrow> Inl Diverge
             | Suc k \<Rightarrow>
                 bindE (noza_timer_remove i s) (\<lambda>s1.
                 bindE (noza_timer_fire i s1) (timer_tick_loop k now))))"

declare timer_tick_loop.simps [simp del]

definition tick_work :: "int \<Rightarrow> kstate \<Rightarrow> nat" where
  "tick_work now s = sum_list (map (\<lambda>i. nat (now - deadline (timers s i) + 1)) (timer_q s))"

definition noza_timer_tick :: "int \<Rightarrow> kstate \<Rightarrow> kstate res" where
  "noza_timer_tick now s = timer_tick_loop (tick_work now s) now s"

section \<open>System calls\<close>

definition syscall_timer_create :: "pid \<Rightarrow> kstate \<Rightarrow> kstate res" where
  "syscall_timer_create r s =
     (case noza_timer_alloc (vid (thread s r)) s of
        (None, s1) \<Rightarrow> Inr (noza_os_set_return_value1 r ENOMEM s1)
      | (Some i, s1) \<Rightarrow> Inr (noza_os_set_return_value2 r 0 (tm_id (timers s1 i)) s1))"

definition syscall_timer_delete :: "pid \<Rightarrow> kstate \<Rightarrow> kstate res" where
  "syscall_timer_delete r s =
     (case noza_timer_lookup (r1 (trap (thread s r))) s of
        None \<Rightarrow> Inr (noza_os_set_return_value1 r ESRCH s)
      | Some i \<Rightarrow>
          if owner_vid (timers s i) \<noteq> vid (thread s r) then Inr (noza_os_set_return_value1 r EPERM s)
          else bindE (noza_timer_release i s) (\<lambda>s1. Inr (noza_os_set_return_value1 r 0 s1)))"

definition syscall_timer_arm :: "pid \<Rightarrow> kstate \<Rightarrow> kstate res" where
  "syscall_timer_arm r s =
     (let timer_id = r1 (trap (thread s r));
          duration_us = r2 (trap (thread s r));
          fl = r3 (trap (thread s r))
      in if duration_us = 0 then Inr (noza_os_set_return_value1 r EINVAL s)
         else
           (case noza_timer_lookup timer_id s of
              None \<Rightarrow> Inr (noza_os_set_return_value1 r ESRCH s)
            | Some i \<Rightarrow>
                if owner_vid (timers s i) \<noteq> vid (thread s r) then Inr (noza_os_set_return_value1 r EPERM s)
                else
                  bindE (noza_timer_remove i s) (\<lambda>s1.
                  bindE (noza_timer_insert i
                           (upd_timer i (\<lambda>t. t\<lparr>tm_flags := fl,
                              period_us := (if fl AND NOZA_TIMER_FLAG_PERIODIC \<noteq> 0 then uint duration_us else 0),
                              deadline := int64 (clock s1 + uint duration_us), pending_fires := 0\<rparr>) s1))
                    (\<lambda>s2. Inr (noza_os_set_return_value1 r 0 s2)))))"

definition syscall_timer_cancel :: "pid \<Rightarrow> kstate \<Rightarrow> kstate res" where
  "syscall_timer_cancel r s =
     (case noza_timer_lookup (r1 (trap (thread s r))) s of
        None \<Rightarrow> Inr (noza_os_set_return_value1 r ESRCH s)
      | Some i \<Rightarrow>
          if owner_vid (timers s i) \<noteq> vid (thread s r) then Inr (noza_os_set_return_value1 r EPERM s)
          else bindE (noza_timer_remove i s) (\<lambda>s1. Inr (noza_os_set_return_value1 r 0 s1)))"

definition syscall_timer_wait :: "pid \<Rightarrow> kstate \<Rightarrow> kstate res" where
  "syscall_timer_wait r s =
     (let timer_id = r1 (trap (thread s r));
          timeout_us = sint (r2 (trap (thread s r)))
      in case noza_timer_lookup timer_id s of
           None \<Rightarrow> Inr (noza_os_set_return_value1 r ESRCH s)
         | Some i \<Rightarrow>
             if owner_vid (timers s i) \<noteq> vid (thread s r) then Inr (noza_os_set_return_value1 r EPERM s)
             else if pending_fires (timers s i) > 0 then
               Inr (noza_os_set_return_value1 r 0
                      (upd_timer i (\<lambda>t. t\<lparr>pending_fires := pending_fires t - 1\<rparr>) s))
             else
               let wait_time = (if timeout_us < 0 then NOZA_WAIT_FOREVER else timeout_us)
               in bindE (noza_wait_queue_sleep (W_timer i) wait_time s)
                    (\<lambda>(ret, s1). Inr (if ret \<noteq> 0 then noza_os_set_return_value1 r ret s1 else s1)))"

text \<open>\<^verbatim>\<open>NOZA_CLOCK_REALTIME\<close> is 0; any other clock is the monotonic one. The value is in nanoseconds.\<close>

definition syscall_clock_gettime :: "pid \<Rightarrow> kstate \<Rightarrow> kstate res" where
  "syscall_clock_gettime r s =
     (let clock_id = r1 (trap (thread s r));
          now_us = clock s;
          value_us = (if clock_id = 0 then int64 (realtime_offset_us s + now_us) else now_us);
          value_ns = int64 (value_us * 1000);
          high = word_of_int (drop_bit 32 value_ns) :: u32;
          low = word_of_int value_ns :: u32
      in Inr (noza_os_set_return_value3 r 0 high low s))"

section \<open>The invariant\<close>

lemma kinv_ex_timers:
  assumes inv: "kinv_ex X s" and t: "timers_ok s'"
    and same: "lists s' = lists s" "wqs s' = wqs s" "running s' = running s" "thread s' = thread s"
      "slot s' = slot s" "free_vid_map s' = free_vid_map s" "next_vid s' = next_vid s"
      "reserved_vid0_assigned s' = reserved_vid0_assigned s"
  shows "kinv_ex X s'"
proof -
  have "sched_ok X s'"
    by (rule sched_ok_same [OF kinv_exD(1) [OF inv] same(1,2)])
       (simp add: conf_def on_lists_def on_wqs_def on_cores_def joins_def same)
  with t kinv_exD [OF inv] show ?thesis
    by (simp add: kinv_ex_def prio_ok_def owners_ok_def vid_ok_def get_thread_by_vid_def used_def same)
qed

lemma timers_okD:
  assumes "timers_ok s"
  shows "distinct (timer_q s)" and "sorted (map (\<lambda>i. deadline (timers s i)) (timer_q s))"
    and "i \<in> set (timer_q s) \<longleftrightarrow> i < NOZA_MAX_TIMERS \<and> armed (timers s i)"
    and "armed (timers s i) \<Longrightarrow> tm_in_use (timers s i)"
    and "0 \<le> period_us (timers s i)" and "period_us (timers s i) < 2 ^ 32"
    and "- (2 ^ 63) \<le> deadline (timers s i)" and "deadline (timers s i) < 2 ^ 63"
    and "\<not> tm_in_use (timers s i) \<Longrightarrow> wqs s (W_timer i) = []"
    and "\<not> fx_in_use (futex_slots s i) \<Longrightarrow> wqs s (W_futex i) = []"
  using assms unfolding timers_ok_def by blast+

text \<open>Changing a timer that is not armed, and may be put to use.\<close>

lemma timers_ok_upd:
  assumes ok: "timers_ok s" and i: "i \<notin> set (timer_q s)" "i < NOZA_MAX_TIMERS"
    and f: "\<not> armed (f (timers s i))" "tm_in_use (f (timers s i)) \<or> wqs s (W_timer i) = []"
      "0 \<le> period_us (f (timers s i))" "period_us (f (timers s i)) < 2 ^ 32"
      "- (2 ^ 63) \<le> deadline (f (timers s i))" "deadline (f (timers s i)) < 2 ^ 63"
  shows "timers_ok (upd_timer i f s)"
proof -
  have "map (\<lambda>j. deadline (timers (upd_timer i f s) j)) (timer_q s) = map (\<lambda>j. deadline (timers s j)) (timer_q s)"
    using i by auto
  then show ?thesis
    using timers_okD [OF ok] i f by (auto simp: timers_ok_def simp del: map_eq_conv)
qed

definition disarmed :: "nat \<Rightarrow> kstate \<Rightarrow> kstate" where
  "disarmed i s = upd_timer i (\<lambda>t. t\<lparr>armed := False\<rparr>) (s\<lparr>timer_q := remove1 i (timer_q s)\<rparr>)"

lemma disarmed_idle: "\<not> armed (timers s i) \<Longrightarrow> i \<notin> set (timer_q s) \<Longrightarrow> disarmed i s = s"
  by (simp add: disarmed_def upd_timer_def remove1_idem fun_upd_idem)

lemma disarmed_sel [simp]:
  "lists (disarmed i s) = lists s" "wqs (disarmed i s) = wqs s" "running (disarmed i s) = running s"
  "thread (disarmed i s) = thread s" "cpu (disarmed i s) = cpu s" "clock (disarmed i s) = clock s"
  "slot (disarmed i s) = slot s" "free_vid_map (disarmed i s) = free_vid_map s"
  "next_vid (disarmed i s) = next_vid s" "futex_slots (disarmed i s) = futex_slots s"
  "reserved_vid0_assigned (disarmed i s) = reserved_vid0_assigned s"
  "timer_q (disarmed i s) = remove1 i (timer_q s)"
  "timers (disarmed i s) = (timers s)(i := (timers s i)\<lparr>armed := False\<rparr>)"
  by (simp_all add: disarmed_def)

lemma timer_remove_ok:
  assumes inv: "kinv_ex X s" and i: "i < NOZA_MAX_TIMERS"
  shows "noza_timer_remove i s = Inr (disarmed i s)" and "kinv_ex X (disarmed i s)"
    and "i \<notin> set (timer_q (disarmed i s))"
proof -
  note D = timers_okD [OF kinv_exD(5) [OF inv]]
  show "noza_timer_remove i s = Inr (disarmed i s)"
    using D(3) [of i] i disarmed_idle [of s i] by (auto simp: noza_timer_remove_def disarmed_def)
  show "i \<notin> set (timer_q (disarmed i s))" using D(1) by simp
  have "timers_ok (disarmed i s)"
  proof -
    have "map (\<lambda>j. deadline (timers (disarmed i s) j)) xs = map (\<lambda>j. deadline (timers s j)) xs" for xs
      by auto
    with D show ?thesis by (auto simp: timers_ok_def sorted_map_remove1 simp del: map_eq_conv)
  qed
  then show "kinv_ex X (disarmed i s)" by (rule kinv_ex_timers [OF inv]) simp_all
qed

definition armed_in :: "nat \<Rightarrow> kstate \<Rightarrow> kstate" where
  "armed_in i s = upd_timer i (\<lambda>t. t\<lparr>armed := True\<rparr>)
     (s\<lparr>timer_q := insert_deadline (\<lambda>j. deadline (timers s j)) i (timer_q s)\<rparr>)"

lemma timer_insert_ok:
  assumes inv: "kinv_ex X s" and i: "i < NOZA_MAX_TIMERS" "i \<notin> set (timer_q s)" "tm_in_use (timers s i)"
  shows "noza_timer_insert i s = Inr (armed_in i s)" and "kinv_ex X (armed_in i s)"
proof -
  note D = timers_okD [OF kinv_exD(5) [OF inv]]
  show "noza_timer_insert i s = Inr (armed_in i s)"
    using i by (simp add: noza_timer_insert_def armed_in_def)
  have "timers_ok (armed_in i s)"
  proof -
    have "map (\<lambda>j. deadline (timers (armed_in i s) j)) xs = map (\<lambda>j. deadline (timers s j)) xs" for xs
      by (auto simp: armed_in_def)
    with D i show ?thesis
      by (auto simp: timers_ok_def armed_in_def distinct_insert_deadline sorted_insert_deadline
        simp del: map_eq_conv)
  qed
  then show "kinv_ex X (armed_in i s)" by (rule kinv_ex_timers [OF inv]) (simp_all add: armed_in_def)
qed

subsection \<open>Firing\<close>

definition periodic :: "noza_timer_t \<Rightarrow> bool" where
  "periodic t \<longleftrightarrow> tm_flags t AND NOZA_TIMER_FLAG_PERIODIC \<noteq> 0 \<and> period_us t > 0"

text \<open>The first half of firing wakes a waiter or counts a pending expiry.\<close>

definition fired :: "nat \<Rightarrow> kstate \<Rightarrow> kstate \<Rightarrow> bool" where
  "fired i s s1 \<longleftrightarrow>
     (if wqs s (W_timer i) = [] then s1 = upd_timer i (\<lambda>t. t\<lparr>pending_fires := pending_fires t + 1\<rparr>) s
      else woken [hd (wqs s (W_timer i))] 0 s s1 \<and> wqs s1 = (wqs s)(W_timer i := tl (wqs s (W_timer i))))"

lemma fired_timers:
  assumes "fired i s s1"
  shows "timer_q s1 = timer_q s" and "j \<noteq> i \<Longrightarrow> timers s1 j = timers s j"
    and "deadline (timers s1 i) = deadline (timers s i)" and "period_us (timers s1 i) = period_us (timers s i)"
    and "tm_flags (timers s1 i) = tm_flags (timers s i)" and "tm_in_use (timers s1 i) = tm_in_use (timers s i)"
    and "armed (timers s1 i) = armed (timers s i)"
  using assms by (auto simp: fired_def woken_def split: if_splits)

lemma fire_first_half:
  assumes inv: "kinv_ex X s" and i: "i < NOZA_MAX_TIMERS" "i \<notin> set (timer_q s)" "tm_in_use (timers s i)"
    and X: "set (wqs s (W_timer i)) \<inter> X = {}"
  shows "ok (if wqs s (W_timer i) \<noteq> []
             then bindE (noza_wait_queue_wake (W_timer i) 1 0 s) (\<lambda>(_, s1). Inr s1)
             else Inr (upd_timer i (\<lambda>t. t\<lparr>pending_fires := pending_fires t + 1\<rparr>) s))
           (\<lambda>s1. fired i s s1 \<and> kinv_ex X s1)"
proof (cases "wqs s (W_timer i) = []")
  case True
  have "timers_ok (upd_timer i (\<lambda>t. t\<lparr>pending_fires := pending_fires t + 1\<rparr>) s)"
    by (rule timers_ok_upd [OF kinv_exD(5) [OF inv]])
       (use i timers_okD [OF kinv_exD(5) [OF inv]] in auto)
  then have "kinv_ex X (upd_timer i (\<lambda>t. t\<lparr>pending_fires := pending_fires t + 1\<rparr>) s)"
    by (rule kinv_ex_timers [OF inv]) simp_all
  with True show ?thesis by (simp add: fired_def)
next
  case False
  then have 1: "take 1 (wqs s (W_timer i)) = [hd (wqs s (W_timer i))]"
    "drop 1 (wqs s (W_timer i)) = tl (wqs s (W_timer i))"
    by (auto simp: neq_Nil_conv)
  from wait_queue_wake_ok [OF inv X, of 1 0] False show ?thesis
    unfolding 1 by (auto simp: fired_def split_def elim: ok_mono)
qed

definition rearmed :: "nat \<Rightarrow> kstate \<Rightarrow> kstate" where
  "rearmed i s = armed_in i (upd_timer i (\<lambda>t. t\<lparr>deadline := int64 (deadline t + period_us t)\<rparr>) s)"

lemma upd_timer_idem: "f (timers s i) = timers s i \<Longrightarrow> upd_timer i f s = s"
  by (simp add: upd_timer_def fun_upd_idem)

lemma fire_ok:
  assumes inv: "kinv_ex X s" and i: "i < NOZA_MAX_TIMERS" "i \<notin> set (timer_q s)" "tm_in_use (timers s i)"
    and X: "set (wqs s (W_timer i)) \<inter> X = {}"
  shows "ok (noza_timer_fire i s) (\<lambda>s'. \<exists>s1. fired i s s1 \<and> kinv_ex X s' \<and>
           s' = (if periodic (timers s i) then rearmed i s1 else s1))"
proof -
  have second: "ok (if tm_flags (timers s1 i) AND NOZA_TIMER_FLAG_PERIODIC \<noteq> 0 \<and> period_us (timers s1 i) > 0
        then noza_timer_insert i (upd_timer i (\<lambda>t. t\<lparr>deadline := int64 (deadline t + period_us t)\<rparr>) s1)
        else Inr (upd_timer i (\<lambda>t. t\<lparr>armed := False\<rparr>) s1))
      (\<lambda>s'. \<exists>s1. fired i s s1 \<and> kinv_ex X s' \<and> s' = (if periodic (timers s i) then rearmed i s1 else s1))"
    if s1: "fired i s s1" "kinv_ex X s1" for s1
  proof -
    note F = fired_timers [OF s1(1)]
    have na: "\<not> armed (timers s1 i)" using timers_okD(3) [OF kinv_exD(5) [OF s1(2)], of i] i F(1) by simp
    let ?u = "upd_timer i (\<lambda>t. t\<lparr>deadline := int64 (deadline t + period_us t)\<rparr>) s1"
    have "timers_ok ?u"
      by (rule timers_ok_upd [OF kinv_exD(5) [OF s1(2)]])
         (use i F(1,6) na timers_okD [OF kinv_exD(5) [OF s1(2)]] int64_range in auto)
    then have u: "kinv_ex X ?u" by (rule kinv_ex_timers [OF s1(2)]) simp_all
    have ins: "noza_timer_insert i ?u = Inr (rearmed i s1)" "kinv_ex X (rearmed i s1)"
      unfolding rearmed_def using timer_insert_ok [OF u i(1)] i F(1,6) by simp_all
    have idle: "upd_timer i (\<lambda>t. t\<lparr>armed := False\<rparr>) s1 = s1" using na by (intro upd_timer_idem) simp
    from ins s1 F(4,5) idle show ?thesis by (auto simp: periodic_def)
  qed
  show ?thesis
    unfolding noza_timer_fire_def ok_bindE
    by (rule ok_mono [OF fire_first_half [OF inv i X]]) (use second in simp)
qed

subsection \<open>The tick\<close>

lemma sum_list_insert_deadline:
  "sum_list (map f (insert_deadline key x xs)) = f x + sum_list (map f xs)" for f :: "nat \<Rightarrow> nat"
  by (induction xs) auto

lemma tick_work_cong:
  assumes "timer_q s' = timer_q s" and "\<And>j. j \<in> set (timer_q s) \<Longrightarrow> deadline (timers s' j) = deadline (timers s j)"
  shows "tick_work now s' = tick_work now s"
  unfolding tick_work_def assms(1) using assms(2) by (intro arg_cong [where f = sum_list] map_cong) simp_all

text \<open>Clock readings are taken to be below \<open>2 ^ 62\<close> microseconds, about 146,000 years.\<close>

lemma fired_work:
  assumes q: "timer_q s = i # rest" and due: "deadline (timers s i) \<le> now" and now: "now < 2 ^ 62"
    and ok: "timers_ok s" and f: "fired i (disarmed i s) s1"
  shows "tick_work now (if periodic (timers s i) then rearmed i s1 else s1) < tick_work now s"
proof -
  note F = fired_timers [OF f] and D = timers_okD [OF ok]
  have ni: "i \<notin> set rest" using D(1) q by simp
  have dl: "deadline (timers s1 j) = deadline (timers s j)" for j using F(2,3) by (cases "j = i") simp_all
  have rest: "tick_work now s = nat (now - deadline (timers s i) + 1) + tick_work now s1"
    using q F(1) dl by (simp add: tick_work_def)
  show ?thesis
  proof (cases "periodic (timers s i)")
    case False
    with rest due show ?thesis by simp
  next
    case True
    let ?d = "deadline (timers s i) + period_us (timers s i)"
    have "int64 ?d = ?d" using D(6,7) [of i] True due now by (intro int64_id) (auto simp: periodic_def)
    then have "deadline (timers (rearmed i s1) i) = ?d"
      using dl F(4) by (simp add: rearmed_def armed_in_def)
    moreover have "tick_work now (rearmed i s1)
        = nat (now - deadline (timers (rearmed i s1) i) + 1) + tick_work now s1"
    proof -
      have "map (\<lambda>j. nat (now - deadline (timers (rearmed i s1) j) + 1)) (timer_q s1)
          = map (\<lambda>j. nat (now - deadline (timers s1 j) + 1)) (timer_q s1)"
        using ni q F(1) by (auto simp: rearmed_def armed_in_def)
      moreover have "timer_q (rearmed i s1)
          = insert_deadline (\<lambda>j. deadline (if j = i then (timers s1 i)
              \<lparr>deadline := int64 (deadline (timers s1 i) + period_us (timers s1 i))\<rparr> else timers s1 j)) i (timer_q s1)"
        by (simp add: rearmed_def armed_in_def fun_upd_def)
      ultimately show ?thesis by (simp add: tick_work_def sum_list_insert_deadline del: map_eq_conv)
    qed
    ultimately show ?thesis using rest True due by (auto simp: periodic_def nat_less_iff)
  qed
qed

lemma fired_frame:
  assumes "fired i (disarmed i s) s1"
  defines "s' \<equiv> if periodic (timers s i) then rearmed i s1 else s1"
  shows "running s' = running s" and "cpu s' = cpu s" and "clock s' = clock s"
  using assms by (auto simp: fired_def woken_def rearmed_def armed_in_def split: if_splits)

lemma tick_step:
  assumes inv: "kinv s" and now: "now < 2 ^ 62" and q: "timer_q s = i # rest"
    and due: "deadline (timers s i) \<le> now"
  shows "ok (bindE (noza_timer_remove i s) (noza_timer_fire i)) (\<lambda>s'. kinv s' \<and> running s' = running s
           \<and> cpu s' = cpu s \<and> clock s' = clock s \<and> tick_work now s' < tick_work now s)"
proof -
  note D = timers_okD [OF kinv_exD(5) [OF inv]]
  have i: "i < NOZA_MAX_TIMERS" "tm_in_use (timers s i)" using D(3) [of i] D(4) [of i] q by simp_all
  note r = timer_remove_ok [OF inv i(1)]
  have "ok (noza_timer_fire i (disarmed i s)) (\<lambda>s'. \<exists>s1. fired i (disarmed i s) s1 \<and> kinv s' \<and>
       s' = (if periodic (timers s i) then rearmed i s1 else s1))"
    using fire_ok [OF r(2) i(1) r(3)] i(2) by (simp add: periodic_def)
  then show ?thesis
    unfolding r(1) bindE.simps
    by (rule ok_mono) (use fired_frame [of i s] fired_work [OF q due now kinv_exD(5) [OF inv]] in auto)
qed

lemma tick_loop_ok:
  assumes "kinv s" and "now < 2 ^ 62" and "tick_work now s \<le> n"
  shows "ok (timer_tick_loop n now s) (\<lambda>s'. kinv s' \<and> running s' = running s \<and> cpu s' = cpu s
           \<and> clock s' = clock s \<and> (\<forall>i \<in> set (timer_q s'). deadline (timers s' i) > now))"
  using assms
proof (induction n arbitrary: s)
  case 0
  then have "timer_q s = [] \<or> deadline (timers s (hd (timer_q s))) > now"
    by (cases "timer_q s") (auto simp: tick_work_def)
  with 0 timers_okD(2) [OF kinv_exD(5) [OF 0(1)]] show ?case
    by (cases "timer_q s") (auto simp: timer_tick_loop.simps)
next
  case (Suc n)
  consider "timer_q s = []" | i rest where "timer_q s = i # rest" "deadline (timers s i) > now"
    | i rest where "timer_q s = i # rest" "deadline (timers s i) \<le> now"
    by (cases "timer_q s") force+
  then show ?case
  proof cases
    case 3
    have "ok (timer_tick_loop n now s') (\<lambda>s'. kinv s' \<and> running s' = running s \<and> cpu s' = cpu s
        \<and> clock s' = clock s \<and> (\<forall>i \<in> set (timer_q s'). deadline (timers s' i) > now))"
      if "kinv s' \<and> running s' = running s \<and> cpu s' = cpu s \<and> clock s' = clock s
        \<and> tick_work now s' < tick_work now s" for s'
      using Suc.IH [of s'] Suc.prems that by simp
    from ok_mono [OF tick_step [OF Suc.prems(1,2) 3] this] 3 show ?thesis
      by (simp add: timer_tick_loop.simps [of "Suc n"])
  qed (use Suc.prems timers_okD(2) [OF kinv_exD(5) [OF Suc.prems(1)]] in
        \<open>auto simp: timer_tick_loop.simps\<close>)
qed

text \<open>A periodic timer that nobody waits for, alone in the queue.\<close>

lemma tick_alone_step:
  assumes inv: "kinv s" and now: "now < 2 ^ 62" and q: "timer_q s = [i]" and w: "wqs s (W_timer i) = []"
    and per: "periodic (timers s i)" and due: "deadline (timers s i) \<le> now"
  shows "ok (bindE (noza_timer_remove i s) (noza_timer_fire i)) (\<lambda>s'. kinv s' \<and> tick_work now s' < tick_work now s
    \<and> timer_q s' = [i] \<and> wqs s' = wqs s \<and> timers s' i = (timers s i)\<lparr>deadline := deadline (timers s i) + period_us (timers s i),
        pending_fires := pending_fires (timers s i) + 1, armed := True\<rparr>)"
proof -
  note D = timers_okD [OF kinv_exD(5) [OF inv]]
  have i: "i < NOZA_MAX_TIMERS" "tm_in_use (timers s i)" using D(3) [of i] D(4) [of i] q by simp_all
  note r = timer_remove_ok [OF inv i(1)]
  have int: "int64 (deadline (timers s i) + period_us (timers s i)) = deadline (timers s i) + period_us (timers s i)"
    using D(6,7) [of i] per due now by (intro int64_id) (auto simp: periodic_def)
  have "ok (noza_timer_fire i (disarmed i s)) (\<lambda>s'. \<exists>s1. fired i (disarmed i s) s1 \<and> s' = rearmed i s1)"
    by (rule ok_mono [OF fire_ok [OF r(2) i(1) r(3)]]) (use i(2) per in \<open>auto simp: periodic_def\<close>)
  then have "ok (noza_timer_fire i (disarmed i s)) (\<lambda>s'. timer_q s' = [i] \<and> wqs s' = wqs s
     \<and> timers s' i = (timers s i)\<lparr>deadline := deadline (timers s i) + period_us (timers s i),
        pending_fires := pending_fires (timers s i) + 1, armed := True\<rparr>)"
    by (rule ok_mono) (use w q int in \<open>auto simp: fired_def rearmed_def armed_in_def\<close>)
  then show ?thesis using tick_step [OF inv now q due] unfolding r(1) bindE.simps by (auto simp: ok_def)
qed

lemma tick_alone:
  assumes "kinv s" "now < 2 ^ 62" "timer_q s = [i]" "wqs s (W_timer i) = []" "periodic (timers s i)"
    "deadline (timers s i) \<le> now" "tick_work now s \<le> n"
  shows "ok (timer_tick_loop n now s) (\<lambda>s'. kinv s' \<and> timer_q s' = [i] \<and> wqs s' = wqs s
    \<and> timers s' i = (timers s i)\<lparr>armed := True,
        deadline := deadline (timers s i) + ((now - deadline (timers s i)) div period_us (timers s i) + 1) * period_us (timers s i),
        pending_fires := pending_fires (timers s i) + of_int ((now - deadline (timers s i)) div period_us (timers s i) + 1)\<rparr>)"
  using assms
proof (induction n arbitrary: s)
  case 0
  then show ?case by (simp add: tick_work_def)
next
  case (Suc n)
  let ?d = "deadline (timers s i)" and ?p = "period_us (timers s i)"
  have p: "?p > 0" using Suc.prems(5) by (simp add: periodic_def)
  from ok_value [OF tick_alone_step [OF Suc.prems(1-6)]] obtain s1 where
    s1: "bindE (noza_timer_remove i s) (noza_timer_fire i) = Inr s1" "kinv s1" "tick_work now s1 \<le> n"
      "timer_q s1 = [i]" "wqs s1 = wqs s" "timers s1 i = (timers s i)\<lparr>deadline := ?d + ?p,
        pending_fires := pending_fires (timers s i) + 1, armed := True\<rparr>" using Suc.prems(7) by auto
  have e: "timer_tick_loop (Suc n) now s = timer_tick_loop n now s1"
    using Suc.prems(3,6) s1(1) by (simp add: timer_tick_loop.simps [of "Suc n"] bindE_assoc [symmetric])
  show ?case
  proof (cases "?d + ?p \<le> now")
    case True
    have dv: "(now - ?d) div ?p = (now - (?d + ?p)) div ?p + 1"
      using div_add_self2 [of ?p "now - (?d + ?p)"] p by (simp add: algebra_simps)
    have "periodic (timers s1 i)" using Suc.prems(5) s1(6) by (simp add: periodic_def)
    from Suc.IH [OF s1(2) Suc.prems(2) s1(4) _ this _ s1(3)] Suc.prems(4) s1(5,6) True show ?thesis
      unfolding e dv by (auto simp: algebra_simps elim!: ok_mono)
  next
    case False
    then have "(now - ?d) div ?p = 0" using Suc.prems(6) by (intro div_pos_pos_trivial) auto
    then show ?thesis using False s1 unfolding e by (simp add: timer_tick_loop.simps)
  qed
qed



subsection \<open>The system calls\<close>

lemma timer_lookup_Some:
  assumes "noza_timer_lookup v s = Some i"
  shows "i < NOZA_MAX_TIMERS" and "tm_in_use (timers s i)" and "tm_id (timers s i) = v"
  using find_split [OF assms [unfolded noza_timer_lookup_def]] by simp_all

lemma timer_alloc_kinv:
  assumes inv: "kinv_ex X s"
  shows "kinv_ex X (snd (noza_timer_alloc owner s))"
proof (cases "find (\<lambda>i. \<not> tm_in_use (timers s i)) [0..<NOZA_MAX_TIMERS]")
  case None
  with inv show ?thesis by (simp add: noza_timer_alloc_def)
next
  case (Some i)
  from find_split [OF Some] have i: "i < NOZA_MAX_TIMERS" "\<not> tm_in_use (timers s i)" by simp_all
  note D = timers_okD [OF kinv_exD(5) [OF inv]]
  have ni: "i \<notin> set (timer_q s)" using D(3,4) [of i] i by blast
  let ?f = "\<lambda>t. t\<lparr>tm_in_use := True, armed := False, owner_vid := owner, pending_fires := 0,
      deadline := 0, period_us := 0, tm_flags := 0, tm_id := timer_seq s\<rparr>"
  have "timers_ok (upd_timer i ?f s)"
    by (rule timers_ok_upd [OF kinv_exD(5) [OF inv] ni i(1)]) simp_all
  then have "timers_ok (snd (noza_timer_alloc owner s))"
    using Some D(9) [OF i(2)] by (simp add: noza_timer_alloc_def Let_def timers_ok_def noza_wait_queue_init_def)
  then show ?thesis
    by (rule kinv_ex_timers [OF inv])
       (use Some D(9) [OF i(2)] in \<open>simp_all add: noza_timer_alloc_def Let_def noza_wait_queue_init_def fun_upd_idem\<close>)
qed

lemma timer_release_ok:
  assumes inv: "kinv s" and i: "i < NOZA_MAX_TIMERS" "tm_in_use (timers s i)"
  shows "ok (noza_timer_release i s) (\<lambda>s'. kinv s' \<and> running s' = running s \<and> \<not> tm_in_use (timers s' i)
           \<and> i \<notin> set (timer_q s')
           \<and> (\<forall>p \<in> set (wqs s (W_timer i)). th_state (thread s' p) = THREAD_READY
                \<and> r0 (trap (thread s' p)) = ECANCELED))"
proof -
  note r = timer_remove_ok [OF inv i(1)]
  let ?s = "disarmed i s" and ?w = "W_timer i"
  let ?f = "\<lambda>t. t\<lparr>tm_in_use := False, pending_fires := 0, owner_vid := 0, tm_flags := 0,
                  period_us := 0, deadline := 0\<rparr>"
  have wake: "ok (if wqs ?s ?w \<noteq> [] then noza_wait_queue_wake ?w (length (wqs ?s ?w)) ECANCELED ?s else Inr (0, ?s))
      (\<lambda>(m, s2). kinv s2 \<and> wqs s2 ?w = [] \<and> woken (wqs s ?w) ECANCELED ?s s2)"
    using wait_queue_wake_ok [OF r(2), of ?w "length (wqs s ?w)" ECANCELED] r(2)
    by (auto elim: ok_mono)
  have "kinv (upd_timer i ?f (noza_wait_queue_init ?w s2)) \<and> timer_q s2 = timer_q ?s \<and> running s2 = running s
      \<and> (\<forall>p \<in> set (wqs s ?w). th_state (thread s2 p) = THREAD_READY \<and> r0 (trap (thread s2 p)) = ECANCELED)"
    if s2: "kinv s2" "wqs s2 ?w = []" "woken (wqs s ?w) ECANCELED ?s s2" for s2
  proof -
    have init: "noza_wait_queue_init ?w s2 = s2"
      using s2(2) by (simp add: noza_wait_queue_init_def upd_wq_def fun_upd_idem)
    have q: "timer_q s2 = timer_q ?s" "timers s2 = timers ?s" using s2(3) by (simp_all add: woken_def)
    have "timers_ok (upd_timer i ?f s2)"
      by (rule timers_ok_upd [OF kinv_exD(5) [OF s2(1)]]) (use q r(3) i s2(2) in simp_all)
    then have "kinv (upd_timer i ?f s2)" by (rule kinv_ex_timers [OF s2(1)]) simp_all
    with q s2(3) show ?thesis unfolding init by (simp add: woken_def)
  qed
  with r(3) show ?thesis
    unfolding noza_timer_release_def r(1) bindE.simps ok_bindE
    by (intro ok_mono [OF wake]) (auto simp: noza_wait_queue_init_def)
qed

lemma timer_create_kinv:
  assumes "kinv s"
  shows "ok (syscall_timer_create r s) kinv"
  using timer_alloc_kinv [OF assms, of "vid (thread s r)"]
  by (cases "noza_timer_alloc (vid (thread s r)) s")
     (auto simp: syscall_timer_create_def split: option.splits)

lemma timer_delete_kinv:
  assumes "kinv s"
  shows "ok (syscall_timer_delete r s) kinv"
proof (cases "noza_timer_lookup (r1 (trap (thread s r))) s")
  case None
  with assms show ?thesis by (simp add: syscall_timer_delete_def)
next
  case (Some i)
  from timer_release_ok [OF assms timer_lookup_Some(1,2) [OF Some]] Some assms show ?thesis
    by (auto simp: syscall_timer_delete_def elim: ok_mono)
qed

lemma timer_cancel_kinv:
  assumes "kinv s"
  shows "ok (syscall_timer_cancel r s) kinv"
proof (cases "noza_timer_lookup (r1 (trap (thread s r))) s")
  case None
  with assms show ?thesis by (simp add: syscall_timer_cancel_def)
next
  case (Some i)
  from timer_remove_ok [OF assms timer_lookup_Some(1) [OF Some]] Some assms show ?thesis
    by (simp add: syscall_timer_cancel_def)
qed

text \<open>Arming puts the timer into the queue with the new deadline.\<close>

definition arm_timer :: "nat \<Rightarrow> u32 \<Rightarrow> u32 \<Rightarrow> kstate \<Rightarrow> kstate" where
  "arm_timer i dur fl s = armed_in i
     (upd_timer i (\<lambda>t. t\<lparr>tm_flags := fl,
        period_us := (if fl AND NOZA_TIMER_FLAG_PERIODIC \<noteq> 0 then uint dur else 0),
        deadline := int64 (clock s + uint dur), pending_fires := 0\<rparr>) (disarmed i s))"

lemma arm_timer_ok:
  assumes inv: "kinv_ex X s" and i: "i < NOZA_MAX_TIMERS" "tm_in_use (timers s i)"
  shows "bindE (noza_timer_remove i s) (\<lambda>s1. noza_timer_insert i
       (upd_timer i (\<lambda>t. t\<lparr>tm_flags := fl,
          period_us := (if fl AND NOZA_TIMER_FLAG_PERIODIC \<noteq> 0 then uint dur else 0),
          deadline := int64 (clock s1 + uint dur), pending_fires := 0\<rparr>) s1)) = Inr (arm_timer i dur fl s)"
    and "kinv_ex X (arm_timer i dur fl s)"
proof -
  note r = timer_remove_ok [OF inv i(1)]
  let ?f = "\<lambda>t. t\<lparr>tm_flags := fl,
          period_us := (if fl AND NOZA_TIMER_FLAG_PERIODIC \<noteq> 0 then uint dur else 0),
          deadline := int64 (clock s + uint dur), pending_fires := 0\<rparr>"
  have "uint dur < 2 ^ 32" using uint_lt2p [of dur] by simp
  then have "timers_ok (upd_timer i ?f (disarmed i s))"
    by (intro timers_ok_upd [OF kinv_exD(5) [OF r(2)] r(3) i(1)]) (use i(2) int64_range in auto)
  then have u: "kinv_ex X (upd_timer i ?f (disarmed i s))" by (rule kinv_ex_timers [OF r(2)]) simp_all
  have n: "i \<notin> set (timer_q (upd_timer i ?f (disarmed i s)))" using r(3) by simp
  have u': "tm_in_use (timers (upd_timer i ?f (disarmed i s)) i)" using i(2) by simp
  note ins = timer_insert_ok [OF u i(1) n u']
  from ins(2) show "kinv_ex X (arm_timer i dur fl s)" by (simp add: arm_timer_def)
  from ins(1) r(1) show "bindE (noza_timer_remove i s) (\<lambda>s1. noza_timer_insert i
       (upd_timer i (\<lambda>t. t\<lparr>tm_flags := fl,
          period_us := (if fl AND NOZA_TIMER_FLAG_PERIODIC \<noteq> 0 then uint dur else 0),
          deadline := int64 (clock s1 + uint dur), pending_fires := 0\<rparr>) s1)) = Inr (arm_timer i dur fl s)"
    by (simp add: arm_timer_def)
qed

lemma syscall_timer_arm_eq:
  assumes inv: "kinv_ex X s" and l: "noza_timer_lookup (r1 (trap (thread s r))) s = Some i"
    and ow: "owner_vid (timers s i) = vid (thread s r)" and d: "r2 (trap (thread s r)) \<noteq> 0"
  shows "syscall_timer_arm r s = Inr (noza_os_set_return_value1 r 0
           (arm_timer i (r2 (trap (thread s r))) (r3 (trap (thread s r))) s))"
proof -
  note a = arm_timer_ok(1) [OF inv timer_lookup_Some(1,2) [OF l]]
  have "bindE (noza_timer_remove i s) (\<lambda>s1. bindE (f s1) g) = bindE (bindE (noza_timer_remove i s) f) g"
    for f and g :: "kstate \<Rightarrow> kstate res"
    by (simp add: bindE_assoc)
  with a l ow d show ?thesis by (simp add: syscall_timer_arm_def Let_def)
qed

lemma timer_arm_kinv:
  assumes "kinv s"
  shows "ok (syscall_timer_arm r s) kinv"
proof (cases "\<exists>i. noza_timer_lookup (r1 (trap (thread s r))) s = Some i
    \<and> owner_vid (timers s i) = vid (thread s r) \<and> r2 (trap (thread s r)) \<noteq> 0")
  case True
  then obtain i where i: "noza_timer_lookup (r1 (trap (thread s r))) s = Some i"
    "owner_vid (timers s i) = vid (thread s r)" "r2 (trap (thread s r)) \<noteq> 0" by blast
  from arm_timer_ok(2) [OF assms timer_lookup_Some(1,2) [OF i(1)]] syscall_timer_arm_eq [OF assms i]
  show ?thesis by simp
next
  case False
  with assms show ?thesis
    by (cases "noza_timer_lookup (r1 (trap (thread s r))) s") (auto simp: syscall_timer_arm_def Let_def)
qed

lemma timer_wait_kinv:
  assumes inv: "kinv s" and r: "running s (cpu s) = Some r"
  shows "ok (syscall_timer_wait r s) kinv"
proof (cases "noza_timer_lookup (r1 (trap (thread s r))) s")
  case None
  with assms show ?thesis by (simp add: syscall_timer_wait_def)
next
  case (Some i)
  note L = timer_lookup_Some [OF Some]
  have pend: "kinv (upd_timer i (\<lambda>t. t\<lparr>pending_fires := n t\<rparr>) s)" for n
  proof (rule kinv_ex_timers [OF inv])
    have "map (\<lambda>j. deadline (timers (upd_timer i (\<lambda>t. t\<lparr>pending_fires := n t\<rparr>) s) j)) xs
        = map (\<lambda>j. deadline (timers s j)) xs" for xs by auto
    with kinv_exD(5) [OF inv] show "timers_ok (upd_timer i (\<lambda>t. t\<lparr>pending_fires := n t\<rparr>) s)"
      by (auto simp: timers_ok_def simp del: map_eq_conv)
  qed simp_all
  have "wq_in_use (W_timer i) s" using L(2) by simp
  then have "ok (noza_wait_queue_sleep (W_timer i) t s)
      (\<lambda>(ret, s2). kinv (if ret \<noteq> 0 then noza_os_set_return_value1 r ret s2 else s2))" if "t \<ge> -1" for t
    by (intro ok_mono [OF wait_queue_sleep_kinv [OF inv r _ that]]) auto
  with Some inv pend show ?thesis by (simp add: syscall_timer_wait_def Let_def split_def)
qed

lemma clock_gettime_kinv:
  assumes "kinv s"
  shows "ok (syscall_clock_gettime r s) kinv"
  using assms by (simp add: syscall_clock_gettime_def Let_def)

end
