(* ===== verification/Vid_Map.thy ===== *)
theory Vid_Map
  imports Kernel_Moves Demo
begin

text \<open>
  The life of thread identifiers: \<^verbatim>\<open>noza_os_insert_vid\<close> finds an unused identifier within 33
  candidates whatever is in use, and inserting, removing and renaming identifiers keep the map exact
  (\<open>vid_ok\<close>).
\<close>

section \<open>The map is exact\<close>

lemma vid_okD:
  assumes "vid_ok M s"
  shows "chain_inv (slot s)" and "get_thread_by_vid v s = Some p \<longleftrightarrow> p \<in> M \<and> vid (thread s p) = v"
    and "M \<subseteq> {..<NOZA_OS_TASK_LIMIT}" and "free_vid_map s + card M = NOZA_OS_TASK_LIMIT"
    and "1 \<le> next_vid s" and "next_vid s < 65536" and "finite M"
    and "get_thread_by_vid 0 s \<noteq> None \<Longrightarrow> reserved_vid0_assigned s"
  using assms by (auto simp: vid_ok_def intro: finite_subset)

lemma vid_ok_vmap_inv: "vid_ok M s \<Longrightarrow> vmap_inv (slot s)"
  using vid_okD(1,2) [of M s] by (auto simp: vmap_inv_def get_thread_by_vid_def)

text \<open>Distinct threads of the map have distinct identifiers.\<close>

lemma vid_ok_inj: "vid_ok M s \<Longrightarrow> inj_on (\<lambda>p. vid (thread s p)) M"
  by (rule inj_onI) (metis option.inject vid_okD(2))

lemma card_less_limit: "M \<subseteq> {..<NOZA_OS_TASK_LIMIT} \<Longrightarrow> p < NOZA_OS_TASK_LIMIT \<Longrightarrow> p \<notin> M \<Longrightarrow> card M < NOZA_OS_TASK_LIMIT"
  using psubset_card_mono [of "{..<NOZA_OS_TASK_LIMIT}" M] by auto

section \<open>Choosing an identifier\<close>

definition vid_cand :: "nat \<Rightarrow> nat \<Rightarrow> nat" where
  "vid_cand n i = (n - 1 + i) mod 65535 + 1"

lemma vid_cand_range: "1 \<le> vid_cand n i \<and> vid_cand n i < 65536"
  using mod_less_divisor [of 65535 "n - 1 + i"] by (simp add: vid_cand_def)

lemma vid_cand_0: "1 \<le> n \<Longrightarrow> n < 65536 \<Longrightarrow> vid_cand n 0 = n"
  by (simp add: vid_cand_def)

lemma vid_cand_Suc:
  "1 \<le> n \<Longrightarrow> n < 65536 \<Longrightarrow> vid_cand (if n + 1 \<ge> 65536 then 1 else n + 1) i = vid_cand n (Suc i)"
proof (cases "n + 1 \<ge> 65536")
  case True
  moreover assume "1 \<le> n" "n < 65536"
  ultimately have "n = 65535" by simp
  then have "n - 1 + Suc i = 65535 + i" by simp
  then show ?thesis using True unfolding vid_cand_def by (simp only: mod_add_self1) simp
next
  case False
  moreover assume "1 \<le> n"
  ultimately show ?thesis by (simp add: vid_cand_def)
qed

lemma vid_cand_inj: "inj_on (vid_cand n) {..<k}" if "k \<le> 65535"
proof (rule inj_onI)
  fix i j assume ij: "i \<in> {..<k}" "j \<in> {..<k}" and eq: "vid_cand n i = vid_cand n j"
  have "(n - 1 + i) mod 65535 = (n - 1 + j) mod 65535" using eq by (simp add: vid_cand_def)
  then have "i mod 65535 = j mod 65535" by (simp add: nat_mod_eq_iff)
  with ij that show "i = j" by simp
qed

text \<open>The search gives up only after \<open>k\<close> candidates that are all in use.\<close>

lemma vid_search_cases:
  assumes "1 \<le> n" and "n < 65536"
  shows "(\<exists>i < k. vid_search k n s = Inr (vid_cand n i, vid_cand n (Suc i))
            \<and> get_thread_by_vid (of_nat (vid_cand n i)) s = None)
     \<or> (\<forall>i < k. get_thread_by_vid (of_nat (vid_cand n i)) s \<noteq> None)"
  using assms
proof (induction k arbitrary: n)
  case (Suc k)
  let ?n = "if n + 1 \<ge> 65536 then 1 else n + 1"
  have n': "1 \<le> ?n" "?n < 65536" by auto
  note c = vid_cand_Suc [OF Suc.prems]
  show ?case
  proof (cases "get_thread_by_vid (of_nat n) s")
    case None
    have "vid_cand n (Suc 0) = ?n" using c [of 0] vid_cand_0 [OF n'] by simp
    with None vid_cand_0 [OF Suc.prems] show ?thesis by (intro disjI1 exI [of _ 0]) simp
  next
    case (Some p)
    with Suc.IH [OF n'] c vid_cand_0 [OF Suc.prems] show ?thesis
      by (auto simp: Let_def less_Suc_eq_0_disj)
  qed
qed simp

lemma of_nat_vid_cand_inj: "inj_on (\<lambda>i. of_nat (vid_cand n i) :: u32) {..<k}" if "k \<le> 65535"
proof (rule inj_onI)
  fix i j assume ij: "i \<in> {..<k}" "j \<in> {..<k}"
    and "(of_nat (vid_cand n i) :: u32) = of_nat (vid_cand n j)"
  then have "unat (of_nat (vid_cand n i) :: u32) = unat (of_nat (vid_cand n j) :: u32)" by simp
  moreover have "vid_cand n l < 2 ^ 32" for l using vid_cand_range [of n l] by simp
  ultimately have "vid_cand n i = vid_cand n j" by (simp add: unat_of_nat)
  with vid_cand_inj [OF that] ij show "i = j" by (auto dest: inj_onD)
qed

lemma vid_search_finds:
  assumes vo: "vid_ok M s"
  shows "\<exists>i. vid_search (Suc NOZA_OS_TASK_LIMIT) (next_vid s) s
            = Inr (vid_cand (next_vid s) i, vid_cand (next_vid s) (Suc i))
          \<and> get_thread_by_vid (of_nat (vid_cand (next_vid s) i)) s = None"
proof -
  let ?c = "\<lambda>i. of_nat (vid_cand (next_vid s) i) :: u32"
  have "\<not> (\<forall>i < Suc NOZA_OS_TASK_LIMIT. get_thread_by_vid (?c i) s \<noteq> None)"
  proof
    assume all: "\<forall>i < Suc NOZA_OS_TASK_LIMIT. get_thread_by_vid (?c i) s \<noteq> None"
    have "?c i \<in> (\<lambda>p. vid (thread s p)) ` M" if i: "i < Suc NOZA_OS_TASK_LIMIT" for i
    proof -
      from all i obtain p where "get_thread_by_vid (?c i) s = Some p" by blast
      then have "p \<in> M" "?c i = vid (thread s p)" using vid_okD(2) [OF vo] by simp_all
      then show ?thesis by simp
    qed
    then have "?c ` {..<Suc NOZA_OS_TASK_LIMIT} \<subseteq> (\<lambda>p. vid (thread s p)) ` M"
      by (auto simp del: lessThan_Suc)
    then have "card (?c ` {..<Suc NOZA_OS_TASK_LIMIT}) \<le> card ((\<lambda>p. vid (thread s p)) ` M)"
      by (intro card_mono) (simp_all add: vid_okD(7) [OF vo])
    also have "\<dots> \<le> card M" by (rule card_image_le [OF vid_okD(7) [OF vo]])
    also have "\<dots> \<le> NOZA_OS_TASK_LIMIT" using vid_okD(4) [OF vo] by simp
    finally show False by (simp add: card_image of_nat_vid_cand_inj)
  qed
  with vid_search_cases [OF vid_okD(5,6) [OF vo], of "Suc NOZA_OS_TASK_LIMIT" s] show ?thesis
    by blast
qed

section \<open>Inserting and removing\<close>

lemma insert_vid_with_value_ok:
  assumes vo: "vid_ok M s" and p: "p < NOZA_OS_TASK_LIMIT" "p \<notin> M" and v: "get_thread_by_vid v s = None"
    and zero: "v = 0 \<Longrightarrow> reserved_vid0_assigned s"
  defines "s' \<equiv> upd_thread p (\<lambda>t. t\<lparr>vid := v\<rparr>)
      (s\<lparr>free_vid_map := free_vid_map s - 1, slot := chain_insert v p (slot s)\<rparr>)"
  shows "noza_os_insert_vid_with_value p v s = Inr s'" and "vid_ok (insert p M) s'"
proof -
  note D = vid_okD [OF vo]
  have free: "free_vid_map s > 0" using card_less_limit [OF D(3) p] D(4) by simp
  then show "noza_os_insert_vid_with_value p v s = Inr s'"
    by (simp add: noza_os_insert_vid_with_value_def s'_def)
  have look: "get_thread_by_vid w s' = ((\<lambda>w. get_thread_by_vid w s)(v \<mapsto> p)) w" for w
    by (simp add: s'_def get_thread_by_vid_def chain_lookup_insert)
  have vids: "vid (thread s' q) = (if q = p then v else vid (thread s q))" for q
    by (simp add: s'_def)
  have "chain_inv (slot s')"
    using D(1) v by (simp add: s'_def get_thread_by_vid_def chain_inv_insert)
  moreover have "get_thread_by_vid w s' = Some q \<longleftrightarrow> q \<in> insert p M \<and> vid (thread s' q) = w" for w q
    using D(2) [of w q] D(2) [of v q] v p(2) by (cases "w = v"; cases "q = p") (auto simp: look vids)
  moreover have "free_vid_map s' + card (insert p M) = NOZA_OS_TASK_LIMIT"
    using D(4,7) p(2) free by (simp add: s'_def)
  moreover have "get_thread_by_vid 0 s' \<noteq> None \<longrightarrow> reserved_vid0_assigned s'"
    using D(8) zero by (simp add: look) (simp add: s'_def)
  ultimately show "vid_ok (insert p M) s'"
    using D(3,5,6) p(1) by (simp add: vid_ok_def s'_def)
qed

lemma remove_vid_ok:
  assumes vo: "vid_ok M s" and p: "p \<in> M"
  shows "vid_ok (M - {p}) (noza_os_remove_vid p s)"
    and "noza_os_remove_vid p s = upd_thread p (\<lambda>t. t\<lparr>vid := 0\<rparr>)
           (s\<lparr>slot := vid_unlink (vid (thread s p)) p (slot s), free_vid_map := free_vid_map s + 1\<rparr>)"
      (is "_ = ?s'")
proof -
  note D = vid_okD [OF vo]
  let ?v = "vid (thread s p)"
  have look: "chain_lookup (slot s) ?v = Some p" using D(2) [of ?v p] p by (simp add: get_thread_by_vid_def)
  then have "\<exists>x \<in> set (slot s (hash32to8 ?v)). snd x = p"
    unfolding chain_lookup_Some_iff [OF D(1)] by force
  then show eq: "noza_os_remove_vid p s = ?s'"
    by (simp add: noza_os_remove_vid_def vid_unlink_def Let_def)
  note del = vm.lookup_delete [OF vid_ok_vmap_inv [OF vo] look]
  have "chain_inv (slot ?s')"
    using vm.inv_delete [OF vid_ok_vmap_inv [OF vo] look] by (simp add: vmap_inv_def)
  moreover have "get_thread_by_vid w ?s' = Some q \<longleftrightarrow> q \<in> M - {p} \<and> vid (thread ?s' q) = w" for w q
    using D(2) [of w q] D(2) [of ?v q] look
    by (auto simp: get_thread_by_vid_def del)
  moreover have "free_vid_map ?s' + card (M - {p}) = NOZA_OS_TASK_LIMIT"
    using D(4,7) p card_Suc_Diff1 [OF D(7) p] by simp
  moreover have "get_thread_by_vid 0 ?s' \<noteq> None \<longrightarrow> reserved_vid0_assigned ?s'"
    using D(8) by (simp add: get_thread_by_vid_def del)
  ultimately show "vid_ok (M - {p}) (noza_os_remove_vid p s)"
    unfolding eq vid_ok_def using D(3,5,6) by auto
qed

text \<open>Allocation of an identifier: the search ends, and the thread is found under the new identifier.\<close>

definition vid_added :: "u32 \<Rightarrow> nat \<Rightarrow> pid \<Rightarrow> kstate \<Rightarrow> kstate" where
  "vid_added v n p s = upd_thread p (\<lambda>t. t\<lparr>vid := v\<rparr>)
     (s\<lparr>next_vid := n, free_vid_map := free_vid_map s - 1, slot := chain_insert v p (slot s)\<rparr>)"

lemma insert_vid_ok:
  assumes vo: "vid_ok M s" and p: "p < NOZA_OS_TASK_LIMIT" "p \<notin> M"
  obtains v n where "get_thread_by_vid v s = None" and "v \<noteq> 0"
    and "noza_os_insert_vid p s = Inr (vid_added v n p s)"
    and "vid_ok (insert p M) (vid_added v n p s)"
proof -
  from vid_search_finds [OF vo] obtain i where
    i: "vid_search (Suc NOZA_OS_TASK_LIMIT) (next_vid s) s
          = Inr (vid_cand (next_vid s) i, vid_cand (next_vid s) (Suc i))"
      "get_thread_by_vid (of_nat (vid_cand (next_vid s) i)) s = None" by blast
  let ?v = "of_nat (vid_cand (next_vid s) i) :: u32" and ?n = "vid_cand (next_vid s) (Suc i)"
  let ?s = "s\<lparr>next_vid := ?n\<rparr>"
  have v0: "?v \<noteq> 0" using vid_cand_range [of "next_vid s" i]
    by (auto simp: word_of_nat_eq_0_iff dest: nat_dvd_not_less)
  have vo': "vid_ok M ?s"
    using vo vid_cand_range [of "next_vid s" "Suc i"] by (simp add: vid_ok_def get_thread_by_vid_def)
  have v: "get_thread_by_vid ?v ?s = None" using i(2) by (simp add: get_thread_by_vid_def)
  note ins = insert_vid_with_value_ok [OF vo' p v]
  show thesis
  proof (rule that [OF i(2) v0, of ?n])
    show "noza_os_insert_vid p s = Inr (vid_added ?v ?n p s)"
      unfolding noza_os_insert_vid_def i(1) using ins(1) v0 by (simp add: vid_added_def)
    show "vid_ok (insert p M) (vid_added ?v ?n p s)"
      using ins(2) v0 by (simp add: vid_added_def)
  qed
qed

section \<open>Properties\<close>

lemma get_thread_added:
  "get_thread_by_vid w (vid_added v n p s) = (if w = v then Some p else get_thread_by_vid w s)"
  by (simp add: vid_added_def get_thread_by_vid_def chain_lookup_insert)

text \<open>C11: The search for an unused thread identifier always ends: whatever identifiers are in use,
  \<^verbatim>\<open>noza_os_insert_vid\<close> gives a free thread a non-zero identifier that nobody has, under which the
  thread is found from then on, and leaves all other identifiers alone.\<close>

theorem insert_vid_terminates:
  assumes inv: "kinv s" and p: "p \<in> set (lists s L_free)"
  shows "\<exists>s' v. noza_os_insert_vid p s = Inr s' \<and> v \<noteq> 0 \<and> get_thread_by_vid v s = None
    \<and> vid (thread s' p) = v \<and> get_thread_by_vid v s' = Some p
    \<and> (\<forall>w. w \<noteq> v \<longrightarrow> get_thread_by_vid w s' = get_thread_by_vid w s)"
proof -
  note k = kinv_in_list [OF inv p, simplified]
  have "p \<notin> used s" using k(3) by (simp add: used_def)
  from insert_vid_ok [OF kinv_exD(4) [OF inv] k(1) this] obtain v n where
    v: "get_thread_by_vid v s = None" "v \<noteq> 0" "noza_os_insert_vid p s = Inr (vid_added v n p s)" by blast
  moreover have "vid (thread (vid_added v n p s) p) = v" by (simp add: vid_added_def)
  ultimately show ?thesis
    by (intro exI [of _ "vid_added v n p s"] exI [of _ v] conjI) (simp_all add: get_thread_added)
qed

theorem insert_vid_terminates_witness:
  "\<exists>s' v. noza_os_insert_vid 14 demo = Inr s' \<and> v \<noteq> 0 \<and> get_thread_by_vid v s' = Some 14
     \<and> (\<forall>w. w \<noteq> v \<longrightarrow> get_thread_by_vid w s' = get_thread_by_vid w demo)"
proof -
  have "14 \<in> set (lists demo L_free)" by (simp del: upt_rec_numeral)
  from insert_vid_terminates [OF demo_kinv this] show ?thesis by blast
qed

end
