(* ===== verification/Thread_Ops.thy ===== *)
theory Thread_Ops
  imports Wait_Queue Vid_Map
begin

text \<open>
  The life of threads (\<^verbatim>\<open>kernel/noza_os.c\<close>): allocation and creation, interruption by signals, exit and
  termination, and the system calls on threads.
\<close>

section \<open>Creation\<close>

definition noza_thread_alloc :: "kstate \<Rightarrow> (pid option \<times> kstate) res" where
  "noza_thread_alloc s =
     (case lists s L_free of
        [] \<Rightarrow> Inr (None, s)
      | th # _ \<Rightarrow>
          bindE (noza_os_remove_thread L_free th s) (\<lambda>s1.
          let s2 = upd_thread th (\<lambda>t. t\<lparr>flags := 0, callid := 255,
                     trap := (trap t)\<lparr>trap_state := SYSCALL_DONE\<rparr>, signal_pending := 0, signal_mask := 0,
                     pending_recv_msg := None, identity := k_default_identity,
                     message := (message t)\<lparr>om_identity := k_default_identity\<rparr>\<rparr>) s1
          in bindE (noza_os_insert_vid th s2) (\<lambda>s3. Inr (Some th, s3))))"

text \<open>\<^verbatim>\<open>arch/arm_m/build_stack.c\<close>: the exception frame a new thread starts from, and the copy of return
  values into the frame of a thread that is resumed. Words of the frame that are not written keep what
  the stack area held.\<close>

definition arch_build_stack :: "u32 \<Rightarrow> u32 \<Rightarrow> u32 \<Rightarrow> interrupted_stack_t \<Rightarrow> interrupted_stack_t" where
  "arch_build_stack thread_id entry param is =
     is\<lparr>is_lr := 0xFFFFFFFD, is_pc := entry, is_xpsr := 0x01000000, is_r0 := param, is_r1 := thread_id\<rparr>"

definition arch_trap :: "kernel_trap_info_t \<Rightarrow> interrupted_stack_t \<Rightarrow> interrupted_stack_t" where
  "arch_trap info is = is\<lparr>is_r0 := r0 info, is_r1 := r1 info, is_r2 := r2 info, is_r3 := r3 info\<rparr>"

definition noza_make_app_context :: "pid \<Rightarrow> u32 \<Rightarrow> u32 \<Rightarrow> kstate \<Rightarrow> kstate" where
  "noza_make_app_context th entry param =
     upd_thread th (\<lambda>t. t\<lparr>frame := arch_build_stack (vid t) entry param (frame t)\<rparr>)"

text \<open>The result is the error number and, on success, the identifier stored through \<^verbatim>\<open>pth\<close>.\<close>

definition noza_os_thread_create :: "u32 \<Rightarrow> u32 \<Rightarrow> u32 \<Rightarrow> u32 \<Rightarrow> kstate \<Rightarrow> (u32 \<times> u32 option \<times> kstate) res" where
  "noza_os_thread_create entry param prio reserved_vid s =
     (if prio \<ge> of_nat NOZA_OS_PRIORITY_LIMIT then Inr (EINVAL, None, s)
      else
        bindE (noza_thread_alloc s) (\<lambda>(tho, s1).
        case tho of
          None \<Rightarrow> Inr (EAGAIN, None, s1)
        | Some th \<Rightarrow>
            let s2 = noza_thread_set_identity th (noza_os_get_running_thread s1) s1;
                s3 = upd_thread th (\<lambda>t. t\<lparr>message := (message t)\<lparr>om_identity := identity t\<rparr>,
                       priority := unat prio, flags := 0, signal_pending := 0, signal_mask := 0\<rparr>) s2
            in bindE (noza_os_add_thread (L_ready (unat prio)) th s3) (\<lambda>s4.
               let s5 = noza_make_app_context th entry param s4;
                   assigned0 = (reserved_vid \<noteq> NOZA_VID_AUTO \<and> reserved_vid = 0
                                \<and> \<not> reserved_vid0_assigned s5);
                   s6 = (if assigned0 then s5\<lparr>reserved_vid0_assigned := True\<rparr> else s5);
                   assigned = (assigned0 \<or> reserved_vid \<noteq> NOZA_VID_AUTO \<and> reserved_vid \<noteq> 0
                                \<and> get_thread_by_vid reserved_vid s5 = None)
               in bindE (if assigned then noza_os_insert_vid_with_value th reserved_vid (noza_os_remove_vid th s6)
                         else Inr s6)
                    (\<lambda>s7. Inr (0, Some (vid (thread s7 th)), s7)))))"

section \<open>Signals that interrupt\<close>

definition noza_signal_interrupt_thread :: "pid \<Rightarrow> kstate \<Rightarrow> kstate res" where
  "noza_signal_interrupt_thread target s =
     (case th_state (thread s target) of
        THREAD_WAITING_SYNC \<Rightarrow>
          bindE (case waiting_queue (thread s target) of
                   Some w \<Rightarrow> bindE (noza_wait_queue_remove w target s)
                              (\<lambda>s1. Inr (upd_thread target (\<lambda>t. t\<lparr>waiting_queue := None\<rparr>) s1))
                 | None \<Rightarrow> Inr s) (\<lambda>s1.
          bindE (noza_wait_queue_cancel_timeout target s1) (\<lambda>s2.
          bindE (noza_os_add_thread (L_ready (priority (thread s2 target))) target s2) (\<lambda>s3.
          Inr (noza_os_set_return_value1 target EINTR s3))))
      | THREAD_WAITING_MSG \<Rightarrow>
          bindE (noza_os_change_state target L_wait (L_ready (priority (thread s target))) s) (\<lambda>s1.
          Inr (noza_os_set_return_value1 target EINTR
                 (upd_thread target (\<lambda>t. t\<lparr>pending_recv_msg := None\<rparr>) s1)))
      | THREAD_SLEEP \<Rightarrow>
          bindE (noza_os_change_state target L_sleep (L_ready (priority (thread s target))) s) (\<lambda>s1.
          Inr (noza_os_set_return_value1 target EINTR s1))
      | _ \<Rightarrow> Inr s)"

definition noza_signal_send_thread :: "pid \<Rightarrow> u32 \<Rightarrow> kstate \<Rightarrow> kstate res" where
  "noza_signal_send_thread target signum s =
     (if signum = 0 \<or> signum > 32 then Inr s
      else
        let b = push_bit (unat (signum - 1)) (1 :: u32);
            s1 = upd_thread target (\<lambda>t. t\<lparr>signal_pending := signal_pending t OR b\<rparr>) s
        in if signal_mask (thread s1 target) AND b = 0 then noza_signal_interrupt_thread target s1
           else Inr s1)"

section \<open>Exit\<close>

text \<open>The search for the port at which a thread waits, and for the thread it waits to join: the first in
  the order of the thread table, the pending list of a port before its reply list.\<close>

definition noza_find_port_wait_owner :: "pid \<Rightarrow> kstate \<Rightarrow> lid option" where
  "noza_find_port_wait_owner target s =
     find (\<lambda>l. target \<in> set (lists s l))
       (concat (map (\<lambda>i. [L_pending i, L_reply i]) [0..<NOZA_OS_TASK_LIMIT]))"

definition noza_find_join_owner :: "pid \<Rightarrow> kstate \<Rightarrow> pid option" where
  "noza_find_join_owner joiner s =
     find (\<lambda>i. join_th (thread s i) = Some joiner) [0..<NOZA_OS_TASK_LIMIT]"

definition noza_detach_blocked_thread :: "pid \<Rightarrow> kstate \<Rightarrow> (u32 \<times> kstate) res" where
  "noza_detach_blocked_thread target s =
     (case th_state (thread s target) of
        THREAD_READY \<Rightarrow>
          bindE (noza_os_remove_thread (L_ready (priority (thread s target))) target s) (\<lambda>s1. Inr (0, s1))
      | THREAD_WAITING_MSG \<Rightarrow>
          bindE (noza_os_remove_thread L_wait target s) (\<lambda>s1.
          Inr (0, upd_thread target (\<lambda>t. t\<lparr>pending_recv_msg := None\<rparr>) s1))
      | THREAD_WAITING_SYNC \<Rightarrow>
          bindE (case waiting_queue (thread s target) of
                   Some w \<Rightarrow> bindE (noza_wait_queue_remove w target s)
                              (\<lambda>s1. Inr (upd_thread target (\<lambda>t. t\<lparr>waiting_queue := None\<rparr>) s1))
                 | None \<Rightarrow> Inr s) (\<lambda>s1.
          bindE (noza_wait_queue_cancel_timeout target s1) (\<lambda>s2. Inr (0, s2)))
      | THREAD_SLEEP \<Rightarrow>
          bindE (noza_os_remove_thread L_sleep target s) (\<lambda>s1.
          Inr (0, upd_thread target (\<lambda>t. t\<lparr>expired_time := 0\<rparr>) s1))
      | THREAD_WAITING_READ \<Rightarrow>
          (case noza_find_port_wait_owner target s of
             None \<Rightarrow> Inr (ESRCH, s)
           | Some l \<Rightarrow> bindE (noza_os_remove_thread l target s) (\<lambda>s1. Inr (0, s1)))
      | THREAD_WAITING_REPLY \<Rightarrow>
          (case noza_find_port_wait_owner target s of
             None \<Rightarrow> Inr (ESRCH, s)
           | Some l \<Rightarrow> bindE (noza_os_remove_thread l target s) (\<lambda>s1. Inr (0, s1)))
      | THREAD_PENDING_JOIN \<Rightarrow>
          (case noza_find_join_owner target s of
             None \<Rightarrow> Inr (0, s)
           | Some ow \<Rightarrow> Inr (0, upd_thread ow (\<lambda>t. t\<lparr>join_th := None\<rparr>) s))
      | THREAD_STOPPED \<Rightarrow>
          bindE (noza_os_remove_thread L_stopped target s) (\<lambda>s1. Inr (0, s1))
      | THREAD_RUNNING \<Rightarrow>
          (if noza_os_get_running_thread s \<noteq> Some target then Inr (EBUSY, s) else Inr (0, s))
      | THREAD_ZOMBIE \<Rightarrow> Inr (ESRCH, s)
      | THREAD_FREE \<Rightarrow> Inr (ESRCH, s))"

definition noza_release_join_waiter :: "pid \<Rightarrow> kstate \<Rightarrow> kstate res" where
  "noza_release_join_waiter target s =
     (case join_th (thread s target) of
        None \<Rightarrow> Inr s
      | Some j \<Rightarrow>
          bindE (noza_os_add_thread (L_ready (priority (thread s j))) j s) (\<lambda>s1.
          Inr (upd_thread target (\<lambda>t. t\<lparr>join_th := None\<rparr>)
                 (noza_os_set_return_value2 j 0 (exit_code (thread s1 target)) s1))))"

definition noza_finalize_thread_exit :: "pid \<Rightarrow> kstate \<Rightarrow> kstate res" where
  "noza_finalize_thread_exit target s =
     (let s1 = upd_thread target (\<lambda>t. t\<lparr>port_st := PORT_WAIT_LISTEN, pending_recv_msg := None,
                 waiting_queue := None, expired_time := 0\<rparr>) s
      in bindE (noza_release_waiters_from_port target EINTR s1) (\<lambda>s2.
         if join_th (thread s2 target) = None then
           (if flags (thread s2 target) AND FLAG_DETACH \<noteq> 0 then noza_os_add_thread L_free target s2
            else noza_os_add_thread L_zombie target s2)
         else
           bindE (noza_release_join_waiter target s2) (noza_os_add_thread L_free target)))"

definition noza_terminate_thread :: "pid \<Rightarrow> u32 \<Rightarrow> kstate \<Rightarrow> (u32 \<times> kstate) res" where
  "noza_terminate_thread target code s =
     bindE (noza_detach_blocked_thread target s) (\<lambda>(rc, s1).
     if rc \<noteq> 0 then Inr (rc, s1)
     else
       bindE (noza_finalize_thread_exit target (upd_thread target (\<lambda>t. t\<lparr>exit_code := code\<rparr>) s1)) (\<lambda>s2.
       Inr (0, if noza_os_get_running_thread s2 = Some target then noza_os_clear_running_thread s2 else s2)))"

section \<open>Unlinking a thread\<close>

definition unlinked :: "kstate \<Rightarrow> pid \<Rightarrow> bool" where
  "unlinked s p \<longleftrightarrow> on_lists s p = {} \<and> on_wqs s p = {} \<and> joins s p = {} \<and> waiting_queue (thread s p) = None"

lemma kinv_settle:
  assumes inv: "kinv_ex (insert p X) s" and p: "p < NOZA_OS_TASK_LIMIT" and th: "thread_ok s p"
  shows "kinv_ex (X - {p}) s"
proof -
  have "sched_ok (X - {p}) s"
    by (rule sched_okI [where P = "{p}", OF kinv_exD(1) [OF inv]])
       (use p th sched_ok_distinct [OF kinv_exD(1) [OF inv]] in auto)
  with inv show ?thesis by (simp add: kinv_ex_def)
qed

lemma detach_list:
  assumes inv: "kinv s" and p: "p < NOZA_OS_TASK_LIMIT" and l: "parked s p {l}"
  shows "noza_os_remove_thread l p s = Inr (upd_list l (remove1 p) s)"
    and "kinv_ex {p} (upd_list l (remove1 p) s)" and "unlinked (upd_list l (remove1 p) s) p"
    and "on_cores s p = {}"
proof -
  from l have "p \<in> set (lists s l)" by (simp add: parked_def in_lists_on)
  note k = kinv_in_list [OF inv this] this
  show "noza_os_remove_thread l p s = Inr (upd_list l (remove1 p) s)"
    by (rule remove_thread_eq) (use k in simp_all)
  show "kinv_ex {p} (upd_list l (remove1 p) s)" by (rule kinv_transit_list [OF inv p])
  show "unlinked (upd_list l (remove1 p) s) p" "on_cores s p = {}"
    using l sched_ok_distinct [OF kinv_exD(1) [OF inv]] by (simp_all add: unlinked_def parked_def)
qed

lemma unqueue_ok':
  assumes inv: "kinv_ex X s" and p: "p < NOZA_OS_TASK_LIMIT" "p \<notin> X"
    and st: "th_state (thread s p) = THREAD_WAITING_SYNC"
  obtains w where "waiting_queue (thread s p) = Some w"
    and "\<And>f :: kstate \<Rightarrow> 'b res. bindE (case waiting_queue (thread s p) of
          Some w \<Rightarrow> bindE (noza_wait_queue_remove w p s)
                     (\<lambda>s1. Inr (upd_thread p (\<lambda>t. t\<lparr>waiting_queue := None\<rparr>) s1))
        | None \<Rightarrow> Inr s) (\<lambda>s1. bindE (noza_wait_queue_cancel_timeout p s1) f) = f (unqueue w p s)"
    and "kinv_ex (insert p X) (unqueue w p s)" and "loose (unqueue w p s) p"
proof -
  obtain w where w: "waiting_queue (thread s p) = Some w" "p \<in> set (wqs s w)"
    by (rule kinv_waiting_sync [OF inv p st]) (rule that)
  note u = unqueue_ok [OF inv p st w(1)]
  have rm: "noza_wait_queue_remove w p s
      = Inr (upd_thread p (\<lambda>t. t\<lparr>waiting_queue := None\<rparr>) (upd_wq w (remove1 p) s))"
    using w by (simp add: noza_wait_queue_remove_def)
  have twice: "upd_thread p (\<lambda>t. t\<lparr>waiting_queue := None\<rparr>) (upd_thread p (\<lambda>t. t\<lparr>waiting_queue := None\<rparr>) x)
      = upd_thread p (\<lambda>t. t\<lparr>waiting_queue := None\<rparr>) x" for x
    by (simp add: upd_thread_def)
  have c: "noza_wait_queue_cancel_timeout p (upd_thread p (\<lambda>t. t\<lparr>waiting_queue := None\<rparr>) (upd_wq w (remove1 p) s))
      = Inr (unqueue w p s)"
    using u(1) unfolding rm bindE.simps .
  show thesis
  proof (rule that [OF w(1) _ u(2,3)])
    show "bindE (case waiting_queue (thread s p) of
          Some w \<Rightarrow> bindE (noza_wait_queue_remove w p s)
                     (\<lambda>s1. Inr (upd_thread p (\<lambda>t. t\<lparr>waiting_queue := None\<rparr>) s1))
        | None \<Rightarrow> Inr s) (\<lambda>s1. bindE (noza_wait_queue_cancel_timeout p s1) f) = f (unqueue w p s)"
      for f :: "kstate \<Rightarrow> 'b res"
      unfolding w(1) option.case rm bindE.simps twice c ..
  qed
qed

lemma find_port_wait_owner_eq:
  assumes "on_lists s p = {l}" and "l = L_pending ow \<or> l = L_reply ow" and "ow < NOZA_OS_TASK_LIMIT"
  shows "noza_find_port_wait_owner p s = Some l"
  unfolding noza_find_port_wait_owner_def
  using assms by (intro find_unique) (auto simp: in_lists_on simp del: upt_rec_numeral)

lemma find_join_owner_eq:
  assumes "joins s p = {t}"
  shows "noza_find_join_owner p s = Some t" and "t < NOZA_OS_TASK_LIMIT" and "join_th (thread s t) = Some p"
proof -
  have iff: "i < NOZA_OS_TASK_LIMIT \<and> join_th (thread s i) = Some p \<longleftrightarrow> i = t" for i
    using assms by (auto simp: joins_def)
  from iff [of t] show "t < NOZA_OS_TASK_LIMIT" and "join_th (thread s t) = Some p" by simp_all
  show "noza_find_join_owner p s = Some t"
    unfolding noza_find_join_owner_def
    using iff by (intro find_unique) (auto simp del: upt_rec_numeral)
qed

lemma joins_unjoin:
  "joins (upd_thread t (\<lambda>x. x\<lparr>join_th := None\<rparr>) s) q = joins s q - {t}"
  by (auto simp: joins_def)

lemma detach_join:
  assumes inv: "kinv s" and p: "p < NOZA_OS_TASK_LIMIT" and j: "joins s p = {t}"
    and st: "th_state (thread s p) = THREAD_PENDING_JOIN"
  shows "kinv_ex {p} (upd_thread t (\<lambda>x. x\<lparr>join_th := None\<rparr>) s)"
    and "unlinked (upd_thread t (\<lambda>x. x\<lparr>join_th := None\<rparr>) s) p"
proof -
  let ?s = "upd_thread t (\<lambda>x. x\<lparr>join_th := None\<rparr>) s"
  note tj = find_join_owner_eq [OF j]
  have other: "t \<notin> joins s q" if "q \<noteq> p" for q using that tj(3) by (simp add: joins_def)
  show "kinv_ex {p} ?s"
  proof (rule kinv_transitI [OF inv p])
    show "conf ?s q = conf s q" if "q \<noteq> p" for q
      using other [OF that] by (auto simp: conf_def joins_unjoin wait_timeout_def)
    show "owners_ok ?s"
      by (rule owners_okI [where Ow = "{}", OF kinv_exD(3) [OF inv]]) (auto simp: live_def)
    show "vid_ok (used ?s) ?s" by (rule vid_ok_same [OF kinv_exD(4) [OF inv]]) auto
    show "prio_ok ?s" by (rule prio_ok_same [OF kinv_exD(2) [OF inv]]) auto
    show "timers_ok ?s" by (rule timers_ok_same [OF kinv_exD(5) [OF inv]]) auto
  qed (use sched_ok_distinct [OF kinv_exD(1) [OF inv]] in simp_all)
  from kinv_thread [OF inv p] st j show "unlinked ?s p"
    by (auto simp: thread_ok_def unlinked_def joins_unjoin)
qed

text \<open>What detaching a thread that can be detached achieves.\<close>

definition detached :: "kstate \<Rightarrow> pid \<Rightarrow> kstate \<Rightarrow> bool" where
  "detached s p s1 \<longleftrightarrow> kinv_ex {p} s1 \<and> unlinked s1 p \<and> live (thread s1 p) \<and> running s1 = running s
     \<and> cpu s1 = cpu s \<and> on_cores s p \<subseteq> {cpu s} \<and> vid (thread s1 p) = vid (thread s p)
     \<and> join_th (thread s1 p) = (if join_th (thread s p) = Some p then None else join_th (thread s p))
     \<and> flags (thread s1 p) AND FLAG_DETACH = flags (thread s p) AND FLAG_DETACH"

lemma kinv_live:
  assumes "kinv_ex X s" and "p < NOZA_OS_TASK_LIMIT" "p \<notin> X" and "join_th (thread s p) = Some p"
  shows "joins s p = {p}" and "th_state (thread s p) = THREAD_PENDING_JOIN"
proof -
  have "p \<in> joins s p" using assms(2,4) by (simp add: joins_def)
  with kinv_thread [OF assms(1-3)] show "joins s p = {p}" and "th_state (thread s p) = THREAD_PENDING_JOIN"
    by (auto simp: thread_ok_def parked_def split: thread_state.splits)
qed

lemma detached_list:
  assumes inv: "kinv s" and p: "p < NOZA_OS_TASK_LIMIT" and l: "parked s p {l}" and live: "live (thread s p)"
  shows "detached s p (upd_list l (remove1 p) s)"
proof -
  note d = detach_list [OF inv p l]
  from l kinv_live(1) [OF inv p] have "join_th (thread s p) \<noteq> Some p" by (auto simp: parked_def)
  with d live show ?thesis by (simp add: detached_def)
qed

lemma detached_upd:
  assumes "detached s p s1" and "core_of (f (thread s1 p)) = core_of (thread s1 p)"
  shows "detached s p (upd_thread p f s1)"
  using assms by (auto simp: detached_def kinv_ex_upd_thread_same unlinked_def live_def core_of_def)

lemma detached_queue:
  assumes inv: "kinv s" and p: "p < NOZA_OS_TASK_LIMIT"
    and st: "th_state (thread s p) = THREAD_WAITING_SYNC" and w: "waiting_queue (thread s p) = Some w"
    and u: "kinv_ex {p} (unqueue w p s)" "loose (unqueue w p s) p"
  shows "detached s p (unqueue w p s)"
proof -
  have join: "join_th (thread (unqueue w p s) p) = join_th (thread s p)"
    "vid (thread (unqueue w p s) p) = vid (thread s p)"
    by (simp_all add: unqueue_def Let_def)
  from st kinv_live(2) [OF inv p] have nj: "join_th (thread s p) \<noteq> Some p" by auto
  have "(f AND NOT FLAG_WAIT_TIMEOUT) AND FLAG_DETACH = f AND FLAG_DETACH" for f :: u8
    by (rule bit_word_eqI) (auto simp: bit_simps)
  then have "flags (thread (unqueue w p s) p) AND FLAG_DETACH = flags (thread s p) AND FLAG_DETACH"
    by (simp add: unqueue_def Let_def)
  moreover have "on_cores s p = {}" using kinv_thread [OF inv p] st by (simp add: thread_ok_def)
  ultimately show ?thesis
    using u st join nj by (simp add: detached_def unlinked_def loose_def parked_def live_def)
qed

lemma detached_join:
  assumes inv: "kinv s" and p: "p < NOZA_OS_TASK_LIMIT" and j: "joins s p = {t}"
    and st: "th_state (thread s p) = THREAD_PENDING_JOIN"
  shows "detached s p (upd_thread t (\<lambda>x. x\<lparr>join_th := None\<rparr>) s)"
proof -
  note d = detach_join [OF inv p j st] and tj = find_join_owner_eq [OF j]
  have "on_cores s p = {}" using kinv_thread [OF inv p] st by (simp add: thread_ok_def)
  moreover have "join_th (thread s p) = Some p \<longleftrightarrow> t = p"
  proof
    assume "join_th (thread s p) = Some p"
    with p have "p \<in> joins s p" by (simp add: joins_def)
    with j show "t = p" by simp
  qed (use tj(3) in simp)
  ultimately show ?thesis using d st tj(3) by (cases "p = t") (simp_all add: detached_def live_def)
qed

lemma detached_running:
  assumes inv: "kinv s" and r: "running s (cpu s) = Some p"
  shows "detached s p s"
proof -
  note lt = kinv_running(1) [OF inv r] and th = thread_ok_running [OF kinv_running(2) [OF inv r] r]
  have "join_th (thread s p) \<noteq> Some p" using kinv_live(2) [OF inv lt] th(1) by auto
  moreover have "kinv_ex {p} s" using inv by (simp add: kinv_ex_def sched_ok_def)
  ultimately show ?thesis using th by (simp add: detached_def unlinked_def live_def)
qed

text \<open>Detaching a thread that waits in a queue.\<close>

lemma detach_queue_ok:
  assumes inv: "kinv s" and p: "p < NOZA_OS_TASK_LIMIT" and st: "th_state (thread s p) = THREAD_WAITING_SYNC"
  shows "\<exists>s1. noza_detach_blocked_thread p s = Inr (0, s1) \<and> detached s p s1"
proof (rule unqueue_ok' [OF inv p _ st])
  fix w assume w: "waiting_queue (thread s p) = Some w"
    and f: "\<And>f :: kstate \<Rightarrow> (u32 \<times> kstate) res. bindE (case waiting_queue (thread s p) of
        Some w \<Rightarrow> bindE (noza_wait_queue_remove w p s)
                   (\<lambda>s1. Inr (upd_thread p (\<lambda>t. t\<lparr>waiting_queue := None\<rparr>) s1))
      | None \<Rightarrow> Inr s) (\<lambda>s1. bindE (noza_wait_queue_cancel_timeout p s1) f) = f (unqueue w p s)"
    and u: "kinv_ex {p} (unqueue w p s)" "loose (unqueue w p s) p"
  have "noza_detach_blocked_thread p s = Inr (0, unqueue w p s)"
    unfolding noza_detach_blocked_thread_def st thread_state.case f ..
  with detached_queue [OF inv p st w u] show ?thesis by blast
qed simp

lemma owners_okD:
  assumes "owners_ok s" and "q \<in> set (lists s l)" and "l = L_pending ow \<or> l = L_reply ow"
  shows "ow < NOZA_OS_TASK_LIMIT" and "live (thread s ow)"
proof -
  have "lists s (L_pending ow) \<noteq> [] \<or> lists s (L_reply ow) \<noteq> []" using assms(2,3) by auto
  with assms(1) show "ow < NOZA_OS_TASK_LIMIT" and "live (thread s ow)" by (simp_all add: owners_ok_def)
qed

lemma detach_port_ok:
  assumes inv: "kinv s" and p: "p < NOZA_OS_TASK_LIMIT" and l: "parked s p {l}" "l = L_pending ow \<or> l = L_reply ow"
  shows "noza_detach_blocked_thread p s = Inr (0, upd_list l (remove1 p) s)"
    and "detached s p (upd_list l (remove1 p) s)"
proof -
  from l(1) have on: "on_lists s p = {l}" by (simp add: parked_def)
  then have i: "p \<in> set (lists s l)" by (simp add: in_lists_on)
  note st = kinv_in_list(3) [OF inv i]
  note f = find_port_wait_owner_eq [OF on l(2) owners_okD(1) [OF kinv_exD(3) [OF inv] i l(2)]]
  from st l(2) have st': "th_state (thread s p) = THREAD_WAITING_READ \<or> th_state (thread s p) = THREAD_WAITING_REPLY"
    by auto
  then show "noza_detach_blocked_thread p s = Inr (0, upd_list l (remove1 p) s)"
    using f detach_list(1) [OF inv p l(1)] by (auto simp: noza_detach_blocked_thread_def)
  from st' show "detached s p (upd_list l (remove1 p) s)"
    by (intro detached_list [OF inv p l(1)]) (auto simp: live_def)
qed

text \<open>Detaching from one of the other lists, where some fields of the thread are cleared as well.\<close>

lemma detach_list_ok:
  assumes inv: "kinv s" and p: "p < NOZA_OS_TASK_LIMIT"
    and st: "th_state (thread s p) \<in> {THREAD_READY, THREAD_WAITING_MSG, THREAD_SLEEP, THREAD_STOPPED}"
  shows "\<exists>s1. noza_detach_blocked_thread p s = Inr (0, s1) \<and> detached s p s1"
proof -
  from kinv_thread [OF inv p] st obtain l where l: "parked s p {l}"
      "l \<in> {L_ready (priority (thread s p)), L_wait, L_sleep, L_stopped}"
    by (auto simp: thread_ok_def)
  from l(1) have "p \<in> set (lists s l)" by (simp add: parked_def in_lists_on)
  note sl = kinv_in_list(3) [OF inv this]
  note rm = detach_list(1) [OF inv p l(1)]
  have d: "detached s p (upd_list l (remove1 p) s)"
    using st by (intro detached_list [OF inv p l(1)]) (auto simp: live_def)
  have "detached s p (upd_thread p (\<lambda>t. t\<lparr>pending_recv_msg := None\<rparr>) (upd_list l (remove1 p) s))"
    and "detached s p (upd_thread p (\<lambda>t. t\<lparr>expired_time := 0\<rparr>) (upd_list l (remove1 p) s))"
    by (rule detached_upd [OF d], simp add: core_of_def)+
  with l(2) rm sl d show ?thesis by (auto simp: noza_detach_blocked_thread_def)
qed

theorem detach_ok:
  assumes inv: "kinv s" and p: "p < NOZA_OS_TASK_LIMIT"
  shows "ok (noza_detach_blocked_thread p s) (\<lambda>(rc, s1).
           if \<not> live (thread s p) then rc = ESRCH \<and> s1 = s
           else if th_state (thread s p) = THREAD_RUNNING \<and> running s (cpu s) \<noteq> Some p then rc = EBUSY \<and> s1 = s
           else rc = 0 \<and> detached s p s1)"
proof -
  note th = kinv_thread [OF inv p]
  show ?thesis
  proof (cases "th_state (thread s p)")
    case THREAD_RUNNING
    with detached_running [OF inv] show ?thesis
      by (auto simp: noza_detach_blocked_thread_def live_def noza_os_get_running_thread_def)
  next
    case THREAD_WAITING_SYNC
    with detach_queue_ok [OF inv p] show ?thesis by (auto simp: live_def)
  next
    case THREAD_PENDING_JOIN
    then obtain t where t: "joins s p = {t}" using th by (auto simp: thread_ok_def)
    with find_join_owner_eq [OF t] detached_join [OF inv p t] THREAD_PENDING_JOIN show ?thesis
      by (simp add: noza_detach_blocked_thread_def live_def)
  next
    case THREAD_WAITING_READ
    then obtain ow where ow: "parked s p {L_pending ow}" using th by (auto simp: thread_ok_def)
    from detach_port_ok [OF inv p ow] THREAD_WAITING_READ show ?thesis by (simp add: live_def)
  next
    case THREAD_WAITING_REPLY
    then obtain ow where ow: "parked s p {L_reply ow}" using th by (auto simp: thread_ok_def)
    from detach_port_ok [OF inv p ow] THREAD_WAITING_REPLY show ?thesis by (simp add: live_def)
  qed (use detach_list_ok [OF inv p] in \<open>auto simp: noza_detach_blocked_thread_def live_def\<close>)
qed

section \<open>Burying a thread\<close>

text \<open>A thread without waiters may become a zombie, or give up its identifier and become free.\<close>

definition deserted :: "kstate \<Rightarrow> pid \<Rightarrow> bool" where
  "deserted s p \<longleftrightarrow> lists s (L_pending p) = [] \<and> lists s (L_reply p) = [] \<and> join_th (thread s p) = None"

lemma owners_ok_bury:
  assumes "owners_ok s" and "deserted s p" and "l = L_zombie \<or> l = L_free"
  shows "owners_ok (put l p s)"
proof -
  have l: "lists (put l p s) (L_pending q) = lists s (L_pending q)"
    "lists (put l p s) (L_reply q) = lists s (L_reply q)" for q
    using assms(3) by (auto simp: lists_put)
  show ?thesis
    using assms(1,2) unfolding owners_ok_def l by (auto simp: deserted_def live_def)
qed

lemma bury_zombie:
  assumes inv: "kinv_ex (insert p X) s" and p: "p < NOZA_OS_TASK_LIMIT" and u: "unlinked s p"
    and d: "deserted s p" and nf: "th_state (thread s p) \<noteq> THREAD_FREE"
  shows "noza_os_add_thread L_zombie p s = Inr (put L_zombie p s)"
    and "kinv_ex (insert p X) (put L_zombie p s)"
proof -
  note dl = sched_ok_distinct [OF kinv_exD(1) [OF inv]]
  have nl: "p \<notin> set (lists s l)" for l using u by (simp add: unlinked_def not_on_lists)
  then show "noza_os_add_thread L_zombie p s = Inr (put L_zombie p s)" by (simp add: add_thread_put)
  have "kinv_ex (insert p (insert p X)) (put L_zombie p s)"
  proof (rule kinv_transitI [OF inv p])
    show "distinct (lists (put L_zombie p s) l)" for l using dl nl by (intro distinct_put) auto
    show "conf (put L_zombie p s) q = conf s q" if "q \<noteq> p" for q using that by (simp add: conf_def)
    show "owners_ok (put L_zombie p s)" by (rule owners_ok_bury [OF kinv_exD(3) [OF inv] d]) simp
    show "vid_ok (used (put L_zombie p s)) (put L_zombie p s)"
      by (rule vid_ok_same [OF kinv_exD(4) [OF inv]]) (use nf in auto)
    show "prio_ok (put L_zombie p s)" by (rule prio_ok_same [OF kinv_exD(2) [OF inv]]) simp
    show "timers_ok (put L_zombie p s)" by (rule timers_ok_same [OF kinv_exD(5) [OF inv]]) simp_all
  qed (use dl in simp)
  then show "kinv_ex (insert p X) (put L_zombie p s)" by simp
qed

lemma remove_vid_sel [simp]:
  "lists (noza_os_remove_vid p s) = lists s"
  "wqs (noza_os_remove_vid p s) = wqs s"
  "running (noza_os_remove_vid p s) = running s"
  "cpu (noza_os_remove_vid p s) = cpu s"
  "clock (noza_os_remove_vid p s) = clock s"
  "timers (noza_os_remove_vid p s) = timers s"
  "timer_q (noza_os_remove_vid p s) = timer_q s"
  "futex_slots (noza_os_remove_vid p s) = futex_slots s"
  "next_vid (noza_os_remove_vid p s) = next_vid s"
  "reserved_vid0_assigned (noza_os_remove_vid p s) = reserved_vid0_assigned s"
  "thread (noza_os_remove_vid p s) = (thread s)(p := (thread s p)\<lparr>vid := 0\<rparr>)"
  by (simp_all add: noza_os_remove_vid_def Let_def)

lemma places_remove_vid [simp]:
  "on_lists (noza_os_remove_vid p s) = on_lists s"
  "on_wqs (noza_os_remove_vid p s) = on_wqs s"
  "on_cores (noza_os_remove_vid p s) = on_cores s"
  "joins (noza_os_remove_vid p s) = joins s"
  by (auto simp: on_lists_def on_wqs_def on_cores_def joins_def fun_eq_iff)

definition freed :: "pid \<Rightarrow> kstate \<Rightarrow> kstate" where
  "freed p s = noza_os_remove_vid p (put L_free p s)"

lemma bury_free:
  assumes inv: "kinv_ex (insert p X) s" and p: "p < NOZA_OS_TASK_LIMIT" and u: "unlinked s p"
    and d: "deserted s p" and nf: "th_state (thread s p) \<noteq> THREAD_FREE"
  shows "noza_os_add_thread L_free p s = Inr (freed p s)" and "kinv_ex (insert p X) (freed p s)"
proof -
  note dl = sched_ok_distinct [OF kinv_exD(1) [OF inv]]
  let ?s = "put L_free p s"
  have nl: "p \<notin> set (lists s l)" for l using u by (simp add: unlinked_def not_on_lists)
  then show "noza_os_add_thread L_free p s = Inr (freed p s)" by (simp add: add_thread_free freed_def)
  have ow: "owners_ok ?s" by (rule owners_ok_bury [OF kinv_exD(3) [OF inv] d]) simp
  have used: "used (freed p s) = used s - {p}" by (auto simp: used_def freed_def)
  have "vid_ok (used s) ?s"
    using kinv_exD(4) [OF inv] by (simp add: vid_ok_def get_thread_by_vid_def)
  from remove_vid_ok(1) [OF this, of p] p nf have vo: "vid_ok (used (freed p s)) (freed p s)"
    unfolding used by (simp add: freed_def used_def)
  have "kinv_ex (insert p (insert p X)) (freed p s)"
  proof (rule kinv_transitI [OF inv p _ _ _ _ _ vo])
    show "distinct (lists (freed p s) l)" for l
      using dl nl distinct_put [of s l p L_free] by (simp add: freed_def)
    show "distinct (wqs (freed p s) w)" for w using dl by (simp add: freed_def)
    show "conf (freed p s) q = conf s q" if "q \<noteq> p" for q
      using that by (simp add: conf_def freed_def)
    show "owners_ok (freed p s)" 
      by (rule owners_okI [where Ow = "{}", OF ow]) (auto simp: freed_def live_def)
    show "prio_ok (freed p s)" by (rule prio_ok_same [OF kinv_exD(2) [OF inv]]) (simp add: freed_def)
    show "timers_ok (freed p s)" by (rule timers_ok_same [OF kinv_exD(5) [OF inv]]) (simp_all add: freed_def)
  qed
  then show "kinv_ex (insert p X) (freed p s)" by simp
qed

section \<open>Exit\<close>

definition joined :: "pid \<Rightarrow> pid \<Rightarrow> kstate \<Rightarrow> kstate" where
  "joined j p s = upd_thread p (\<lambda>t. t\<lparr>join_th := None\<rparr>)
     (noza_os_set_return_value2 j 0 (exit_code (thread s p)) (put (L_ready (priority (thread s j))) j s))"

lemma kinv_joiner:
  assumes inv: "kinv_ex X s" and p: "p < NOZA_OS_TASK_LIMIT" "join_th (thread s p) = Some j" "j \<notin> X"
  shows "j < NOZA_OS_TASK_LIMIT" and "th_state (thread s j) = THREAD_PENDING_JOIN" and "joins s j = {p}"
    and "on_lists s j = {}" and "on_wqs s j = {}" and "on_cores s j = {}" and "waiting_queue (thread s j) = None"
proof -
  have pj: "p \<in> joins s j" using p by (simp add: joins_def)
  then show lt: "j < NOZA_OS_TASK_LIMIT"
    using kinv_exD(1) [OF inv] by (cases "j < NOZA_OS_TASK_LIMIT") (auto simp: sched_ok_def)
  from kinv_thread [OF inv lt p(3)] pj
  show "th_state (thread s j) = THREAD_PENDING_JOIN" and "joins s j = {p}" and "on_lists s j = {}"
    and "on_wqs s j = {}" and "on_cores s j = {}" and "waiting_queue (thread s j) = None"
    by (auto simp: thread_ok_def parked_def split: thread_state.splits)
qed

lemma release_join_ok:
  assumes inv: "kinv_ex (insert p X) s" and p: "p < NOZA_OS_TASK_LIMIT" and jn: "join_th (thread s p) = Some j"
    and j: "j \<noteq> p" "j \<notin> X"
  shows "noza_release_join_waiter p s = Inr (joined j p s)" and "kinv_ex (insert p X) (joined j p s)"
proof -
  have jx: "j \<notin> insert p X" using j by simp
  note J = kinv_joiner [OF inv p jn jx] and d = sched_ok_distinct [OF kinv_exD(1) [OF inv]]
  let ?l = "L_ready (priority (thread s j))"
  have lo: "lid_ok ?l" using kinv_prio [OF inv J(1)] by simp
  have nl: "j \<notin> set (lists s l)" for l using J(4) by (rule not_on_lists)
  show "noza_release_join_waiter p s = Inr (joined j p s)"
    using jn lo nl j(1) by (simp add: noza_release_join_waiter_def joined_def add_thread_put)
  have jo: "joins (joined j p s) q = joins s q - {p}" for q
    by (simp add: joined_def joins_unjoin)
  have other: "p \<notin> joins s q" if "q \<noteq> j" for q using that jn by (simp add: joins_def)
  have th: "thread_ok (joined j p s) j"
  proof (rule park_thread_ok [of s j ?l])
    show "joins (joined j p s) j = {}" using J(3) by (simp add: jo)
  qed (use J j(1) in \<open>simp_all add: joined_def\<close>)
  have "sched_ok (insert p X) (joined j p s)"
  proof (rule sched_okI [where P = "{j, p}", OF kinv_exD(1) [OF inv]])
    show "distinct (lists (joined j p s) l)" for l
      using d nl distinct_put [of s l j ?l] by (simp add: joined_def)
    show "conf (joined j p s) q = conf s q" if "q \<notin> {j, p}" for q
      using that other [of q] unfolding conf_def jo by (simp add: joined_def set_return_defs)
  qed (use d p J(1) th in \<open>auto simp: joined_def\<close>)
  moreover have "owners_ok (joined j p s)"
    by (rule owners_okI [where Ow = "{}", OF kinv_exD(3) [OF inv]])
       (auto simp: joined_def lists_put live_def)
  moreover have "vid_ok (used (joined j p s)) (joined j p s)"
    by (rule vid_ok_same [OF kinv_exD(4) [OF inv]]) (use J(2) in \<open>auto simp: joined_def\<close>)
  moreover have "timers_ok (joined j p s)"
    by (rule timers_ok_same [OF kinv_exD(5) [OF inv]]) (simp_all add: joined_def)
  moreover have "prio_ok (joined j p s)"
    by (rule prio_ok_same [OF kinv_exD(2) [OF inv]]) (simp add: joined_def)
  ultimately show "kinv_ex (insert p X) (joined j p s)" by (simp add: kinv_ex_def)
qed

text \<open>After the exit of a thread it is a zombie that keeps its exit code, or, when it was detached or its
  joiner has taken the code, free.\<close>

definition exited :: "pid \<Rightarrow> kstate \<Rightarrow> kstate \<Rightarrow> bool" where
  "exited p s s' \<longleftrightarrow>
     (let t = thread s p
      in th_state (thread s' p) =
           (if join_th t = None \<and> flags t AND FLAG_DETACH = 0 then THREAD_ZOMBIE else THREAD_FREE)
         \<and> (\<forall>j. join_th t = Some j \<longrightarrow> th_state (thread s' j) = THREAD_READY
               \<and> r0 (trap (thread s' j)) = 0 \<and> r1 (trap (thread s' j)) = exit_code t)
         \<and> exit_code (thread s' p) = exit_code t)"

definition buried :: "kstate \<Rightarrow> pid \<Rightarrow> bool" where
  "buried s p \<longleftrightarrow> (\<exists>l. (l = L_zombie \<or> l = L_free) \<and> th_state (thread s p) = state_id l \<and> on_lists s p = {l})
     \<and> on_wqs s p = {} \<and> joins s p = {} \<and> waiting_queue (thread s p) = None"

lemma buried_ok: "buried s p \<Longrightarrow> on_cores s p = {} \<Longrightarrow> thread_ok s p"
  by (auto simp: buried_def thread_ok_def parked_def)

lemma buried_clear [simp]: "buried (noza_os_clear_running_thread s) p = buried s p"
  by (simp add: buried_def)

lemma unlinked_buried:
  assumes "unlinked s p"
  shows "buried (put L_zombie p s) p" and "buried (freed p s) p"
  using assms by (auto simp: buried_def unlinked_def freed_def)

text \<open>The end of \<^verbatim>\<open>noza_finalize_thread_exit\<close>, once the waiters at the port are released.\<close>

definition bury :: "pid \<Rightarrow> kstate \<Rightarrow> kstate" where
  "bury p s =
     (case join_th (thread s p) of
        None \<Rightarrow> if flags (thread s p) AND FLAG_DETACH \<noteq> 0 then freed p s else put L_zombie p s
      | Some j \<Rightarrow> freed p (joined j p s))"

lemma bury_ok:
  assumes inv: "kinv_ex {p} s" and p: "p < NOZA_OS_TASK_LIMIT" and u: "unlinked s p"
    and e: "lists s (L_pending p) = []" "lists s (L_reply p) = []" and live: "live (thread s p)"
  shows "(if join_th (thread s p) = None then
            (if flags (thread s p) AND FLAG_DETACH \<noteq> 0 then noza_os_add_thread L_free p s
             else noza_os_add_thread L_zombie p s)
          else bindE (noza_release_join_waiter p s) (noza_os_add_thread L_free p)) = Inr (bury p s)"
    and "kinv_ex {p} (bury p s)" and "buried (bury p s) p"
    and "running (bury p s) = running s" and "cpu (bury p s) = cpu s" and "exited p s (bury p s)"
proof -
  have nf: "th_state (thread s p) \<noteq> THREAD_FREE" using live by (simp add: live_def)
  have "(if join_th (thread s p) = None then
            (if flags (thread s p) AND FLAG_DETACH \<noteq> 0 then noza_os_add_thread L_free p s
             else noza_os_add_thread L_zombie p s)
          else bindE (noza_release_join_waiter p s) (noza_os_add_thread L_free p)) = Inr (bury p s)
      \<and> kinv_ex {p} (bury p s) \<and> buried (bury p s) p
      \<and> running (bury p s) = running s \<and> cpu (bury p s) = cpu s \<and> exited p s (bury p s)"
  proof (cases "join_th (thread s p)")
    case None
    then have d: "deserted s p" using e by (simp add: deserted_def)
    from bury_zombie [OF inv p u d nf] bury_free [OF inv p u d nf] unlinked_buried [OF u] None
    show ?thesis by (simp add: bury_def exited_def Let_def freed_def)
  next
    case (Some j)
    have ne: "j \<noteq> p" using u Some p by (auto simp: unlinked_def joins_def)
    note r = release_join_ok [OF inv p Some ne]
    have u': "unlinked (joined j p s) p"
      using u ne by (auto simp: unlinked_def joined_def joins_unjoin)
    have d: "deserted (joined j p s) p"
      using e by (simp add: deserted_def joined_def lists_put)
    have nf': "th_state (thread (joined j p s) p) \<noteq> THREAD_FREE" using nf ne by (simp add: joined_def)
    from r bury_free [OF r(2) p u' d nf'] unlinked_buried(2) [OF u'] Some ne show ?thesis
      by (simp add: bury_def exited_def Let_def freed_def joined_def set_return_defs)
  qed
  then show "(if join_th (thread s p) = None then
            (if flags (thread s p) AND FLAG_DETACH \<noteq> 0 then noza_os_add_thread L_free p s
             else noza_os_add_thread L_zombie p s)
          else bindE (noza_release_join_waiter p s) (noza_os_add_thread L_free p)) = Inr (bury p s)"
    and "kinv_ex {p} (bury p s)" and "buried (bury p s) p"
    and "running (bury p s) = running s" and "cpu (bury p s) = cpu s" and "exited p s (bury p s)"
    by simp_all
qed

lemma bury_other:
  assumes "q \<noteq> p" and "join_th (thread s p) \<noteq> Some q"
  shows "thread (bury p s) q = thread s q"
  using assms by (auto simp: bury_def freed_def joined_def set_return_defs split: option.splits)

lemma bury_released:
  assumes inv: "kinv_ex {p} s" and p: "p < NOZA_OS_TASK_LIMIT" "p \<notin> W" and w: "all_released W err s"
  shows "all_released W err (bury p s)"
  unfolding all_released_def
proof
  fix q assume q: "q \<in> W"
  from w q have st: "th_state (thread s q) = THREAD_READY" by (simp add: all_released_def)
  have "join_th (thread s p) \<noteq> Some q"
    using kinv_joiner(2) [OF inv p(1), of q] q p(2) st by auto
  then have "thread (bury p s) q = thread s q" using bury_other [of q p s] q p(2) by auto
  with w q show "th_state (thread (bury p s) q) = THREAD_READY \<and> trap (thread (bury p s) q)
      = \<lparr>r0 = err, r1 = UNDEF_REG, r2 = UNDEF_REG, r3 = UNDEF_REG, trap_state = SYSCALL_OUTPUT\<rparr>"
    by (simp add: all_released_def)
qed

text \<open>The exit leaves all threads alone that wait neither for the thread's replies nor for its end.\<close>

definition spared :: "pid \<Rightarrow> kstate \<Rightarrow> kstate \<Rightarrow> bool" where
  "spared p s s' \<longleftrightarrow>
     (\<forall>q. q \<noteq> p \<and> q \<notin> port_waiters p s \<and> join_th (thread s p) \<noteq> Some q \<longrightarrow> thread s' q = thread s q)
     \<and> (th_state (thread s' p) = THREAD_ZOMBIE \<longrightarrow> vid (thread s' p) = vid (thread s p) \<and> flags (thread s' p) = flags (thread s p)
        \<and> join_th (thread s' p) = None)"

lemma bury_spared: "\<forall>q. q \<noteq> p \<and> q \<notin> W \<longrightarrow> thread s q = thread s0 q \<Longrightarrow> W = port_waiters p s0
    \<Longrightarrow> vid (thread s p) = vid (thread s0 p) \<Longrightarrow> flags (thread s p) = flags (thread s0 p)
    \<Longrightarrow> join_th (thread s p) = join_th (thread s0 p) \<Longrightarrow> spared p s0 (bury p s)"
  using bury_other [of _ p s] by (auto simp: spared_def bury_def freed_def joined_def set_return_defs split: option.splits if_splits)

lemma finalize_ok:
  assumes inv: "kinv_ex {p} s" and p: "p < NOZA_OS_TASK_LIMIT" and u: "unlinked s p"
    and live: "live (thread s p)"
  shows "ok (noza_finalize_thread_exit p s) (\<lambda>s'. kinv_ex {p} s' \<and> buried s' p \<and> running s' = running s
           \<and> cpu s' = cpu s \<and> exited p s s' \<and> all_released (port_waiters p s) EINTR s' \<and> spared p s s')"
proof -
  let ?s1 = "upd_thread p (\<lambda>t. t\<lparr>port_st := PORT_WAIT_LISTEN, pending_recv_msg := None,
      waiting_queue := None, expired_time := 0\<rparr>) s"
  let ?W = "port_waiters p s"
  have 1: "kinv_ex {p} ?s1" using inv u by (simp add: kinv_ex_upd_thread_same core_of_def unlinked_def)
  have W: "port_waiters p ?s1 = ?W" by (simp add: port_waiters_def)
  have pW: "p \<notin> ?W" using u by (auto simp: port_waiters_def unlinked_def dest: not_on_lists)
  have "ok (noza_release_waiters_from_port p EINTR ?s1) (\<lambda>s'. \<exists>s2. kinv_ex {p} s2
           \<and> s' = upd_thread p (\<lambda>t. t\<lparr>pending_recv_msg := None\<rparr>) s2
           \<and> lists s2 (L_pending p) = [] \<and> lists s2 (L_reply p) = []
           \<and> frame_of ?W ?s1 s2 \<and> all_released ?W EINTR s2)"
    using release_waiters_ok [OF 1, of p EINTR] pW unfolding W by simp
  then obtain s2 where s2: "kinv_ex {p} s2" "lists s2 (L_pending p) = []" "lists s2 (L_reply p) = []"
      "frame_of ?W ?s1 s2" "all_released ?W EINTR s2"
      and rel: "noza_release_waiters_from_port p EINTR ?s1 = Inr (upd_thread p (\<lambda>t. t\<lparr>pending_recv_msg := None\<rparr>) s2)"
    by (auto dest!: ok_value)
  let ?s3 = "upd_thread p (\<lambda>t. t\<lparr>pending_recv_msg := None\<rparr>) s2"
  note F = frame_of_places [OF s2(4) pW]
  have 3: "kinv_ex {p} ?s3" "unlinked ?s3 p" "live (thread ?s3 p)" "lists ?s3 (L_pending p) = []"
      "lists ?s3 (L_reply p) = []"
    using s2 F u live by (simp_all add: kinv_ex_upd_thread_same core_of_def unlinked_def live_def)
  note b = bury_ok [OF 3(1) p 3(2,4,5,3)]
  have "all_released ?W EINTR ?s3" using s2(5) pW by (auto simp: all_released_def)
  note bury_released [OF 3(1) p pW this]
  moreover have "exited p s (bury p ?s3)" using b(6) F(5) by (simp add: exited_def)
  moreover have "running ?s3 = running s" "cpu ?s3 = cpu s" using s2(4) by (simp_all add: frame_of_def)
  moreover have "spared p s (bury p ?s3)"
    by (rule bury_spared [OF _ refl]) (use s2(4) F(5) in \<open>simp_all add: frame_of_def\<close>)
  ultimately show ?thesis
    using b unfolding noza_finalize_thread_exit_def Let_def rel bindE.simps by simp
qed

text \<open>The outcome of \<^verbatim>\<open>noza_terminate_thread\<close>.\<close>

definition terminated :: "pid \<Rightarrow> u32 \<Rightarrow> kstate \<Rightarrow> u32 \<Rightarrow> kstate \<Rightarrow> bool" where
  "terminated p code s rc s' \<longleftrightarrow>
     (if \<not> live (thread s p) then rc = ESRCH \<and> s' = s
      else if th_state (thread s p) = THREAD_RUNNING \<and> running s (cpu s) \<noteq> Some p then rc = EBUSY \<and> s' = s
      else rc = 0 \<and> \<not> live (thread s' p)
        \<and> (th_state (thread s' p) = THREAD_ZOMBIE \<longrightarrow> exit_code (thread s' p) = code)
        \<and> cpu s' = cpu s
        \<and> running s' = (if running s (cpu s) = Some p then (running s)(cpu s := None) else running s))"

lemma exited_dead: "exited p s s' \<Longrightarrow> \<not> live (thread s' p) \<and> exit_code (thread s' p) = exit_code (thread s p)"
  by (auto simp: exited_def live_def Let_def)

lemma terminate_detached:
  assumes inv: "kinv s" and p: "p < NOZA_OS_TASK_LIMIT" and d: "detached s p s1"
  shows "ok (bindE (noza_finalize_thread_exit p (upd_thread p (\<lambda>t. t\<lparr>exit_code := code\<rparr>) s1)) (\<lambda>s2.
       Inr (0, if noza_os_get_running_thread s2 = Some p then noza_os_clear_running_thread s2 else s2)))
     (\<lambda>(rc, s'). kinv s' \<and> rc = (0 :: u32) \<and> \<not> live (thread s' p) \<and> exit_code (thread s' p) = code \<and> cpu s' = cpu s
        \<and> running s' = (if running s (cpu s) = Some p then (running s)(cpu s := None) else running s))"
proof -
  let ?s = "upd_thread p (\<lambda>t. t\<lparr>exit_code := code\<rparr>) s1"
  have d': "kinv_ex {p} ?s" "unlinked ?s p" "live (thread ?s p)" "running ?s = running s" "cpu ?s = cpu s"
      "on_cores s p \<subseteq> {cpu s}"
    using d by (simp_all add: detached_def kinv_ex_upd_thread_same core_of_def unlinked_def live_def)
  have post: "kinv s' \<and> \<not> live (thread s' p) \<and> exit_code (thread s' p) = code \<and> cpu s' = cpu s
        \<and> running s' = (if running s (cpu s) = Some p then (running s)(cpu s := None) else running s)"
    if s2: "kinv_ex {p} s2" "buried s2 p" "running s2 = running s" "cpu s2 = cpu s" "exited p ?s s2"
      and s': "s' = (if noza_os_get_running_thread s2 = Some p then noza_os_clear_running_thread s2 else s2)"
    for s2 s'
  proof -
    have c: "on_cores s2 p = on_cores s p" using s2(3) by (simp add: on_cores_def)
    have "on_cores s' p = {}"
      using d'(6) s2(3,4) unfolding s' by (auto simp: noza_os_get_running_thread_def on_cores_def)
    then have th: "thread_ok s' p" using s2(2) s' by (intro buried_ok) auto
    have "kinv s'"
    proof (cases "running s2 (cpu s2) = Some p")
      case True
      with kinv_clear_running [of p "{}" s2] s2(1) p th s' show ?thesis
        by (simp add: noza_os_get_running_thread_def)
    next
      case False
      with kinv_settle [of p "{}" s2] s2(1) p th s' show ?thesis
        by (simp add: noza_os_get_running_thread_def)
    qed
    with exited_dead [OF s2(5)] s2(3,4) s' show ?thesis by (simp add: noza_os_get_running_thread_def)
  qed
  show ?thesis
    unfolding ok_bindE by (rule ok_mono [OF finalize_ok [OF d'(1) p d'(2,3)]]) (use d'(4,5) post in simp)
qed

theorem terminate_ok:
  assumes inv: "kinv s" and p: "p < NOZA_OS_TASK_LIMIT"
  shows "ok (noza_terminate_thread p code s) (\<lambda>(rc, s'). kinv s' \<and> terminated p code s rc s')"
  unfolding noza_terminate_thread_def ok_bindE
proof (rule ok_mono2 [OF detach_ok [OF inv p]])
  fix rc s1
  let ?rest = "\<lambda>(rc, s1). if rc \<noteq> 0 then Inr (rc, s1)
     else bindE (noza_finalize_thread_exit p (upd_thread p (\<lambda>t. t\<lparr>exit_code := code\<rparr>) s1)) (\<lambda>s2.
       Inr (0, if noza_os_get_running_thread s2 = Some p then noza_os_clear_running_thread s2 else s2))"
  assume d: "if \<not> live (thread s p) then rc = ESRCH \<and> s1 = s
      else if th_state (thread s p) = THREAD_RUNNING \<and> running s (cpu s) \<noteq> Some p then rc = EBUSY \<and> s1 = s
      else rc = 0 \<and> detached s p s1"
  show "ok (?rest (rc, s1)) (\<lambda>(rc, s'). kinv s' \<and> terminated p code s rc s')"
  proof (cases "rc = 0")
    case True
    with d have "detached s p s1" and l: "live (thread s p)"
        "\<not> (th_state (thread s p) = THREAD_RUNNING \<and> running s (cpu s) \<noteq> Some p)"
      by (simp_all split: if_splits)
    from terminate_detached [OF inv p this(1), of code]
    show ?thesis unfolding True prod.case by simp (erule ok_mono, use l in \<open>auto simp: terminated_def\<close>)
  next
    case False
    with d inv show ?thesis by (auto simp: terminated_def split: if_splits)
  qed
qed

end
