(* ===== verification/Thread_Create.thy ===== *)
theory Thread_Create
  imports Thread_Ops
begin

text \<open>
  Creation of threads: allocation takes the head of the free list and gives it an unused identifier, the
  new thread starts at its entry point in the ready list of its priority, and a reserved identifier is
  honoured whenever it is unused.
\<close>

section \<open>Allocation\<close>

text \<open>An allocated thread: it has left the free list, has an identifier, and is not yet on any list.\<close>

definition fresh_thread :: "pid \<Rightarrow> kstate \<Rightarrow> bool" where
  "fresh_thread p s \<longleftrightarrow> p < NOZA_OS_TASK_LIMIT \<and> th_state (thread s p) = THREAD_FREE \<and> loose s p
     \<and> sched_ok {p} s \<and> prio_ok s \<and> owners_ok s \<and> vid_ok (insert p (used s)) s \<and> timers_ok s"

lemma fresh_upd:
  assumes fr: "fresh_thread p s" and f: "th_state (f (thread s p)) = THREAD_FREE"
      "join_th (f (thread s p)) = join_th (thread s p)" "vid (f (thread s p)) = vid (thread s p)"
      "waiting_queue (f (thread s p)) = None" "priority (f (thread s p)) < NOZA_OS_PRIORITY_LIMIT"
  shows "fresh_thread p (upd_thread p f s)"
proof -
  note F = fr [unfolded fresh_thread_def]
  let ?s = "upd_thread p f s"
  have so: "sched_ok {p} s" and p: "p < NOZA_OS_TASK_LIMIT" using F by simp_all
  have "sched_ok {p} ?s"
  proof (rule sched_okI [where P = "{p}", OF so])
    show "conf ?s q = conf s q" if "q \<notin> {p}" for q using that f(2) by (simp add: conf_def)
  qed (use p sched_ok_distinct [OF so] in simp_all)
  moreover have "owners_ok ?s"
    by (rule owners_okI [where Ow = "{}" and s = s]) (use F f in \<open>auto simp: live_def\<close>)
  moreover have "used ?s = used s" using F f by (auto simp: used_def)
  moreover have "vid_ok (insert p (used s)) ?s"
  proof -
    have "vid (thread ?s q) = vid (thread s q)" for q using f by simp
    with F show ?thesis by (simp add: vid_ok_def get_thread_by_vid_def)
  qed
  moreover have "prio_ok ?s" using F f by (simp add: prio_ok_def)
  moreover have "timers_ok ?s" by (rule timers_ok_same [of s]) (use F in simp_all)
  ultimately show ?thesis using F f by (simp add: fresh_thread_def loose_def parked_def)
qed

definition cleaned :: "pid \<Rightarrow> kstate \<Rightarrow> kstate" where
  "cleaned th s = upd_thread th (\<lambda>t. t\<lparr>flags := 0, callid := 255,
      trap := (trap t)\<lparr>trap_state := SYSCALL_DONE\<rparr>, signal_pending := 0, signal_mask := 0,
      pending_recv_msg := None, identity := k_default_identity,
      message := (message t)\<lparr>om_identity := k_default_identity\<rparr>\<rparr>) (upd_list L_free (remove1 th) s)"

lemma cleaned_sel [simp]:
  "reserved_vid0_assigned (cleaned th s) = reserved_vid0_assigned s"
  "running (cleaned th s) = running s" "cpu (cleaned th s) = cpu s" "slot (cleaned th s) = slot s"
  "th_state (thread (cleaned th s) q) = th_state (thread s q)"
  "vid (thread (cleaned th s) q) = vid (thread s q)"
  "q \<noteq> th \<Longrightarrow> thread (cleaned th s) q = thread s q"
  by (simp_all add: cleaned_def)

lemma cleaned_ok:
  assumes inv: "kinv s" and th: "th \<in> set (lists s L_free)"
  shows "noza_os_remove_thread L_free th s = Inr (upd_list L_free (remove1 th) s)"
    and "kinv_ex {th} (cleaned th s)" and "loose (cleaned th s) th" and "th < NOZA_OS_TASK_LIMIT"
    and "th_state (thread s th) = THREAD_FREE"
proof -
  note k = kinv_in_list [OF inv th] and d = sched_ok_distinct [OF kinv_exD(1) [OF inv]]
  show "th < NOZA_OS_TASK_LIMIT" and "th_state (thread s th) = THREAD_FREE" using k by simp_all
  show "noza_os_remove_thread L_free th s = Inr (upd_list L_free (remove1 th) s)"
    by (rule remove_thread_eq) (use k th in simp_all)
  show "kinv_ex {th} (cleaned th s)"
    unfolding cleaned_def
    using kinv_transit_thread [OF kinv_transit_list [OF inv k(1), of L_free] k(1)] by simp
  from k(5) d show "loose (cleaned th s) th"
    by (simp add: loose_def parked_def cleaned_def)
qed

lemma vid_added_sel [simp]:
  "lists (vid_added v n p s) = lists s" "wqs (vid_added v n p s) = wqs s"
  "running (vid_added v n p s) = running s" "cpu (vid_added v n p s) = cpu s"
  "timers (vid_added v n p s) = timers s" "timer_q (vid_added v n p s) = timer_q s"
  "futex_slots (vid_added v n p s) = futex_slots s"
  "thread (vid_added v n p s) = (thread s)(p := (thread s p)\<lparr>vid := v\<rparr>)"
  by (simp_all add: vid_added_def)

lemma fresh_added:
  assumes inv: "kinv_ex {p} s" and lo: "loose s p" and p: "p < NOZA_OS_TASK_LIMIT" "th_state (thread s p) = THREAD_FREE"
    and vo: "vid_ok (insert p (used s)) (vid_added v n p s)"
  shows "fresh_thread p (vid_added v n p s)"
proof -
  let ?s = "vid_added v n p s"
  note D = kinv_exD [OF inv]
  have c: "conf ?s q = conf s q" for q
    by (auto simp: conf_def on_lists_def on_wqs_def on_cores_def joins_def wait_timeout_def)
  have "sched_ok {p} ?s" by (rule sched_ok_same [OF D(1)]) (simp_all add: c)
  moreover have "loose ?s p" using lo c [of p] by (simp add: conf_def loose_def parked_def)
  moreover have "owners_ok ?s" by (rule owners_okI [where Ow = "{}", OF D(3)]) (auto simp: live_def)
  moreover have "prio_ok ?s" by (rule prio_ok_same [OF D(2)]) simp
  moreover have "timers_ok ?s" by (rule timers_ok_same [OF D(5)]) simp_all
  moreover have "used ?s = used s" by (auto simp: used_def)
  ultimately show ?thesis using vo p by (simp add: fresh_thread_def)
qed

lemma thread_alloc_ok:
  assumes inv: "kinv s" and fr: "lists s L_free = th # rest"
  obtains s1 where "noza_thread_alloc s = Inr (Some th, s1)" and "fresh_thread th s1"
    and "running s1 = running s" and "cpu s1 = cpu s"
    and "get_thread_by_vid (vid (thread s1 th)) s = None" and "vid (thread s1 th) \<noteq> 0"
    and "\<And>q. q \<noteq> th \<Longrightarrow> thread s1 q = thread s q"
    and "\<And>w. get_thread_by_vid w s1 = (if w = vid (thread s1 th) then Some th else get_thread_by_vid w s)"
    and "reserved_vid0_assigned s1 = reserved_vid0_assigned s"
proof -
  have "th \<in> set (lists s L_free)" using fr by simp
  note C = cleaned_ok [OF inv this]
  have nu: "th \<notin> used (cleaned th s)" using C(5) by (simp add: used_def)
  obtain v n where v: "get_thread_by_vid v (cleaned th s) = None" "v \<noteq> 0"
      "noza_os_insert_vid th (cleaned th s) = Inr (vid_added v n th (cleaned th s))"
      "vid_ok (insert th (used (cleaned th s))) (vid_added v n th (cleaned th s))"
    by (rule insert_vid_ok [OF kinv_exD(4) [OF C(2)] C(4) nu]) (rule that)
  have alloc: "noza_thread_alloc s = Inr (Some th, vid_added v n th (cleaned th s))"
    using fr C(1) v(3) by (simp add: noza_thread_alloc_def cleaned_def Let_def)
  have fresh: "fresh_thread th (vid_added v n th (cleaned th s))"
    by (rule fresh_added [OF C(2,3,4) _ v(4)]) (use C(5) in simp)
  show thesis
    by (rule that [OF alloc fresh])
       (use v(1,2) in \<open>simp_all add: get_thread_by_vid_def vid_added_def chain_lookup_insert\<close>)
qed

lemma kinv_place_new:
  assumes fr: "fresh_thread p s"
  shows "noza_os_add_thread (L_ready (priority (thread s p))) p s = Inr (put (L_ready (priority (thread s p))) p s)"
    and "kinv (put (L_ready (priority (thread s p))) p s)"
proof -
  let ?l = "L_ready (priority (thread s p))"
  note F = fr [unfolded fresh_thread_def]
  have nl: "p \<notin> set (lists s l)" for l using F by (intro loose_not_in) simp
  have lo: "lid_ok ?l" using F by (simp add: prio_ok_def)
  show "noza_os_add_thread ?l p s = Inr (put ?l p s)" using lo nl by (simp add: add_thread_put)
  have "thread_ok (put ?l p s) p"
    by (rule park_thread_ok [of s p ?l]) (use F in \<open>simp_all add: loose_def parked_def\<close>)
  note th = this
  have so: "sched_ok {p} s" and p: "p < NOZA_OS_TASK_LIMIT" using F by simp_all
  have "sched_ok {} (put ?l p s)"
  proof (rule sched_okI [where P = "{p}", OF so])
    show "distinct (lists (put ?l p s) l)" for l using nl sched_ok_distinct [OF so] by (intro distinct_put)
    show "conf (put ?l p s) q = conf s q" if "q \<notin> {p}" for q using that by (simp add: conf_def)
  qed (use p th sched_ok_distinct [OF so] in simp_all)
  moreover have "owners_ok (put ?l p s)"
    by (rule owners_okI [where Ow = "{}" and s = s]) (use F in \<open>auto simp: live_def\<close>)
  moreover have "used (put ?l p s) = insert p (used s)" using F by (auto simp: used_def)
  then have "vid_ok (used (put ?l p s)) (put ?l p s)"
    using F by (simp add: vid_ok_def get_thread_by_vid_def)
  moreover have "prio_ok (put ?l p s)" by (rule prio_ok_same [of s]) (use F in simp_all)
  moreover have "timers_ok (put ?l p s)" by (rule timers_ok_same [of s]) (use F in simp_all)
  ultimately show "kinv (put ?l p s)" by (simp add: kinv_ex_def)
qed

section \<open>Reserved identifiers\<close>

lemma kinv_vid_change:
  assumes inv: "kinv_ex X s" and vo: "vid_ok (used s) s'"
    and same: "lists s' = lists s" "wqs s' = wqs s" "running s' = running s" "timers s' = timers s"
      "timer_q s' = timer_q s" "futex_slots s' = futex_slots s"
    and th: "\<And>q. thread s' q = (thread s q)\<lparr>vid := vid (thread s' q)\<rparr>"
  shows "kinv_ex X s'"
proof -
  have tcb: "th_state (thread s' q) = th_state (thread s q)" "priority (thread s' q) = priority (thread s q)"
    "flags (thread s' q) = flags (thread s q)" "waiting_queue (thread s' q) = waiting_queue (thread s q)"
    "join_th (thread s' q) = join_th (thread s q)" for q
    by (subst th, simp)+
  have "conf s' q = conf s q" for q
    by (simp add: conf_def on_lists_def on_wqs_def on_cores_def joins_def wait_timeout_def tcb same)
  from sched_ok_same [OF kinv_exD(1) [OF inv] same(1,2) this] have "sched_ok X s'" .
  moreover have "used s' = used s" by (simp add: used_def tcb)
  ultimately show ?thesis
    using kinv_exD [OF inv] vo
    by (simp add: kinv_ex_def prio_ok_def owners_ok_def live_def timers_ok_def tcb same)
qed

text \<open>Giving a thread another, unused identifier.\<close>

definition renamed :: "pid \<Rightarrow> u32 \<Rightarrow> kstate \<Rightarrow> kstate" where
  "renamed p v s = upd_thread p (\<lambda>t. t\<lparr>vid := v\<rparr>)
     ((noza_os_remove_vid p s)\<lparr>free_vid_map := free_vid_map (noza_os_remove_vid p s) - 1,
        slot := chain_insert v p (slot (noza_os_remove_vid p s))\<rparr>)"

lemma rename_ok:
  assumes inv: "kinv s" and p: "p \<in> used s" and v: "get_thread_by_vid v s = None"
    and zero: "v = 0 \<Longrightarrow> reserved_vid0_assigned s"
  shows "noza_os_insert_vid_with_value p v (noza_os_remove_vid p s) = Inr (renamed p v s)"
    and "kinv (renamed p v s)" and "get_thread_by_vid v (renamed p v s) = Some p"
    and "vid (thread (renamed p v s) p) = v"
proof -
  note vo = kinv_exD(4) [OF inv]
  have lt: "p < NOZA_OS_TASK_LIMIT" using p by (simp add: used_def)
  let ?s = "noza_os_remove_vid p s"
  note r = remove_vid_ok [OF vo p]
  have v': "get_thread_by_vid v ?s = None"
  proof (rule ccontr)
    assume "get_thread_by_vid v ?s \<noteq> None"
    then obtain q where "get_thread_by_vid v ?s = Some q" by blast
    then have "q \<in> used s \<and> q \<noteq> p \<and> vid (thread s q) = v"
      unfolding vid_okD(2) [OF r(1)] by (simp cong: conj_cong)
    then have "get_thread_by_vid v s = Some q" using vid_okD(2) [OF vo] by simp
    with v show False by simp
  qed
  have np: "p \<notin> used s - {p}" by simp
  note i = insert_vid_with_value_ok [OF r(1) lt np v']
  from i(1) zero show ins: "noza_os_insert_vid_with_value p v ?s = Inr (renamed p v s)"
    by (simp add: renamed_def)
  have vok: "vid_ok (used s) (renamed p v s)"
    using i(2) zero p by (simp add: renamed_def insert_absorb)
  show "kinv (renamed p v s)"
    by (rule kinv_vid_change [OF inv vok]) (simp_all add: renamed_def)
  show "vid (thread (renamed p v s) p) = v" by (simp add: renamed_def)
  with vid_okD(2) [OF vok, of v p] p show "get_thread_by_vid v (renamed p v s) = Some p" by simp
qed

section \<open>Creation\<close>

text \<open>What a successful creation of a thread with the identifier \<open>v\<close> comes to.\<close>

definition created :: "u32 \<Rightarrow> u32 \<Rightarrow> u32 \<Rightarrow> pid \<Rightarrow> u32 \<Rightarrow> kstate \<Rightarrow> kstate \<Rightarrow> bool" where
  "created entry param prio th v s s' \<longleftrightarrow>
     get_thread_by_vid v s = None \<and> get_thread_by_vid v s' = Some th
     \<and> th_state (thread s' th) = THREAD_READY \<and> priority (thread s' th) = unat prio
     \<and> is_pc (frame (thread s' th)) = entry \<and> is_r0 (frame (thread s' th)) = param
     \<and> identity (thread s' th) = (case running s (cpu s) of Some q \<Rightarrow> identity (thread s q) | None \<Rightarrow> k_default_identity)
     \<and> signal_pending (thread s' th) = 0 \<and> flags (thread s' th) = 0"

text \<open>The new thread before its identifier is settled.\<close>

definition started :: "u32 \<Rightarrow> u32 \<Rightarrow> u32 \<Rightarrow> pid \<Rightarrow> kstate \<Rightarrow> kstate" where
  "started entry param prio th s1 =
     noza_make_app_context th entry param (put (L_ready (unat prio)) th
       (upd_thread th (\<lambda>t. t\<lparr>message := (message t)\<lparr>om_identity := identity t\<rparr>,
            priority := unat prio, flags := 0, signal_pending := 0, signal_mask := 0\<rparr>)
          (noza_thread_set_identity th (noza_os_get_running_thread s1) s1)))"

lemma started_ok:
  assumes fr: "fresh_thread th s1" and prio: "unat prio < NOZA_OS_PRIORITY_LIMIT"
  defines "s3 \<equiv> upd_thread th (\<lambda>t. t\<lparr>message := (message t)\<lparr>om_identity := identity t\<rparr>,
            priority := unat prio, flags := 0, signal_pending := 0, signal_mask := 0\<rparr>)
          (noza_thread_set_identity th (noza_os_get_running_thread s1) s1)"
  shows "noza_os_add_thread (L_ready (unat prio)) th s3 = Inr (put (L_ready (unat prio)) th s3)"
    and "kinv (started entry param prio th s1)" and "th \<in> used (started entry param prio th s1)"
proof -
  have lt: "th < NOZA_OS_TASK_LIMIT" and F: "th_state (thread s1 th) = THREAD_FREE" "waiting_queue (thread s1 th) = None"
      "priority (thread s1 th) < NOZA_OS_PRIORITY_LIMIT"
    using fr by (auto simp: fresh_thread_def loose_def parked_def prio_ok_def)
  have 2: "fresh_thread th (noza_thread_set_identity th (noza_os_get_running_thread s1) s1)"
    unfolding noza_thread_set_identity_def by (rule fresh_upd [OF fr]) (use F in simp_all)
  have "fresh_thread th s3"
    unfolding s3_def by (rule fresh_upd [OF 2]) (use F prio in \<open>simp_all add: noza_thread_set_identity_def\<close>)
  from kinv_place_new [OF this]
  have 4: "noza_os_add_thread (L_ready (unat prio)) th s3 = Inr (put (L_ready (unat prio)) th s3)"
      "kinv (put (L_ready (unat prio)) th s3)" by (simp_all add: s3_def)
  then show "noza_os_add_thread (L_ready (unat prio)) th s3 = Inr (put (L_ready (unat prio)) th s3)" by simp
  from 4(2) show "kinv (started entry param prio th s1)"
    by (simp add: started_def s3_def noza_make_app_context_def kinv_ex_upd_thread_same core_of_def)
  from lt show "th \<in> used (started entry param prio th s1)"
    by (simp add: started_def used_def noza_make_app_context_def)
qed

lemma started_sel [simp]:
  "running (started e a prio th s) = running s" "cpu (started e a prio th s) = cpu s"
  "slot (started e a prio th s) = slot s"
  "reserved_vid0_assigned (started e a prio th s) = reserved_vid0_assigned s"
  "vid (thread (started e a prio th s) q) = vid (thread s q)"
  "th_state (thread (started e a prio th s) th) = THREAD_READY"
  "priority (thread (started e a prio th s) th) = unat prio"
  "is_pc (frame (thread (started e a prio th s) th)) = e"
  "is_r0 (frame (thread (started e a prio th s) th)) = a"
  "identity (thread (started e a prio th s) th) =
     (case running s (cpu s) of Some q \<Rightarrow> identity (thread s q) | None \<Rightarrow> k_default_identity)"
  "signal_pending (thread (started e a prio th s) th) = 0"
  "flags (thread (started e a prio th s) th) = 0"
  by (simp_all add: started_def noza_make_app_context_def arch_build_stack_def
        noza_thread_set_identity_def noza_os_get_running_thread_def)

lemma get_started [simp]: "get_thread_by_vid v (started e a prio th s) = get_thread_by_vid v s"
  by (simp add: get_thread_by_vid_def)

lemma renamed_sel [simp]:
  "running (renamed p v s) = running s" "cpu (renamed p v s) = cpu s"
  "thread (renamed p v s) = (thread s)(p := (thread s p)\<lparr>vid := v\<rparr>)"
  by (simp_all add: renamed_def fun_eq_iff)

lemma used_thread: "p \<in> used s \<Longrightarrow> kinv s \<Longrightarrow> get_thread_by_vid (vid (thread s p)) s = Some p"
  using vid_okD(2) [OF kinv_exD(4)] by blast

text \<open>The last step of creation: the reserved identifier.\<close>

definition settle_vid :: "pid \<Rightarrow> u32 \<Rightarrow> kstate \<Rightarrow> kstate res" where
  "settle_vid th rv s5 =
     (let assigned0 = (rv \<noteq> NOZA_VID_AUTO \<and> rv = 0 \<and> \<not> reserved_vid0_assigned s5);
          s6 = (if assigned0 then s5\<lparr>reserved_vid0_assigned := True\<rparr> else s5);
          assigned = (assigned0 \<or> rv \<noteq> NOZA_VID_AUTO \<and> rv \<noteq> 0 \<and> get_thread_by_vid rv s5 = None)
      in if assigned then noza_os_insert_vid_with_value th rv (noza_os_remove_vid th s6) else Inr s6)"

lemma kinv_reserve0: "kinv s \<Longrightarrow> kinv (s\<lparr>reserved_vid0_assigned := True\<rparr>)"
  by (rule kinv_vid_change [of "{}" s])
     (auto simp: kinv_ex_def vid_ok_def get_thread_by_vid_def)

lemma settle_vid_ok:
  assumes inv: "kinv s" and th: "th \<in> used s"
  shows "ok (settle_vid th rv s) (\<lambda>s'. kinv s' \<and> running s' = running s \<and> cpu s' = cpu s
           \<and> (\<exists>v. thread s' = (thread s)(th := (thread s th)\<lparr>vid := v\<rparr>)
           \<and> (v = vid (thread s th) \<or> get_thread_by_vid v s = None)
           \<and> (rv \<noteq> NOZA_VID_AUTO \<and> rv \<noteq> 0 \<and> get_thread_by_vid rv s = None \<longrightarrow> v = rv)
           \<and> (rv = 0 \<and> \<not> reserved_vid0_assigned s \<longrightarrow> v = 0)
           \<and> (get_thread_by_vid rv s = Some th \<longrightarrow> v = rv)))"
proof -
  let ?s = "s\<lparr>reserved_vid0_assigned := True\<rparr>"
  have g: "get_thread_by_vid v ?s = get_thread_by_vid v s" for v by (simp add: get_thread_by_vid_def)
  consider (zero) "rv = 0" "\<not> reserved_vid0_assigned s"
    | (new) "rv \<noteq> NOZA_VID_AUTO" "rv \<noteq> 0" "get_thread_by_vid rv s = None"
    | (keep) "\<not> (rv = 0 \<and> \<not> reserved_vid0_assigned s)"
        "\<not> (rv \<noteq> NOZA_VID_AUTO \<and> rv \<noteq> 0 \<and> get_thread_by_vid rv s = None)"
    by metis
  then show ?thesis
  proof cases
    case zero
    have n: "get_thread_by_vid 0 ?s = None" using vid_okD(8) [OF kinv_exD(4) [OF inv]] zero(2) g by (metis option.exhaust)
    have u: "th \<in> used ?s" using th by (simp add: used_def)
    note r = rename_ok [OF kinv_reserve0 [OF inv] u n]
    from r zero g n show ?thesis by (simp add: settle_vid_def)
  next
    case new
    note r = rename_ok [OF inv th new(3)]
    from r new show ?thesis by (simp add: settle_vid_def)
  next
    case keep
    then have "settle_vid th rv s = Inr s" by (auto simp: settle_vid_def Let_def)
    with keep inv vid_okD(2) [OF kinv_exD(4) [OF inv], of rv th] show ?thesis
      by (auto intro!: exI [of _ "vid (thread s th)"] simp: fun_upd_idem)
  qed
qed

lemma thread_create_eq:
  assumes "prio < of_nat NOZA_OS_PRIORITY_LIMIT" and "noza_thread_alloc s = Inr (Some th, s1)"
    and "fresh_thread th s1" and "unat prio < NOZA_OS_PRIORITY_LIMIT"
  shows "noza_os_thread_create entry param prio rv s =
     bindE (settle_vid th rv (started entry param prio th s1)) (\<lambda>s7. Inr (0, Some (vid (thread s7 th)), s7))"
proof -
  have np: "\<not> of_nat NOZA_OS_PRIORITY_LIMIT \<le> prio" using assms(1) by simp
  show ?thesis
    unfolding noza_os_thread_create_def if_not_P [OF np] assms(2) bindE.simps prod.case option.case Let_def
      started_ok(1) [OF assms(3,4)] settle_vid_def started_def ..
qed

lemma created_settled:
  assumes inv: "kinv s" and fr: "th \<in> set (lists s L_free)" and fs: "fresh_thread th s1"
    and s1: "running s1 = running s" "cpu s1 = cpu s" "get_thread_by_vid (vid (thread s1 th)) s = None"
      "\<forall>q. q \<noteq> th \<longrightarrow> thread s1 q = thread s q"
      "\<And>w. get_thread_by_vid w s1 = (if w = vid (thread s1 th) then Some th else get_thread_by_vid w s)"
    and s': "kinv s'" "thread s' = (thread (started entry param prio th s1))
        (th := (thread (started entry param prio th s1) th)\<lparr>vid := v\<rparr>)"
      "v = vid (thread s1 th) \<or> get_thread_by_vid v s1 = None"
  shows "created entry param prio th v s s'"
proof -
  have ne: "running s (cpu s) \<noteq> Some th"
  proof
    assume r: "running s (cpu s) = Some th"
    from thread_ok_running(2) [OF kinv_running(2) [OF inv r] r] fr show False by (simp add: not_on_lists)
  qed
  have "th < NOZA_OS_TASK_LIMIT" using fs by (simp add: fresh_thread_def)
  then have "get_thread_by_vid (vid (thread s' th)) s' = Some th"
    using s'(2) by (intro used_thread [OF _ s'(1)]) (simp add: used_def)
  moreover have "get_thread_by_vid v s = None"
    using s'(3) s1(3,5) by (auto split: if_splits)
  ultimately show ?thesis
    using s'(2) s1(1,2,4) ne by (auto simp: created_def split: option.splits)
qed

lemma thread_create_success:
  assumes inv: "kinv s" and p: "prio < of_nat NOZA_OS_PRIORITY_LIMIT" and Cons: "lists s L_free = th # rest"
  shows "ok (noza_os_thread_create entry param prio rv s) (\<lambda>(ret, pv, s'). kinv s' \<and> running s' = running s
           \<and> cpu s' = cpu s \<and> ret = 0 \<and> (\<exists>v. pv = Some v \<and> created entry param prio th v s s'
              \<and> (rv \<noteq> NOZA_VID_AUTO \<and> rv \<noteq> 0 \<and> get_thread_by_vid rv s = None \<longrightarrow> v = rv)
              \<and> (rv = 0 \<and> \<not> reserved_vid0_assigned s \<longrightarrow> v = 0)))"
proof -
  have prio: "unat prio < NOZA_OS_PRIORITY_LIMIT" using p by (simp add: word_less_nat_alt)
  obtain s1 where s1: "noza_thread_alloc s = Inr (Some th, s1)" "fresh_thread th s1" "running s1 = running s"
      "cpu s1 = cpu s" "get_thread_by_vid (vid (thread s1 th)) s = None" "vid (thread s1 th) \<noteq> 0"
      "\<And>q. q \<noteq> th \<Longrightarrow> thread s1 q = thread s q"
      "\<And>w. get_thread_by_vid w s1 = (if w = vid (thread s1 th) then Some th else get_thread_by_vid w s)"
      "reserved_vid0_assigned s1 = reserved_vid0_assigned s"
    by (rule thread_alloc_ok [OF inv Cons]) (rule that)
  note st = started_ok(2,3) [OF s1(2) prio, of entry param]
  have fr: "th \<in> set (lists s L_free)" using Cons by simp
  have "\<forall>q. q \<noteq> th \<longrightarrow> thread s1 q = thread s q" using s1(7) by simp
  note cr = created_settled [OF inv fr s1(2,3,4,5) this s1(8)]
  let ?Q = "\<lambda>ret pv s'. kinv s' \<and> running s' = running s \<and> cpu s' = cpu s \<and>
     ret = (0 :: u32) \<and> (\<exists>v. pv = Some v \<and> created entry param prio th v s s'
        \<and> (rv \<noteq> NOZA_VID_AUTO \<and> rv \<noteq> 0 \<and> get_thread_by_vid rv s = None \<longrightarrow> v = rv)
        \<and> (rv = 0 \<and> \<not> reserved_vid0_assigned s \<longrightarrow> v = 0))"
  have "ok (settle_vid th rv (started entry param prio th s1)) (\<lambda>s'. ?Q 0 (Some (vid (thread s' th))) s')"
  proof (rule ok_mono [OF settle_vid_ok [OF st, of rv]], elim conjE exE)
    fix s' v
    assume s': "kinv s'" "running s' = running (started entry param prio th s1)"
        "cpu s' = cpu (started entry param prio th s1)"
      and t': "thread s' = (thread (started entry param prio th s1))
          (th := (thread (started entry param prio th s1) th)\<lparr>vid := v\<rparr>)"
      and v: "v = vid (thread (started entry param prio th s1) th)
          \<or> get_thread_by_vid v (started entry param prio th s1) = None"
      and r: "rv \<noteq> NOZA_VID_AUTO \<and> rv \<noteq> 0 \<and> get_thread_by_vid rv (started entry param prio th s1) = None \<longrightarrow> v = rv"
        "rv = 0 \<and> \<not> reserved_vid0_assigned (started entry param prio th s1) \<longrightarrow> v = 0"
        "get_thread_by_vid rv (started entry param prio th s1) = Some th \<longrightarrow> v = rv"
    have "created entry param prio th v s s'" by (rule cr [OF s'(1) t']) (use v in simp)
    moreover have "vid (thread s' th) = v" by (simp add: t')
    ultimately show "?Q 0 (Some (vid (thread s' th))) s'"
      using s' r s1(3,4,8,9) by (auto split: if_splits)
  qed
  then show ?thesis
    unfolding thread_create_eq [OF p s1(1,2) prio] ok_bindE by simp
qed

theorem thread_create_ok:
  assumes inv: "kinv s"
  shows "ok (noza_os_thread_create entry param prio rv s) (\<lambda>(ret, pv, s'). kinv s' \<and> running s' = running s \<and> cpu s' = cpu s \<and>
           (if prio \<ge> of_nat NOZA_OS_PRIORITY_LIMIT then ret = EINVAL \<and> pv = None \<and> s' = s
            else case lists s L_free of
                   [] \<Rightarrow> ret = EAGAIN \<and> pv = None \<and> s' = s
                 | th # _ \<Rightarrow> ret = 0 \<and> (\<exists>v. pv = Some v \<and> created entry param prio th v s s'
                     \<and> (rv \<noteq> NOZA_VID_AUTO \<and> rv \<noteq> 0 \<and> get_thread_by_vid rv s = None \<longrightarrow> v = rv)
                     \<and> (rv = 0 \<and> \<not> reserved_vid0_assigned s \<longrightarrow> v = 0))))"
proof (cases "prio \<ge> of_nat NOZA_OS_PRIORITY_LIMIT")
  case True
  with inv show ?thesis by (simp add: noza_os_thread_create_def)
next
  case False
  show ?thesis
  proof (cases "lists s L_free")
    case Nil
    with False inv show ?thesis by (simp add: noza_os_thread_create_def noza_thread_alloc_def)
  next
    case (Cons th rest)
    from False have "prio < of_nat NOZA_OS_PRIORITY_LIMIT" by simp
    from thread_create_success [OF inv this Cons, of entry param rv] False Cons show ?thesis by simp
  qed
qed



end
