(* ===== verification/Thread_Calls.thy ===== *)
theory Thread_Calls
  imports Thread_Create
begin

text \<open>
  Signals and the system calls on threads (\<^verbatim>\<open>kernel/noza_os.c\<close>): the table of signal handlers behind
  \<^verbatim>\<open>syscall_thread_kill\<close>, sleeping, creating, joining, detaching, changing priority, terminating, and
  sending and taking of pending signals.
\<close>

section \<open>Signal handlers\<close>

definition do_nothing_signal_handler :: "pid \<Rightarrow> pid \<Rightarrow> u32 \<Rightarrow> kstate \<Rightarrow> kstate res" where
  "do_nothing_signal_handler r target signum s = Inr (noza_os_set_return_value1 r 0 s)"

definition terminate_signal_handler :: "pid \<Rightarrow> pid \<Rightarrow> u32 \<Rightarrow> kstate \<Rightarrow> kstate res" where
  "terminate_signal_handler r target signum s =
     bindE (noza_terminate_thread target (128 + signum) s) (\<lambda>(rc, s1).
     Inr (if r \<noteq> target then noza_os_set_return_value1 r rc s1 else s1))"

definition stop_signal_handler :: "pid \<Rightarrow> pid \<Rightarrow> u32 \<Rightarrow> kstate \<Rightarrow> kstate res" where
  "stop_signal_handler r target signum s =
     bindE
       (case th_state (thread s target) of
          THREAD_READY \<Rightarrow>
            bindE (noza_os_change_state target (L_ready (priority (thread s target))) L_stopped s)
              (\<lambda>s1. Inr (0, s1))
        | THREAD_RUNNING \<Rightarrow>
            (if target \<noteq> r then Inr (EBUSY, s)
             else bindE (noza_os_add_thread L_stopped target s)
                    (\<lambda>s1. Inr (0, noza_os_clear_running_thread s1)))
        | _ \<Rightarrow> Inr (0, s))
       (\<lambda>(rc, s1). Inr (if r \<noteq> target \<or> rc \<noteq> 0 then noza_os_set_return_value1 r rc s1 else s1))"

definition continue_signal_handler :: "pid \<Rightarrow> pid \<Rightarrow> u32 \<Rightarrow> kstate \<Rightarrow> kstate res" where
  "continue_signal_handler r target signum s =
     bindE
       (if th_state (thread s target) = THREAD_STOPPED
        then noza_os_change_state target L_stopped (L_ready (priority (thread s target))) s
        else Inr s)
       (\<lambda>s1. Inr (noza_os_set_return_value1 r 0 s1))"

text \<open>The rest of an interrupted sleep is returned as two 32-bit halves.\<close>

definition alarm_signal_handler :: "pid \<Rightarrow> pid \<Rightarrow> u32 \<Rightarrow> kstate \<Rightarrow> kstate res" where
  "alarm_signal_handler r target signum s =
     bindE
       (case th_state (thread s target) of
          THREAD_SLEEP \<Rightarrow>
            bindE (noza_os_change_state target L_sleep (L_ready (priority (thread s target))) s) (\<lambda>s1.
            let now_time = clock s1;
                remain = int64 (expired_time (thread s1 target) - now_time);
                s2 = (if now_time < expired_time (thread s1 target)
                      then noza_os_set_return_value3 target EINTR
                             (word_of_int (drop_bit 32 remain)) (word_of_int remain) s1
                      else noza_os_set_return_value3 target EINTR 0 0 s1)
            in Inr (upd_thread target (\<lambda>t. t\<lparr>expired_time := 0\<rparr>) s2))
        | THREAD_WAITING_MSG \<Rightarrow>
            bindE (noza_os_change_state target L_wait (L_ready (priority (thread s target))) s) (\<lambda>s1.
            Inr (noza_os_set_return_value1 target EINTR s1))
        | THREAD_WAITING_SYNC \<Rightarrow>
            bindE (case waiting_queue (thread s target) of
                     Some w \<Rightarrow> bindE (noza_wait_queue_remove w target s)
                                (\<lambda>s1. Inr (upd_thread target (\<lambda>t. t\<lparr>waiting_queue := None\<rparr>) s1))
                   | None \<Rightarrow> Inr s) (\<lambda>s1.
            bindE (noza_wait_queue_cancel_timeout target s1) (\<lambda>s2.
            bindE (noza_os_add_thread (L_ready (priority (thread s2 target))) target s2) (\<lambda>s3.
            Inr (noza_os_set_return_value1 target EINTR s3))))
        | THREAD_WAITING_READ \<Rightarrow> Inr s
        | THREAD_WAITING_REPLY \<Rightarrow> Inr s
        | _ \<Rightarrow> noza_signal_send_thread target signum s)
       (\<lambda>s1. Inr (noza_os_set_return_value1 r 0 s1))"

text \<open>The table \<^verbatim>\<open>signal_handler\<close>: SIGALRM is 14, SIGCONT 18, SIGSTOP and SIGTSTP 19 and 20; signal 0,
  SIGCHLD, SIGTTIN, SIGTTOU, SIGURG, SIGWINCH and SIGIO are ignored; every other signal terminates.\<close>

definition signal_handler :: "nat \<Rightarrow> pid \<Rightarrow> pid \<Rightarrow> u32 \<Rightarrow> kstate \<Rightarrow> kstate res" where
  "signal_handler sig =
     (if sig \<in> {0, 17, 21, 22, 23, 28, 29} then do_nothing_signal_handler
      else if sig = 14 then alarm_signal_handler
      else if sig = 18 then continue_signal_handler
      else if sig = 19 \<or> sig = 20 then stop_signal_handler
      else terminate_signal_handler)"

section \<open>System calls\<close>

definition syscall_thread_sleep :: "pid \<Rightarrow> kstate \<Rightarrow> kstate res" where
  "syscall_thread_sleep r s =
     (let duration = int64 (push_bit 32 (uint (r1 (trap (thread s r)))) OR uint (r2 (trap (thread s r))))
      in bindE
           (if duration \<le> 0
            then noza_os_add_thread (L_ready (priority (thread s r))) r (noza_os_set_return_value3 r 0 0 0 s)
            else noza_os_add_thread L_sleep r
                   (upd_thread r (\<lambda>t. t\<lparr>expired_time := int64 (clock s + duration)\<rparr>) s))
           (\<lambda>s1. Inr (noza_os_clear_running_thread s1)))"

text \<open>The signal number is compared as a signed \<^verbatim>\<open>int\<close>; a negative one indexes before the table.\<close>

definition syscall_thread_kill :: "pid \<Rightarrow> kstate \<Rightarrow> kstate res" where
  "syscall_thread_kill r s =
     (let sig = sint (r2 (trap (thread s r)))
      in case get_thread_by_vid (r1 (trap (thread s r))) s of
           None \<Rightarrow> Inr (noza_os_set_return_value1 r ESRCH s)
         | Some picked_thread \<Rightarrow>
             if sig > 31 then Inr (noza_os_set_return_value1 r EINVAL s)
             else if sig < 0 then Inl Out_of_bounds
             else signal_handler (nat sig) r picked_thread (word_of_int sig) s)"

definition syscall_thread_create :: "pid \<Rightarrow> kstate \<Rightarrow> kstate res" where
  "syscall_thread_create r s =
     (let t = trap (thread s r);
          reserved_vid = (if r2 t \<noteq> 0 then umem s (r2 t) else NOZA_VID_AUTO)
      in bindE (noza_os_thread_create (r1 t) (r2 t) (r3 t) reserved_vid s) (\<lambda>(ret_value, th, s1).
         Inr (noza_os_set_return_value2 r ret_value (case th of Some v \<Rightarrow> v | None \<Rightarrow> uninit s1) s1)))"

definition syscall_thread_join :: "pid \<Rightarrow> kstate \<Rightarrow> kstate res" where
  "syscall_thread_join r s =
     (case get_thread_by_vid (r1 (trap (thread s r))) s of
        None \<Rightarrow> Inr (noza_os_set_return_value1 r ESRCH s)
      | Some target \<Rightarrow>
          if flags (thread s target) AND FLAG_DETACH \<noteq> 0 then Inr (noza_os_set_return_value1 r EINVAL s)
          else
            (case th_state (thread s target) of
               THREAD_FREE \<Rightarrow> Inr (noza_os_set_return_value1 r ESRCH s)
             | THREAD_ZOMBIE \<Rightarrow>
                 noza_os_change_state target L_zombie L_free
                   (noza_os_set_return_value2 r 0 (exit_code (thread s target)) s)
             | _ \<Rightarrow>
                 if join_th (thread s target) = None then
                   Inr (noza_os_clear_running_thread
                          (upd_thread r (\<lambda>t. t\<lparr>th_state := THREAD_PENDING_JOIN\<rparr>)
                            (upd_thread target (\<lambda>t. t\<lparr>join_th := Some r\<rparr>) s)))
                 else Inr (noza_os_set_return_value1 r EINVAL s)))"

definition syscall_thread_detach :: "pid \<Rightarrow> kstate \<Rightarrow> kstate res" where
  "syscall_thread_detach r s =
     (case get_thread_by_vid (r1 (trap (thread s r))) s of
        None \<Rightarrow> Inr (noza_os_set_return_value1 r ESRCH s)
      | Some target \<Rightarrow>
          if th_state (thread s target) = THREAD_FREE then Inr (noza_os_set_return_value1 r ESRCH s)
          else if th_state (thread s target) = THREAD_ZOMBIE then
            noza_os_change_state target L_zombie L_free (noza_os_set_return_value1 r EINVAL s)
          else Inr (noza_os_set_return_value1 r 0
                      (upd_thread target (\<lambda>t. t\<lparr>flags := flags t OR FLAG_DETACH\<rparr>) s)))"

text \<open>\<^verbatim>\<open>priority\<close> is a bit-field of eight bits.\<close>

definition syscall_thread_change_priority :: "pid \<Rightarrow> kstate \<Rightarrow> kstate res" where
  "syscall_thread_change_priority r s =
     (let prio = unat (r2 (trap (thread s r))) mod 256
      in case get_thread_by_vid (r1 (trap (thread s r))) s of
           None \<Rightarrow> Inr (noza_os_set_return_value1 r ESRCH s)
         | Some target \<Rightarrow>
             if target = r then
               Inr (noza_os_set_return_value1 r 0 (upd_thread r (\<lambda>t. t\<lparr>priority := prio\<rparr>) s))
             else if th_state (thread s target) \<noteq> THREAD_READY then
               (if th_state (thread s target) = THREAD_FREE \<or> th_state (thread s target) = THREAD_ZOMBIE
                then Inr (noza_os_set_return_value1 r ESRCH s)
                else Inr (noza_os_set_return_value1 r 0 (upd_thread target (\<lambda>t. t\<lparr>priority := prio\<rparr>) s)))
             else
               bindE (noza_os_remove_thread (L_ready (priority (thread s target))) target s) (\<lambda>s1.
               bindE (noza_os_add_thread (L_ready prio) target
                        (upd_thread target (\<lambda>t. t\<lparr>priority := prio\<rparr>) s1)) (\<lambda>s2.
               Inr (noza_os_set_return_value1 r 0 s2))))"

definition syscall_thread_terminate :: "pid \<Rightarrow> kstate \<Rightarrow> kstate res" where
  "syscall_thread_terminate r s =
     bindE (noza_terminate_thread r (r1 (trap (thread s r))) s) (\<lambda>(rc, s1).
     if rc \<noteq> 0 then Inl Kernel_panic else Inr s1)"

definition syscall_signal_send :: "pid \<Rightarrow> kstate \<Rightarrow> kstate res" where
  "syscall_signal_send r s =
     (let signum = r2 (trap (thread s r))
      in if signum = 0 \<or> signum > 32 then Inr (noza_os_set_return_value1 r EINVAL s)
         else case get_thread_by_vid (r1 (trap (thread s r))) s of
                None \<Rightarrow> Inr (noza_os_set_return_value1 r ESRCH s)
              | Some target \<Rightarrow>
                  bindE (noza_signal_send_thread target signum s)
                    (\<lambda>s1. Inr (noza_os_set_return_value1 r 0 s1)))"

definition syscall_signal_take :: "pid \<Rightarrow> kstate \<Rightarrow> kstate res" where
  "syscall_signal_take r s =
     (let pending = signal_pending (thread s r)
      in Inr (noza_os_set_return_value1 r pending (upd_thread r (\<lambda>t. t\<lparr>signal_pending := 0\<rparr>) s)))"

section \<open>Named threads\<close>

lemma get_thread_used:
  assumes "kinv s" and "get_thread_by_vid v s = Some p"
  shows "p < NOZA_OS_TASK_LIMIT" and "th_state (thread s p) \<noteq> THREAD_FREE" and "vid (thread s p) = v"
proof -
  have "p \<in> used s \<and> vid (thread s p) = v" using kinv_exD(4) [OF assms(1)] assms(2) by (simp add: vid_ok_def)
  then show "p < NOZA_OS_TASK_LIMIT" and "th_state (thread s p) \<noteq> THREAD_FREE" and "vid (thread s p) = v"
    by (simp_all add: used_def)
qed

section \<open>Signals keep the invariant\<close>

lemma wake_state_ok:
  assumes inv: "kinv s" and p: "p < NOZA_OS_TASK_LIMIT" and l: "blocked_list l" "thread_ok s p \<Longrightarrow> parked s p {l}"
  shows "noza_os_change_state p l (L_ready (priority (thread s p))) s = Inr (wake l p s)" and "kinv (wake l p s)"
proof -
  from l(2) [OF kinv_thread [OF inv p]] have i: "p \<in> set (lists s l)" by (simp add: parked_def in_lists_on)
  show "noza_os_change_state p l (L_ready (priority (thread s p))) s = Inr (wake l p s)"
    by (rule wake_eq [OF inv i _ l(1)]) simp
  show "kinv (wake l p s)" by (rule kinv_wake [OF inv i _ l(1)]) simp
qed

lemma parked_in_state:
  assumes "thread_ok s p"
  shows "th_state (thread s p) = THREAD_SLEEP \<Longrightarrow> parked s p {L_sleep}"
    and "th_state (thread s p) = THREAD_WAITING_MSG \<Longrightarrow> parked s p {L_wait}"
    and "th_state (thread s p) = THREAD_STOPPED \<Longrightarrow> parked s p {L_stopped}"
    and "th_state (thread s p) = THREAD_ZOMBIE \<Longrightarrow> parked s p {L_zombie}"
    and "th_state (thread s p) = THREAD_READY \<Longrightarrow> parked s p {L_ready (priority (thread s p))}"
  using assms by (simp_all add: thread_ok_def)

lemma sync_interrupt_ok:
  assumes inv: "kinv s" and p: "p < NOZA_OS_TASK_LIMIT" and st: "th_state (thread s p) = THREAD_WAITING_SYNC"
  shows "ok (bindE (case waiting_queue (thread s p) of
          Some w \<Rightarrow> bindE (noza_wait_queue_remove w p s)
                     (\<lambda>s1. Inr (upd_thread p (\<lambda>t. t\<lparr>waiting_queue := None\<rparr>) s1))
        | None \<Rightarrow> Inr s) (\<lambda>s1.
       bindE (noza_wait_queue_cancel_timeout p s1) (\<lambda>s2.
       bindE (noza_os_add_thread (L_ready (priority (thread s2 p))) p s2) (\<lambda>s3.
       Inr (noza_os_set_return_value1 p EINTR s3))))) kinv"
proof (rule unqueue_ok' [OF inv p _ st])
  fix w assume w: "waiting_queue (thread s p) = Some w"
    and f: "\<And>f :: kstate \<Rightarrow> kstate res. bindE (case waiting_queue (thread s p) of
        Some w \<Rightarrow> bindE (noza_wait_queue_remove w p s)
                   (\<lambda>s1. Inr (upd_thread p (\<lambda>t. t\<lparr>waiting_queue := None\<rparr>) s1))
      | None \<Rightarrow> Inr s) (\<lambda>s1. bindE (noza_wait_queue_cancel_timeout p s1) f) = f (unqueue w p s)"
  have "p \<notin> {}" by simp
  note a = sync_wake_ok [OF inv p this st w]
  show ?thesis unfolding f using a(1) a(2) [of EINTR] by (simp add: sync_wake_def)
qed simp

lemma signal_interrupt_kinv:
  assumes inv: "kinv s" and p: "p < NOZA_OS_TASK_LIMIT"
  shows "ok (noza_signal_interrupt_thread p s) kinv"
proof (cases "th_state (thread s p)")
  case THREAD_WAITING_SYNC
  from sync_interrupt_ok [OF inv p THREAD_WAITING_SYNC] show ?thesis
    unfolding noza_signal_interrupt_thread_def THREAD_WAITING_SYNC thread_state.case .
next
  case THREAD_WAITING_MSG
  with wake_state_ok [OF inv p, of L_wait] parked_in_state(2) show ?thesis
    by (simp add: noza_signal_interrupt_thread_def kinv_ex_irrelevant)
next
  case THREAD_SLEEP
  with wake_state_ok [OF inv p, of L_sleep] parked_in_state(1) show ?thesis
    by (simp add: noza_signal_interrupt_thread_def)
qed (use inv in \<open>simp_all add: noza_signal_interrupt_thread_def\<close>)

lemma signal_send_kinv:
  assumes inv: "kinv s" and p: "p < NOZA_OS_TASK_LIMIT"
  shows "ok (noza_signal_send_thread p sig s) kinv"
proof -
  have "kinv (upd_thread p (\<lambda>t. t\<lparr>signal_pending := b t\<rparr>) s)" for b
    using inv by (simp add: kinv_ex_irrelevant)
  with inv signal_interrupt_kinv [OF this p] show ?thesis
    by (simp add: noza_signal_send_thread_def Let_def)
qed

lemma terminate_signal_kinv:
  assumes "kinv s" and "p < NOZA_OS_TASK_LIMIT"
  shows "ok (terminate_signal_handler r p sig s) kinv"
  unfolding terminate_signal_handler_def ok_bindE
  by (rule ok_mono2 [OF terminate_ok [OF assms]]) simp

lemma stop_signal_kinv:
  assumes inv: "kinv s" and p: "p < NOZA_OS_TASK_LIMIT" and r: "running s (cpu s) = Some r"
  shows "ok (stop_signal_handler r p sig s) kinv"
proof (cases "th_state (thread s p)")
  case THREAD_READY
  let ?l = "L_ready (priority (thread s p))"
  from parked_in_state(5) [OF kinv_thread [OF inv p]] THREAD_READY have i: "p \<in> set (lists s ?l)"
    by (simp add: parked_def in_lists_on)
  from move_eq [OF inv i _ park_wait(3)] kinv_move [OF inv i _ _ park_wait(3)] THREAD_READY show ?thesis
    by (simp add: stop_signal_handler_def)
next
  case THREAD_RUNNING
  with add_running [OF inv r _ park_wait(3)] kinv_block [OF inv r _ park_wait(3)] inv show ?thesis
    by (simp add: stop_signal_handler_def)
qed (use inv in \<open>simp_all add: stop_signal_handler_def\<close>)

lemma continue_signal_kinv:
  assumes inv: "kinv s" and p: "p < NOZA_OS_TASK_LIMIT"
  shows "ok (continue_signal_handler r p sig s) kinv"
  using wake_state_ok [OF inv p, of L_stopped] parked_in_state(3) inv
  by (simp add: continue_signal_handler_def)

lemma alarm_signal_kinv:
  assumes inv: "kinv s" and p: "p < NOZA_OS_TASK_LIMIT"
  shows "ok (alarm_signal_handler r p sig s) kinv"
proof (cases "th_state (thread s p)")
  case THREAD_WAITING_SYNC
  show ?thesis
    unfolding alarm_signal_handler_def THREAD_WAITING_SYNC thread_state.case ok_bindE [of _ "\<lambda>s1. Inr (f s1)" for f]
      ok_Inr kinv_ex_set_return
    by (rule sync_interrupt_ok [OF inv p THREAD_WAITING_SYNC])
next
  case THREAD_WAITING_MSG
  with wake_state_ok [OF inv p, of L_wait] parked_in_state(2) show ?thesis
    by (simp add: alarm_signal_handler_def)
next
  case THREAD_SLEEP
  with wake_state_ok [OF inv p, of L_sleep] parked_in_state(1) show ?thesis
    by (simp add: alarm_signal_handler_def Let_def kinv_ex_upd_thread_same core_of_def)
qed (use inv signal_send_kinv [OF inv p, of sig] in
      \<open>simp_all add: alarm_signal_handler_def\<close>)

lemma signal_handler_kinv:
  assumes "kinv s" and "p < NOZA_OS_TASK_LIMIT" and "running s (cpu s) = Some r"
  shows "ok (signal_handler n r p sig s) kinv"
  using assms terminate_signal_kinv stop_signal_kinv continue_signal_kinv alarm_signal_kinv
  by (simp add: signal_handler_def do_nothing_signal_handler_def)

section \<open>The system calls keep the invariant\<close>

lemma thread_sleep_kinv:
  assumes inv: "kinv s" and r: "running s (cpu s) = Some r"
  shows "ok (syscall_thread_sleep r s) kinv"
proof -
  let ?s1 = "noza_os_set_return_value3 r 0 0 0 s"
  have 1: "kinv ?s1" "running ?s1 (cpu ?s1) = Some r" "park_list ?s1 r (L_ready (priority (thread s r)))"
    using inv r by simp_all
  let ?s2 = "\<lambda>e. upd_thread r (\<lambda>t. t\<lparr>expired_time := e\<rparr>) s"
  have 2: "kinv (?s2 e)" "running (?s2 e) (cpu (?s2 e)) = Some r" for e
    using inv r by (simp_all add: kinv_ex_irrelevant)
  from add_running [OF 1(1,2) _ 1(3)] kinv_block [OF 1(1,2) _ 1(3)]
    add_running [OF 2 _ park_wait(2)] kinv_block [OF 2 _ park_wait(2)]
  show ?thesis by (simp add: syscall_thread_sleep_def Let_def)
qed

lemma thread_kill_kinv:
  assumes inv: "kinv s" and r: "running s (cpu s) = Some r" and sig: "0 \<le> sint (r2 (trap (thread s r)))"
  shows "ok (syscall_thread_kill r s) kinv"
proof (cases "get_thread_by_vid (r1 (trap (thread s r))) s")
  case None
  with inv show ?thesis by (simp add: syscall_thread_kill_def Let_def)
next
  case (Some p)
  with inv sig signal_handler_kinv [OF inv get_thread_used(1) [OF inv Some] r] show ?thesis
    by (simp add: syscall_thread_kill_def Let_def)
qed

lemma thread_create_kinv:
  assumes "kinv s"
  shows "ok (syscall_thread_create r s) kinv"
  unfolding syscall_thread_create_def Let_def ok_bindE
  by (rule ok_mono [OF thread_create_ok [OF assms]]) auto

text \<open>A zombie that is joined or detached becomes free.\<close>

lemma zombie_deserted:
  assumes inv: "kinv s" and p: "p < NOZA_OS_TASK_LIMIT" and z: "\<not> live (thread s p)"
  shows "deserted s p"
  using kinv_exD(3) [OF inv] p z by (auto simp: owners_ok_def deserted_def)

lemma reap_ok:
  assumes inv: "kinv s" and p: "p < NOZA_OS_TASK_LIMIT" and z: "th_state (thread s p) = THREAD_ZOMBIE"
  defines "s' \<equiv> freed p (upd_list L_zombie (remove1 p) s)"
  shows "noza_os_change_state p L_zombie L_free s = Inr s'" and "kinv s'"
proof -
  let ?s1 = "upd_list L_zombie (remove1 p) s"
  from zombie_deserted [OF inv p] z have d: "deserted ?s1 p" by (simp add: live_def deserted_def)
  note rm = detach_list [OF inv p parked_in_state(4) [OF kinv_thread [OF inv p] z, simplified]]
  have nf: "th_state (thread ?s1 p) \<noteq> THREAD_FREE" using z by simp
  note b = bury_free [OF rm(2) p rm(3) d nf]
  show "noza_os_change_state p L_zombie L_free s = Inr s'"
    using rm(1) b(1) by (simp add: noza_os_change_state_def s'_def)
  have "thread_ok s' p"
    unfolding s'_def by (rule buried_ok [OF unlinked_buried(2) [OF rm(3)]]) (use rm(4) in \<open>simp add: freed_def\<close>)
  from kinv_settle [OF b(2) p] this show "kinv s'" by (simp add: s'_def)
qed

text \<open>The running thread waits for a live thread that nobody else waits for.\<close>

definition waits_for :: "pid \<Rightarrow> pid \<Rightarrow> kstate \<Rightarrow> kstate" where
  "waits_for r target s = upd_thread r (\<lambda>t. t\<lparr>th_state := THREAD_PENDING_JOIN\<rparr>)
     (upd_thread target (\<lambda>t. t\<lparr>join_th := Some r\<rparr>) s)"

lemma waits_for_sel [simp]:
  "lists (waits_for r target s) = lists s" "wqs (waits_for r target s) = wqs s"
  "running (waits_for r target s) = running s" "cpu (waits_for r target s) = cpu s"
  "priority (thread (waits_for r target s) q) = priority (thread s q)"
  "vid (thread (waits_for r target s) q) = vid (thread s q)"
  "flags (thread (waits_for r target s) q) = flags (thread s q)"
  "waiting_queue (thread (waits_for r target s) q) = waiting_queue (thread s q)"
  "th_state (thread (waits_for r target s) q) = (if q = r then THREAD_PENDING_JOIN else th_state (thread s q))"
  "join_th (thread (waits_for r target s) q) = (if q = target then Some r else join_th (thread s q))"
  by (simp_all add: waits_for_def)

lemma waits_for_places [simp]:
  "on_lists (waits_for r target s) = on_lists s" "on_wqs (waits_for r target s) = on_wqs s"
  "on_cores (waits_for r target s) = on_cores s"
  by (simp_all add: on_lists_def on_wqs_def on_cores_def fun_eq_iff)

lemma join_wait_kinv:
  assumes inv: "kinv s" and r: "running s (cpu s) = Some r" and t: "target < NOZA_OS_TASK_LIMIT"
    and live: "live (thread s target)" and none: "join_th (thread s target) = None"
  shows "kinv (noza_os_clear_running_thread (waits_for r target s))"
proof -
  let ?s = "waits_for r target s"
  note lt = kinv_running(1) [OF inv r] and th = thread_ok_running [OF kinv_running(2) [OF inv r] r]
  note d = sched_ok_distinct [OF kinv_exD(1) [OF inv]]
  have j: "joins ?s q = (if q = r then insert target (joins s q) else joins s q)" for q
    using t none by (auto simp: joins_def)
  have 1: "kinv_ex (insert r {}) ?s"
  proof (rule kinv_transitI [OF inv lt])
    show "conf ?s q = conf s q" if "q \<noteq> r" for q
      using that by (simp add: conf_def j wait_timeout_def)
    show "owners_ok ?s"
      by (rule owners_okI [where Ow = "{}", OF kinv_exD(3) [OF inv]]) (use live in \<open>auto simp: live_def split: if_splits\<close>)
    show "vid_ok (used ?s) ?s"
      by (rule vid_ok_same [OF kinv_exD(4) [OF inv]]) (use th(1) in \<open>simp_all add: waits_for_def\<close>)
    show "timers_ok ?s" by (rule timers_ok_same [OF kinv_exD(5) [OF inv]]) (simp_all add: waits_for_def)
    show "prio_ok ?s" by (rule prio_ok_same [OF kinv_exD(2) [OF inv]]) simp
  qed (use d in simp_all)
  have "thread_ok (noza_os_clear_running_thread ?s) r"
    using th r by (simp add: thread_ok_def j)
  from kinv_clear_running [OF 1 lt _ this] r show ?thesis by simp
qed

lemma thread_join_kinv:
  assumes inv: "kinv s" and r: "running s (cpu s) = Some r"
  shows "ok (syscall_thread_join r s) kinv"
proof (cases "get_thread_by_vid (r1 (trap (thread s r))) s")
  case None
  with inv show ?thesis by (simp add: syscall_thread_join_def)
next
  case (Some p)
  note p = get_thread_used [OF inv Some]
  have reap: "ok (noza_os_change_state p L_zombie L_free (noza_os_set_return_value2 r 0 c s)) kinv"
    if "th_state (thread s p) = THREAD_ZOMBIE" for c
    using reap_ok [of "noza_os_set_return_value2 r 0 c s" p] inv p(1) that by simp
  have "kinv (noza_os_clear_running_thread (upd_thread r (\<lambda>t. t\<lparr>th_state := THREAD_PENDING_JOIN\<rparr>)
      (upd_thread p (\<lambda>t. t\<lparr>join_th := Some r\<rparr>) s)))" if "live (thread s p)" "join_th (thread s p) = None"
    using join_wait_kinv [OF inv r p(1) that] by (simp add: waits_for_def)
  with Some p reap inv show ?thesis
    by (simp add: syscall_thread_join_def live_def split: thread_state.split)
qed

lemma thread_detach_kinv:
  assumes inv: "kinv s"
  shows "ok (syscall_thread_detach r s) kinv"
proof (cases "get_thread_by_vid (r1 (trap (thread s r))) s")
  case None
  with inv show ?thesis by (simp add: syscall_thread_detach_def)
next
  case (Some p)
  note p = get_thread_used [OF inv Some]
  have reap: "ok (noza_os_change_state p L_zombie L_free (noza_os_set_return_value1 r EINVAL s)) kinv"
    if "th_state (thread s p) = THREAD_ZOMBIE"
    using reap_ok [of "noza_os_set_return_value1 r EINVAL s" p] inv p(1) that by simp
  let ?s = "upd_thread p (\<lambda>t. t\<lparr>flags := flags t OR FLAG_DETACH\<rparr>) s"
  have "(f OR FLAG_DETACH) AND FLAG_WAIT_TIMEOUT = f AND FLAG_WAIT_TIMEOUT" for f :: u8
    by (rule bit_word_eqI) (auto simp: bit_simps)
  then have "wait_timeout ((thread s p)\<lparr>flags := flags (thread s p) OR FLAG_DETACH\<rparr>) = wait_timeout (thread s p)"
    by (simp add: wait_timeout_def)
  then have th: "thread_ok ?s p = thread_ok s p" by (intro thread_ok_conf) (simp add: conf_def)
  have "kinv_ex (insert p {}) ?s" by (rule kinv_transit_thread [OF inv p(1)]) simp_all
  from kinv_settle [OF this p(1)] th kinv_thread [OF inv p(1)] have "kinv ?s" by simp
  with Some p reap inv show ?thesis by (simp add: syscall_thread_detach_def)
qed

text \<open>A change of priority is safe when the new priority is one.\<close>

lemma prio_transit:
  assumes inv: "kinv_ex X s" and p: "p < NOZA_OS_TASK_LIMIT" and n: "n < NOZA_OS_PRIORITY_LIMIT"
  shows "kinv_ex (insert p X) (upd_thread p (\<lambda>t. t\<lparr>priority := n\<rparr>) s)"
proof (rule kinv_transitI [OF inv p])
  let ?s = "upd_thread p (\<lambda>t. t\<lparr>priority := n\<rparr>) s"
  show "conf ?s q = conf s q" if "q \<noteq> p" for q using that by (simp add: conf_def)
  show "owners_ok ?s"
    by (rule owners_okI [where Ow = "{}", OF kinv_exD(3) [OF inv]]) (auto simp: live_def)
  show "vid_ok (used ?s) ?s" by (rule vid_ok_same [OF kinv_exD(4) [OF inv]]) auto
  show "prio_ok ?s" using kinv_exD(2) [OF inv] n by (simp add: prio_ok_def)
  show "timers_ok ?s" by (rule timers_ok_same [OF kinv_exD(5) [OF inv]]) auto
qed (use sched_ok_distinct [OF kinv_exD(1) [OF inv]] in simp_all)

lemma prio_blocked_kinv:
  assumes inv: "kinv s" and p: "p < NOZA_OS_TASK_LIMIT" and n: "n < NOZA_OS_PRIORITY_LIMIT"
    and st: "th_state (thread s p) \<noteq> THREAD_READY"
  shows "kinv (upd_thread p (\<lambda>t. t\<lparr>priority := n\<rparr>) s)"
proof -
  let ?s = "upd_thread p (\<lambda>t. t\<lparr>priority := n\<rparr>) s"
  have "thread_ok ?s p"
    using kinv_thread [OF inv p] st
    by (simp add: thread_ok_def parked_def wait_timeout_def split: thread_state.splits)
  from kinv_settle [OF prio_transit [OF inv p n] p this] show ?thesis by simp
qed

lemma prio_ready_kinv:
  assumes inv: "kinv s" and p: "p < NOZA_OS_TASK_LIMIT" and n: "n < NOZA_OS_PRIORITY_LIMIT"
    and st: "th_state (thread s p) = THREAD_READY"
  shows "ok (bindE (noza_os_remove_thread (L_ready (priority (thread s p))) p s) (\<lambda>s1.
           noza_os_add_thread (L_ready n) p (upd_thread p (\<lambda>t. t\<lparr>priority := n\<rparr>) s1))) kinv"
proof -
  note rm = detach_list [OF inv p parked_in_state(5) [OF kinv_thread [OF inv p] st, simplified]]
  let ?s1 = "upd_list (L_ready (priority (thread s p))) (remove1 p) s"
  let ?s2 = "upd_thread p (\<lambda>t. t\<lparr>priority := n\<rparr>) ?s1"
  have 2: "kinv_ex (insert p {}) ?s2" using prio_transit [OF rm(2) p n] by simp
  have lo: "loose ?s2 p" using rm(3,4) by (simp add: loose_def parked_def unlinked_def)
  have park: "park_list ?s2 p (L_ready n)" by simp
  from add_loose [OF 2 p lo park] kinv_place [OF 2 p lo park] st rm(1) show ?thesis by simp
qed

lemma change_priority_kinv:
  assumes inv: "kinv s" and r: "running s (cpu s) = Some r"
    and n: "unat (r2 (trap (thread s r))) mod 256 < NOZA_OS_PRIORITY_LIMIT"
  shows "ok (syscall_thread_change_priority r s) kinv"
proof (cases "get_thread_by_vid (r1 (trap (thread s r))) s")
  case None
  with inv show ?thesis by (simp add: syscall_thread_change_priority_def)
next
  case (Some p)
  note p = get_thread_used [OF inv Some]
  note th = thread_ok_running [OF kinv_running(2) [OF inv r] r]
  from prio_blocked_kinv [OF inv p(1) n] prio_ready_kinv [OF inv p(1) n] Some p inv th(1) show ?thesis
    by (auto simp: syscall_thread_change_priority_def Let_def)
qed

lemma thread_terminate_kinv:
  assumes inv: "kinv s" and r: "running s (cpu s) = Some r"
  shows "ok (syscall_thread_terminate r s) (\<lambda>s'. kinv s' \<and> running s' = (running s)(cpu s := None)
           \<and> \<not> live (thread s' r)
           \<and> (th_state (thread s' r) = THREAD_ZOMBIE \<longrightarrow> exit_code (thread s' r) = r1 (trap (thread s r))))"
proof -
  note th = thread_ok_running [OF kinv_running(2) [OF inv r] r]
  show ?thesis
    unfolding syscall_thread_terminate_def ok_bindE
    by (rule ok_mono2 [OF terminate_ok [OF inv kinv_running(1) [OF inv r]]])
       (use r th(1) in \<open>auto simp: terminated_def live_def\<close>)
qed

lemma signal_calls_kinv:
  assumes inv: "kinv s"
  shows "ok (syscall_signal_send r s) kinv" and "ok (syscall_signal_take r s) kinv"
proof -
  show "ok (syscall_signal_send r s) kinv"
  proof (cases "get_thread_by_vid (r1 (trap (thread s r))) s")
    case (Some p)
    with signal_send_kinv [OF inv get_thread_used(1) [OF inv Some]] inv show ?thesis
      by (simp add: syscall_signal_send_def Let_def)
  qed (use inv in \<open>simp add: syscall_signal_send_def Let_def\<close>)
  show "ok (syscall_signal_take r s) kinv"
    using inv by (simp add: syscall_signal_take_def Let_def kinv_ex_irrelevant)
qed

section \<open>Exit and join\<close>

lemma exit_ok:
  assumes inv: "kinv s" and r: "running s (cpu s) = Some p"
  shows "ok (syscall_thread_terminate p s) (\<lambda>s'. kinv s' \<and> running s' = (running s)(cpu s := None)
           \<and> exited p (upd_thread p (\<lambda>t. t\<lparr>exit_code := r1 (trap (thread s p))\<rparr>) s) s'
           \<and> all_released (port_waiters p s) EINTR s' \<and> spared p s s')"
proof -
  let ?t = "upd_thread p (\<lambda>t. t\<lparr>exit_code := r1 (trap (thread s p))\<rparr>) s"
  note lt = kinv_running(1) [OF inv r] and th = thread_ok_running [OF kinv_running(2) [OF inv r] r]
  have d: "kinv_ex {p} s" "unlinked s p" "live (thread s p)"
    using detached_running [OF inv r] by (simp_all add: detached_def)
  then have t: "kinv_ex {p} ?t" "unlinked ?t p" "live (thread ?t p)" "port_waiters p ?t = port_waiters p s"
    by (simp_all add: kinv_ex_upd_thread_same core_of_def unlinked_def live_def port_waiters_def)
  from ok_value [OF finalize_ok [OF t(1) lt t(2,3)]] obtain s2 where
    s2: "noza_finalize_thread_exit p ?t = Inr s2" "running s2 = running s" "cpu s2 = cpu s" "exited p ?t s2"
      "all_released (port_waiters p s) EINTR s2" "spared p ?t s2" by (auto simp: t(4))
  let ?s' = "noza_os_clear_running_thread s2"
  have "noza_terminate_thread p (r1 (trap (thread s p))) s = Inr (0, ?s')"
    using s2 r th(1) by (simp add: noza_terminate_thread_def noza_detach_blocked_thread_def noza_os_get_running_thread_def)
  then have e: "syscall_thread_terminate p s = Inr ?s'" by (simp add: syscall_thread_terminate_def)
  have "spared p s ?s'" using s2(6) by (auto simp: spared_def port_waiters_def)
  moreover have "exited p ?t ?s'" "all_released (port_waiters p s) EINTR ?s'"
    using s2(4,5) by (simp_all add: exited_def all_released_def)
  ultimately show ?thesis using thread_terminate_kinv [OF inv r] unfolding e by simp
qed

text \<open>C30: A thread that exits leaves its core and becomes a zombie with its exit code, or free at once when it is
  detached or another thread waits for its end; this thread becomes ready and gets the exit code. Every thread
  that waited at its port, to be received or for a reply, becomes ready with \<^verbatim>\<open>EINTR\<close>. All other threads stay
  as they are.\<close>

theorem thread_exit:
  assumes "kinv s" and "running s (cpu s) = Some p"
  shows "\<exists>s'. syscall_thread_terminate p s = Inr s' \<and> kinv s' \<and> running s' = (running s)(cpu s := None)
    \<and> th_state (thread s' p) = (if join_th (thread s p) = None \<and> flags (thread s p) AND FLAG_DETACH = 0 then THREAD_ZOMBIE else THREAD_FREE)
    \<and> exit_code (thread s' p) = r1 (trap (thread s p))
    \<and> (\<forall>j. join_th (thread s p) = Some j \<longrightarrow> th_state (thread s' j) = THREAD_READY
         \<and> r0 (trap (thread s' j)) = 0 \<and> r1 (trap (thread s' j)) = r1 (trap (thread s p)))
    \<and> (\<forall>q \<in> port_waiters p s. th_state (thread s' q) = THREAD_READY \<and> r0 (trap (thread s' q)) = EINTR)
    \<and> (\<forall>q. q \<noteq> p \<and> q \<notin> port_waiters p s \<and> join_th (thread s p) \<noteq> Some q \<longrightarrow> thread s' q = thread s q)"
  using ok_value [OF exit_ok [OF assms]] by (auto simp: exited_def all_released_def spared_def Let_def)

theorem thread_exit_witness:
  "\<exists>s'. syscall_thread_terminate 0 demo = Inr s' \<and> th_state (thread s' 0) = THREAD_ZOMBIE \<and> running s' 0 = None
    \<and> (\<forall>q \<in> {3, 4, 13}. th_state (thread s' q) = THREAD_READY \<and> r0 (trap (thread s' q)) = EINTR)"
proof -
  have "port_waiters 0 demo = {3, 4, 13}" by (auto simp: port_waiters_def)
  with thread_exit [OF demo_kinv, of 0] show ?thesis by (auto simp: demo_thread_def)
qed

lemma join_live:
  assumes inv: "kinv s" and r: "running s (cpu s) = Some r" and q: "get_thread_by_vid (r1 (trap (thread s r))) s = Some q"
    and l: "live (thread s q)" "join_th (thread s q) = None" "flags (thread s q) AND FLAG_DETACH = 0"
  shows "syscall_thread_join r s = Inr (noza_os_clear_running_thread (waits_for r q s))"
    and "kinv (noza_os_clear_running_thread (waits_for r q s))"
proof -
  show "syscall_thread_join r s = Inr (noza_os_clear_running_thread (waits_for r q s))"
    using q l by (auto simp: syscall_thread_join_def waits_for_def live_def split: thread_state.split)
  show "kinv (noza_os_clear_running_thread (waits_for r q s))"
    by (rule join_wait_kinv [OF inv r get_thread_used(1) [OF inv q] l(1,2)])
qed

lemma join_zombie:
  assumes inv: "kinv s" and q: "get_thread_by_vid (r1 (trap (thread s r))) s = Some q" and z: "th_state (thread s q) = THREAD_ZOMBIE"
    and f: "flags (thread s q) AND FLAG_DETACH = 0" and ne: "r \<noteq> q"
  shows "\<exists>s'. syscall_thread_join r s = Inr s' \<and> kinv s' \<and> th_state (thread s' q) = THREAD_FREE
    \<and> r0 (trap (thread s' r)) = 0 \<and> r1 (trap (thread s' r)) = exit_code (thread s q) \<and> running s' = running s"
proof -
  let ?s = "noza_os_set_return_value2 r 0 (exit_code (thread s q)) s"
  have k: "kinv ?s" "th_state (thread ?s q) = THREAD_ZOMBIE" using inv z by simp_all
  note reap = reap_ok [OF k(1) get_thread_used(1) [OF inv q] k(2)]
  from reap q z f show ?thesis using ne
    by (simp add: syscall_thread_join_def freed_def set_return_defs)
qed

text \<open>C31: It does not matter whether a thread waits for the end of another before or after that one exits on the
  other core: in both orders it gets result 0 and the exit code, and the thread that ended is free again.\<close>

theorem join_any_order:
  assumes inv: "kinv s" and r: "running s c = Some r" and q: "running s d = Some q" and cd: "c \<noteq> d"
    and v: "r1 (trap (thread s r)) = vid (thread s q)" and j: "join_th (thread s q) = None"
    and f: "flags (thread s q) AND FLAG_DETACH = 0"
  shows "\<exists>s1 s2 t1 t2. syscall_thread_join r (s\<lparr>cpu := c\<rparr>) = Inr s1 \<and> syscall_thread_terminate q (s1\<lparr>cpu := d\<rparr>) = Inr s2
    \<and> syscall_thread_terminate q (s\<lparr>cpu := d\<rparr>) = Inr t1 \<and> syscall_thread_join r (t1\<lparr>cpu := c\<rparr>) = Inr t2
    \<and> kinv s2 \<and> kinv t2 \<and> th_state (thread s2 q) = THREAD_FREE \<and> th_state (thread t2 q) = THREAD_FREE
    \<and> r0 (trap (thread s2 r)) = 0 \<and> r0 (trap (thread t2 r)) = 0
    \<and> r1 (trap (thread s2 r)) = r1 (trap (thread s q)) \<and> r1 (trap (thread t2 r)) = r1 (trap (thread s q))
    \<and> th_state (thread s2 r) = THREAD_READY \<and> running t2 c = Some r"
proof -
  let ?c = "s\<lparr>cpu := c\<rparr>" and ?d = "s\<lparr>cpu := d\<rparr>"
  have k: "kinv ?c" "kinv ?d" "running ?c (cpu ?c) = Some r" "running ?d (cpu ?d) = Some q" using inv r q by simp_all
  note tr = thread_ok_running [OF kinv_running(2) [OF inv r] r, simplified]
    and tq = thread_ok_running [OF kinv_running(2) [OF inv q] q, simplified]
  have ne: "r \<noteq> q" using tr(6) q cd by (auto simp: on_cores_def)
  have get: "get_thread_by_vid (vid (thread x q)) x = Some q" if "kinv x" "th_state (thread x q) \<noteq> THREAD_FREE" for x
    using vid_okD(2) [OF kinv_exD(4) [OF that(1)]] kinv_running(1) [OF k(2,4)] that(2) by (simp add: used_def)
  have live: "live (thread s q)" using tq(1) by (simp add: live_def)
  let ?s1 = "noza_os_clear_running_thread (waits_for r q ?c)"
  have g: "get_thread_by_vid (r1 (trap (thread ?c r))) ?c = Some q" using get [OF k(1)] tq(1) v by simp
  note jl = join_live [OF k(1,3) g, simplified, OF live j f]
  have k1: "kinv (?s1\<lparr>cpu := d\<rparr>)" "running (?s1\<lparr>cpu := d\<rparr>) (cpu (?s1\<lparr>cpu := d\<rparr>)) = Some q"
    using jl(2) q cd by simp_all
  have w: "join_th (thread (?s1\<lparr>cpu := d\<rparr>) q) = Some r" "trap (thread (?s1\<lparr>cpu := d\<rparr>) q) = trap (thread s q)"
    using ne by (simp_all add: waits_for_def)
  from ok_value [OF exit_ok [OF k1]] w obtain s2 where s2: "syscall_thread_terminate q (?s1\<lparr>cpu := d\<rparr>) = Inr s2" "kinv s2"
    "th_state (thread s2 q) = THREAD_FREE" "th_state (thread s2 r) = THREAD_READY" "r0 (trap (thread s2 r)) = 0"
    "r1 (trap (thread s2 r)) = r1 (trap (thread s q))" by (auto simp: exited_def Let_def)
  from ok_value [OF exit_ok [OF k(2,4)]] obtain t1 where t1: "syscall_thread_terminate q ?d = Inr t1" "kinv t1"
    "running t1 = (running s)(d := None)" "th_state (thread t1 q) = THREAD_ZOMBIE" "exit_code (thread t1 q) = r1 (trap (thread s q))"
    "spared q ?d t1" using j f by (auto simp: exited_def Let_def)
  have "r \<notin> port_waiters q ?d" using tr(2) by (auto simp: port_waiters_def dest: not_on_lists)
  with t1(6,4) ne j have x: "thread t1 r = thread s r" "vid (thread t1 q) = vid (thread s q)"
    "flags (thread t1 q) = flags (thread s q)" by (auto simp: spared_def)
  have "get_thread_by_vid (r1 (trap (thread (t1\<lparr>cpu := c\<rparr>) r))) (t1\<lparr>cpu := c\<rparr>) = Some q"
    using get [of "t1\<lparr>cpu := c\<rparr>"] t1(2,4) x v by simp
  with join_zombie [of "t1\<lparr>cpu := c\<rparr>" r q] t1 x f ne r cd obtain t2 where t2: "syscall_thread_join r (t1\<lparr>cpu := c\<rparr>) = Inr t2"
    "kinv t2" "th_state (thread t2 q) = THREAD_FREE" "r0 (trap (thread t2 r)) = 0"
    "r1 (trap (thread t2 r)) = r1 (trap (thread s q))" "running t2 c = Some r" by auto
  from jl(1) s2 t1(1) t2 show ?thesis by auto
qed

theorem join_any_order_witness:
  "\<exists>s t1 t2. kinv s \<and> running s 0 = Some 0 \<and> running s 1 = Some 12 \<and> syscall_thread_terminate 12 (s\<lparr>cpu := 1\<rparr>) = Inr t1
    \<and> syscall_thread_join 0 (t1\<lparr>cpu := 0\<rparr>) = Inr t2 \<and> r1 (trap (thread t2 0)) = 5"
proof -
  let ?s = "upd_thread 0 (\<lambda>t. t\<lparr>trap := (trap t)\<lparr>r1 := 13\<rparr>\<rparr>) (upd_thread 12 (\<lambda>t. t\<lparr>trap := (trap t)\<lparr>r1 := 5\<rparr>\<rparr>) demo)"
  have k: "kinv ?s" using demo_kinv by (simp add: kinv_ex_irrelevant)
  from join_any_order [OF k, of 0 0 1 12] k show ?thesis by (auto simp: demo_thread_def)
qed

section \<open>A signal to a thread that waits for a message\<close>

lemma send_panics:
  assumes inv: "kinv s" and r: "running s (cpu s) = Some r" and t: "target < NOZA_OS_TASK_LIMIT" "live (thread s target)"
    and port: "port_st (thread s target) = PORT_READY" and st: "th_state (thread s target) \<noteq> THREAD_WAITING_MSG" "r \<noteq> target"
  shows "noza_os_send r target msg sz s = Inl Kernel_panic"
proof -
  let ?s = "msg_sent r target msg sz s"
  have inv2: "kinv ?s" and r2: "running ?s (cpu ?s) = Some r" using inv r by simp_all
  have park: "park_list ?s r (L_reply target)" using t by (simp add: live_def)
  from add_running [OF inv2 r2 _ park] have "noza_os_add_thread (L_reply target) r ?s = Inr (put (L_reply target) r ?s)" by simp
  with t port st show ?thesis unfolding noza_os_send_def Let_def msg_sent_eq by (simp add: live_def)
qed

text \<open>C32: A signal can set up a kernel panic. A thread that waits for a message is interrupted by an unmasked signal:
  it becomes ready with \<^verbatim>\<open>EINTR\<close> and leaves the list of waiting threads, but its port stays marked as ready. The
  next message that any running thread sends to it before it receives again stops the kernel.\<close>

theorem signal_breaks_port:
  assumes inv: "kinv s" and r: "running s (cpu s) = Some r" and t: "get_thread_by_vid (r1 (trap (thread s r))) s = Some p"
    and st: "th_state (thread s p) = THREAD_WAITING_MSG" "port_st (thread s p) = PORT_READY"
    and sig: "r2 (trap (thread s r)) \<noteq> 0" "r2 (trap (thread s r)) \<le> 32"
    and mask: "signal_mask (thread s p) AND push_bit (unat (r2 (trap (thread s r)) - 1)) 1 = 0"
  shows "\<exists>s1. syscall_signal_send r s = Inr s1 \<and> kinv s1 \<and> th_state (thread s1 p) = THREAD_READY
    \<and> r0 (trap (thread s1 p)) = EINTR \<and> p \<notin> set (lists s1 L_wait) \<and> noza_os_send r p msg sz s1 = Inl Kernel_panic"
proof -
  note p = get_thread_used [OF inv t]
  let ?b = "push_bit (unat (r2 (trap (thread s r)) - 1)) (1 :: u32)"
  let ?s = "upd_thread p (\<lambda>t. t\<lparr>signal_pending := signal_pending t OR ?b\<rparr>) s"
  let ?s2 = "noza_os_set_return_value1 p EINTR (upd_thread p (\<lambda>t. t\<lparr>pending_recv_msg := None\<rparr>) (wake L_wait p ?s))"
  let ?s1 = "noza_os_set_return_value1 r 0 ?s2"
  have k: "kinv ?s" using inv by (simp add: kinv_ex_irrelevant)
  have r': "th_state (thread s r) = THREAD_RUNNING" "r \<noteq> p"
    using thread_ok_running(1) [OF kinv_running(2) [OF inv r] r] st(1) by auto
  have w: "noza_os_change_state p L_wait (L_ready (priority (thread ?s p))) ?s = Inr (wake L_wait p ?s)" "kinv (wake L_wait p ?s)"
    using wake_state_ok [OF k p(1), of L_wait] parked_in_state(2) [of ?s p] st(1) by simp_all
  from w sig mask t st(1) have e: "syscall_signal_send r s = Inr ?s1"
    by (simp add: syscall_signal_send_def noza_signal_send_thread_def Let_def noza_signal_interrupt_thread_def)
  have k1: "kinv ?s1" using w(2) by (simp add: kinv_ex_irrelevant)
  have d: "distinct (lists s L_wait)" using sched_ok_distinct(1) [OF kinv_exD(1) [OF inv]] .
  have x: "th_state (thread ?s1 p) = THREAD_READY" "port_st (thread ?s1 p) = PORT_READY" "running ?s1 (cpu ?s1) = Some r"
    "r0 (trap (thread ?s1 p)) = EINTR" "p \<notin> set (lists ?s1 L_wait)"
    using st r' r d by (simp_all add: set_return_defs lists_wake)
  from send_panics [OF k1 x(3) p(1) _ x(2) _ r'(2), of msg sz] x(1) have "noza_os_send r p msg sz ?s1 = Inl Kernel_panic"
    by (simp add: live_def)
  with e k1 x show ?thesis by blast
qed

theorem signal_breaks_port_witness:
  "\<exists>s s1. kinv s \<and> syscall_signal_send 0 s = Inr s1 \<and> kinv s1 \<and> th_state (thread s1 2) = THREAD_READY
    \<and> noza_os_send 0 2 0x20001000 12 s1 = Inl Kernel_panic"
proof -
  let ?s = "upd_thread 0 (\<lambda>t. t\<lparr>trap := (trap t)\<lparr>r1 := 3, r2 := 15\<rparr>\<rparr>) demo"
  have k: "kinv ?s" using demo_kinv by (simp add: kinv_ex_irrelevant)
  have g: "get_thread_by_vid (r1 (trap (thread ?s 0))) ?s = Some 2" using demo_get [of 3 2] by (simp add: demo_thread_def get_thread_by_vid_def)
  from signal_breaks_port [OF k _ g, of "0x20001000" 12] k show ?thesis
    by (auto simp: demo_thread_def demo_states_def)
qed

end
