(* ===== verification/Irq.thy ===== *)
theory Irq
  imports Ipc
begin

text \<open>
  Interrupts as messages (\<^verbatim>\<open>kernel/noza_os.c\<close>, lines 349-537). The interrupt service routine records an
  event in the binding of its interrupt line and sets a bit of \<^verbatim>\<open>irq_pending_bitmap\<close>; the scheduler
  hands the event to the interrupt server when that waits for a message, and otherwise the server
  finds it when it next receives. A reply to the event's sender identifier unmasks the line.
\<close>

section \<open>Operations\<close>

abbreviation "NOZA_IRQ_SENDER_BASE \<equiv> (0xFFFF0000 :: u32)"
abbreviation "NOZA_IRQ_STATUS_OVERFLOW \<equiv> (1 :: u32)"

text \<open>\<^verbatim>\<open>sizeof(noza_irq_event_t)\<close>: four words.\<close>

abbreviation "IRQ_EVENT_SIZE \<equiv> (16 :: u32)"

definition irq_sender_vid_inline :: "u32 \<Rightarrow> u32" where
  "irq_sender_vid_inline irq_id = NOZA_IRQ_SENDER_BASE OR (irq_id AND 0xFFFF)"

definition irq_is_kernel_vid :: "u32 \<Rightarrow> bool" where
  "irq_is_kernel_vid v \<longleftrightarrow> v AND 0xFFFF0000 = NOZA_IRQ_SENDER_BASE"

definition irq_sender_to_id :: "u32 \<Rightarrow> u32" where
  "irq_sender_to_id v = v AND 0xFFFF"

definition irq_bindings_init :: "kstate \<Rightarrow> kstate" where
  "irq_bindings_init s =
     s\<lparr>irq_bindings := (\<lambda>i. if i < NOZA_PLATFORM_IRQ_COUNT
         then \<lparr>ev_irq_id = of_nat i, ev_timestamp_us = 0, ev_status = 0,
               irq_owner_vid = IRQ_SERVER_VID, queued = False, inflight = False\<rparr>
         else irq_bindings s i),
       irq_pending_bitmap := 0\<rparr>"

definition irq_prepare_user_message :: "pid \<Rightarrow> nat \<Rightarrow> kstate \<Rightarrow> kstate" where
  "irq_prepare_user_message target i s =
     (let sender_vid = irq_sender_vid_inline (ev_irq_id (irq_bindings s i));
          event = irq_event_addr s i;
          s1 = noza_ipc_write_user_message target sender_vid event IRQ_EVENT_SIZE k_default_identity s;
          s2 = noza_os_set_return_value4 target 0 sender_vid event IRQ_EVENT_SIZE s1
      in upd_thread target (\<lambda>t. t\<lparr>port_st := PORT_WAIT_LISTEN\<rparr>) s2)"

definition irq_deliver_if_waiting :: "nat \<Rightarrow> kstate \<Rightarrow> kstate res" where
  "irq_deliver_if_waiting irq_id s =
     (if \<not> irq_id < NOZA_PLATFORM_IRQ_COUNT then Inl Out_of_bounds
      else if \<not> queued (irq_bindings s irq_id) \<or> inflight (irq_bindings s irq_id) then Inr s
      else case get_thread_by_vid (irq_owner_vid (irq_bindings s irq_id)) s of
             None \<Rightarrow> Inr s
           | Some target \<Rightarrow>
               if th_state (thread s target) \<noteq> THREAD_WAITING_MSG \<or> port_st (thread s target) \<noteq> PORT_READY
               then Inr s
               else
                 let s1 = upd_irq irq_id (\<lambda>b. b\<lparr>queued := False, inflight := True\<rparr>) s;
                     s2 = irq_prepare_user_message target irq_id s1
                 in noza_os_change_state target L_wait (L_ready (priority (thread s2 target))) s2)"

text \<open>\<^verbatim>\<open>__builtin_ctz\<close> of a non-zero word: the number of its lowest bit.\<close>

definition ctz :: "u32 \<Rightarrow> nat option" where
  "ctz w = find (bit w) [0..<32]"

definition irq_fetch_next_pending :: "kstate \<Rightarrow> nat option \<times> kstate" where
  "irq_fetch_next_pending s =
     (case ctz (irq_pending_bitmap s) of
        None \<Rightarrow> (None, s)
      | Some irq_id \<Rightarrow>
          (Some irq_id, s\<lparr>irq_pending_bitmap := irq_pending_bitmap s AND NOT (push_bit irq_id 1)\<rparr>))"

text \<open>The loop ends because every round clears a bit; 33 rounds see an empty bitmap.\<close>

fun irq_process_loop :: "nat \<Rightarrow> kstate \<Rightarrow> kstate res" where
  "irq_process_loop 0 s = Inl Diverge"
| "irq_process_loop (Suc n) s =
     (case irq_fetch_next_pending s of
        (None, s1) \<Rightarrow> Inr s1
      | (Some irq_id, s1) \<Rightarrow> bindE (irq_deliver_if_waiting irq_id s1) (irq_process_loop n))"

definition irq_process_pending :: "kstate \<Rightarrow> kstate res" where
  "irq_process_pending = irq_process_loop 33"

definition irq_try_consume_event :: "pid \<Rightarrow> kstate \<Rightarrow> bool \<times> kstate" where
  "irq_try_consume_event r s =
     (if vid (thread s r) \<noteq> IRQ_SERVER_VID then (False, s)
      else case find (\<lambda>i. queued (irq_bindings s i) \<and> \<not> inflight (irq_bindings s i)) [0..<NOZA_PLATFORM_IRQ_COUNT] of
             None \<Rightarrow> (False, s)
           | Some i \<Rightarrow>
               (True, irq_prepare_user_message r i (upd_irq i (\<lambda>b. b\<lparr>queued := False, inflight := True\<rparr>) s)))"

definition irq_try_handle_reply :: "pid \<Rightarrow> kstate \<Rightarrow> (bool \<times> kstate) res" where
  "irq_try_handle_reply r s =
     (let target_vid = r1 (trap (thread s r)); irq_id = unat (irq_sender_to_id target_vid)
      in if \<not> irq_is_kernel_vid target_vid then Inr (False, s)
         else if irq_id \<ge> NOZA_PLATFORM_IRQ_COUNT then Inr (False, s)
         else
           let s1 = upd_irq irq_id (\<lambda>b. b\<lparr>inflight := False, ev_status := 0\<rparr>) s;
               s2 = s1\<lparr>irq_masked := (irq_masked s1)(irq_id := False)\<rparr>;
               s3 = noza_os_set_return_value1 r 0 s2
           in bindE (if queued (irq_bindings s3 irq_id) then irq_deliver_if_waiting irq_id s3 else Inr s3)
                (\<lambda>s4. Inr (True, s4)))"

definition noza_irq_handle_from_isr :: "u32 \<Rightarrow> kstate \<Rightarrow> kstate" where
  "noza_irq_handle_from_isr irq s =
     (let i = unat irq
      in if i \<ge> NOZA_PLATFORM_IRQ_COUNT then s
         else if irq_owner_vid (irq_bindings s i) = 0 then s
         else
           let s1 = s\<lparr>irq_masked := (irq_masked s)(i := True)\<rparr>;
               s2 = upd_irq i (\<lambda>b. b\<lparr>ev_irq_id := irq, ev_timestamp_us := word_of_int (clock s1),
                      ev_status := (if queued b \<or> inflight b then NOZA_IRQ_STATUS_OVERFLOW else 0),
                      queued := True\<rparr>) s1
           in s2\<lparr>irq_pending_bitmap := irq_pending_bitmap s2 OR push_bit i 1\<rparr>)"

section \<open>The system calls on ports\<close>

definition syscall_recv :: "pid \<Rightarrow> kstate \<Rightarrow> kstate res" where
  "syscall_recv r s =
     (let msg = r1 (trap (thread s r));
          s1 = upd_thread r (\<lambda>t. t\<lparr>pending_recv_msg := msg_pointer msg\<rparr>) s
      in case irq_try_consume_event r s1 of
           (True, s2) \<Rightarrow> Inr s2
         | (False, s2) \<Rightarrow> noza_os_recv r msg s2)"

definition syscall_reply :: "pid \<Rightarrow> kstate \<Rightarrow> kstate res" where
  "syscall_reply r s =
     bindE (irq_try_handle_reply r s) (\<lambda>(handled, s1).
     if handled then Inr s1
     else noza_os_reply r (r1 (trap (thread s1 r))) (r2 (trap (thread s1 r))) (r3 (trap (thread s1 r))) s1)"

definition syscall_call :: "pid \<Rightarrow> kstate \<Rightarrow> kstate res" where
  "syscall_call r s =
     (case get_thread_by_vid (r1 (trap (thread s r))) s of
        None \<Rightarrow> Inr (noza_os_set_return_value1 r ESRCH s)
      | Some target \<Rightarrow> noza_os_send r target (r2 (trap (thread s r))) (r3 (trap (thread s r))) s)"

text \<open>The message and its size are taken from \<^verbatim>\<open>r1\<close> and \<^verbatim>\<open>r2\<close>, one register too early.\<close>

definition syscall_nbcall :: "pid \<Rightarrow> kstate \<Rightarrow> kstate res" where
  "syscall_nbcall r s =
     (case get_thread_by_vid (r1 (trap (thread s r))) s of
        None \<Rightarrow> Inr (noza_os_set_return_value1 r ESRCH s)
      | Some target \<Rightarrow> noza_os_nonblock_send r target (r1 (trap (thread s r))) (r2 (trap (thread s r))) s)"

definition syscall_nbrecv :: "pid \<Rightarrow> kstate \<Rightarrow> kstate res" where
  "syscall_nbrecv r s = noza_os_nonblock_recv r (r1 (trap (thread s r))) s"

section \<open>The invariant\<close>

text \<open>Bits are pending for existing lines only.\<close>

definition irq_ok :: "kstate \<Rightarrow> bool" where
  "irq_ok s \<longleftrightarrow> (\<forall>i. bit (irq_pending_bitmap s) i \<longrightarrow> i < NOZA_PLATFORM_IRQ_COUNT)"

lemma prepare_deliver:
  "irq_prepare_user_message target i s = deliver target (irq_sender_vid_inline (ev_irq_id (irq_bindings s i)))
     (irq_event_addr s i) IRQ_EVENT_SIZE k_default_identity s"
  by (simp add: irq_prepare_user_message_def deliver_def Let_def)

lemma ctz_Some: "ctz w = Some i \<Longrightarrow> bit w i \<and> i < 32"
  using find_split [of "bit w" "[0..<32]" i] by (simp add: ctz_def del: upt_rec_numeral)

lemma ctz_None: "ctz w = None \<longleftrightarrow> w = 0"
proof -
  have "w = 0 \<longleftrightarrow> (\<forall>i<32. \<not> bit w i)" by (simp add: bit_eq_iff [of w 0])
  then show ?thesis by (auto simp: ctz_def find_None_iff simp del: upt_rec_numeral)
qed

lemma ctz_zero [simp]: "ctz 0 = None"
  by (simp add: ctz_None)

lemma irq_deliver_ok:
  assumes inv: "kinv s" and i: "i < NOZA_PLATFORM_IRQ_COUNT"
  shows "ok (irq_deliver_if_waiting i s) (\<lambda>s'. kinv s' \<and> running s' = running s \<and> cpu s' = cpu s
           \<and> clock s' = clock s \<and> irq_pending_bitmap s' = irq_pending_bitmap s)"
proof (cases "queued (irq_bindings s i) \<and> \<not> inflight (irq_bindings s i)
    \<and> (\<exists>p. get_thread_by_vid (irq_owner_vid (irq_bindings s i)) s = Some p
         \<and> th_state (thread s p) = THREAD_WAITING_MSG \<and> port_st (thread s p) = PORT_READY)")
  case False
  with inv i show ?thesis by (auto simp: irq_deliver_if_waiting_def Let_def split: option.split)
next
  case True
  then obtain p where p: "get_thread_by_vid (irq_owner_vid (irq_bindings s i)) s = Some p"
    "th_state (thread s p) = THREAD_WAITING_MSG" "port_st (thread s p) = PORT_READY" by blast
  let ?s = "irq_prepare_user_message p i (upd_irq i (\<lambda>b. b\<lparr>queued := False, inflight := True\<rparr>) s)"
  have lt: "p < NOZA_OS_TASK_LIMIT"
    using kinv_exD(4) [OF inv] p(1) by (auto simp: vid_ok_def used_def)
  have "p \<in> set (lists s L_wait)" by (rule thread_ok_waiting_msg [OF kinv_thread [OF inv lt] p(2)]) simp
  then have w: "kinv ?s" "p \<in> set (lists ?s L_wait)" using inv by (simp_all add: prepare_deliver)
  have bm: "irq_pending_bitmap (wake L_wait p ?s) = irq_pending_bitmap s" "clock (wake L_wait p ?s) = clock s"
    by (simp_all add: wake_def move_def put_def prepare_deliver deliver_def)
  have "ok (noza_os_change_state p L_wait (L_ready (priority (thread ?s p))) ?s)
      (\<lambda>s'. kinv s' \<and> running s' = running s \<and> cpu s' = cpu s \<and> clock s' = clock s
         \<and> irq_pending_bitmap s' = irq_pending_bitmap s)"
    using wake_eq [OF w(1,2)] kinv_wake [OF w(1,2)] bm by (simp add: prepare_deliver)
  with True p i show ?thesis by (simp add: irq_deliver_if_waiting_def Let_def)
qed

text \<open>The number of pending bits measures the work of \<^verbatim>\<open>irq_process_pending\<close>.\<close>

definition pending_bits :: "kstate \<Rightarrow> nat set" where
  "pending_bits s = {i. bit (irq_pending_bitmap s) i}"

lemma irq_process_loop_ok:
  assumes "kinv s" and "irq_ok s" and "card (pending_bits s) < n"
  shows "ok (irq_process_loop n s) (\<lambda>s'. kinv s' \<and> running s' = running s \<and> cpu s' = cpu s
           \<and> clock s' = clock s \<and> irq_pending_bitmap s' = 0)"
  using assms
proof (induction n arbitrary: s)
  case (Suc n)
  show ?case
  proof (cases "ctz (irq_pending_bitmap s)")
    case None
    with Suc.prems show ?thesis by (simp add: irq_fetch_next_pending_def ctz_None)
  next
    case (Some i)
    let ?b = "irq_pending_bitmap s AND NOT (push_bit i 1)" let ?s = "s\<lparr>irq_pending_bitmap := ?b\<rparr>"
    from ctz_Some [OF Some] have b: "bit (irq_pending_bitmap s) i" by simp
    have i: "i < NOZA_PLATFORM_IRQ_COUNT" using b Suc.prems(2) by (simp add: irq_ok_def)
    have fin: "finite (pending_bits s)"
      by (rule finite_subset [of _ "{..<NOZA_PLATFORM_IRQ_COUNT}"])
         (use Suc.prems(2) in \<open>auto simp: pending_bits_def irq_ok_def\<close>)
    have "pending_bits ?s = pending_bits s - {i}"
      using b by (auto simp: pending_bits_def bit_simps dest: bit_imp_le_length)
    moreover have "i \<in> pending_bits s" using b by (simp add: pending_bits_def)
    ultimately have c: "card (pending_bits ?s) < n"
      using Suc.prems(3) fin by simp (metis Suc_pred card_gt_0_iff empty_iff less_Suc_eq_0_disj not_less_eq)
    have io: "irq_ok ?s" using Suc.prems(2) by (simp add: irq_ok_def bit_simps)
    have "ok (irq_process_loop n s') (\<lambda>s'. kinv s' \<and> running s' = running s \<and> cpu s' = cpu s
           \<and> clock s' = clock s \<and> irq_pending_bitmap s' = 0)"
      if "kinv s' \<and> running s' = running ?s \<and> cpu s' = cpu ?s \<and> clock s' = clock ?s
           \<and> irq_pending_bitmap s' = irq_pending_bitmap ?s" for s'
      using Suc.IH [of s'] that c io by (simp add: pending_bits_def irq_ok_def)
    from ok_mono [OF irq_deliver_ok [OF _ i] this] Suc.prems(1) Some show ?thesis
      by (simp add: irq_fetch_next_pending_def)
  qed
qed simp

lemma irq_process_ok:
  assumes "kinv s" and "irq_ok s"
  shows "ok (irq_process_pending s) (\<lambda>s'. kinv s' \<and> running s' = running s \<and> cpu s' = cpu s
           \<and> clock s' = clock s \<and> irq_pending_bitmap s' = 0)"
  unfolding irq_process_pending_def
proof (rule irq_process_loop_ok [OF assms])
  have "pending_bits s \<subseteq> {..<32}" by (auto simp: pending_bits_def dest: bit_imp_le_length)
  from card_mono [OF _ this] show "card (pending_bits s) < 33" by simp
qed

lemma irq_isr_ok:
  assumes "kinv s" and "irq_ok s"
  shows "kinv (noza_irq_handle_from_isr irq s)" and "irq_ok (noza_irq_handle_from_isr irq s)"
  using assms by (auto simp: noza_irq_handle_from_isr_def Let_def irq_ok_def bit_simps)

subsection \<open>The system calls\<close>

lemma syscall_recv_kinv:
  assumes inv: "kinv s" and r: "running s (cpu s) = Some r"
  shows "ok (syscall_recv r s) kinv"
proof -
  let ?s = "upd_thread r (\<lambda>t. t\<lparr>pending_recv_msg := msg_pointer (r1 (trap (thread s r)))\<rparr>) s"
  have 1: "kinv ?s" "running ?s (cpu ?s) = Some r" using inv r by (simp_all add: kinv_ex_irrelevant)
  show ?thesis
  proof (cases "find (\<lambda>i. queued (irq_bindings ?s i) \<and> \<not> inflight (irq_bindings ?s i)) [0..<NOZA_PLATFORM_IRQ_COUNT]")
    case None
    with recv_kinv [OF 1] show ?thesis
      by (simp add: syscall_recv_def irq_try_consume_event_def Let_def del: upt_rec_numeral)
  next
    case (Some i)
    with recv_kinv [OF 1] 1 show ?thesis
      by (simp add: syscall_recv_def irq_try_consume_event_def Let_def prepare_deliver del: upt_rec_numeral)
  qed
qed

text \<open>A reply that is not to an interrupt names a caller in the reply list.\<close>

definition reply_ok :: "pid \<Rightarrow> kstate \<Rightarrow> bool" where
  "reply_ok r s \<longleftrightarrow> port_st (thread s r) = PORT_WAIT_LISTEN
     \<and> (\<exists>p \<in> set (lists s (L_reply r)). vid (thread s p) = r1 (trap (thread s r)))"

definition irq_reply :: "pid \<Rightarrow> kstate \<Rightarrow> bool" where
  "irq_reply r s \<longleftrightarrow> irq_is_kernel_vid (r1 (trap (thread s r)))
     \<and> unat (irq_sender_to_id (r1 (trap (thread s r)))) < NOZA_PLATFORM_IRQ_COUNT"

lemma syscall_reply_kinv:
  assumes inv: "kinv s" and ok: "irq_reply r s \<or> reply_ok r s"
  shows "ok (syscall_reply r s) kinv"
proof (cases "irq_reply r s")
  case True
  let ?i = "unat (irq_sender_to_id (r1 (trap (thread s r))))"
  let ?s = "upd_irq ?i (\<lambda>b. b\<lparr>inflight := False, ev_status := 0\<rparr>) s"
  let ?s' = "noza_os_set_return_value1 r 0 (?s\<lparr>irq_masked := (irq_masked ?s)(?i := False)\<rparr>)"
  have i: "?i < NOZA_PLATFORM_IRQ_COUNT" and s': "kinv ?s'" using True inv by (simp_all add: irq_reply_def)
  have "ok (irq_deliver_if_waiting ?i ?s') kinv" by (rule ok_mono [OF irq_deliver_ok [OF s' i]]) simp
  with True s' show ?thesis
    by (simp add: syscall_reply_def irq_try_handle_reply_def irq_reply_def Let_def)
next
  case False
  with ok have r: "port_st (thread s r) = PORT_WAIT_LISTEN"
    "\<exists>p \<in> set (lists s (L_reply r)). vid (thread s p) = r1 (trap (thread s r))"
    by (simp_all add: reply_ok_def)
  from r(2) have "find (\<lambda>p. vid (thread s p) = r1 (trap (thread s r))) (lists s (L_reply r)) \<noteq> None"
    by (auto simp: find_None_iff)
  then obtain p where "find (\<lambda>p. vid (thread s p) = r1 (trap (thread s r))) (lists s (L_reply r)) = Some p"
    by blast
  from reply_found [OF inv r(1) this] False show ?thesis
    by (auto simp: syscall_reply_def irq_try_handle_reply_def irq_reply_def Let_def)
qed

text \<open>A call is safe when the target's port is ready only while the target waits.\<close>

definition call_target_ok :: "pid \<Rightarrow> kstate \<Rightarrow> bool" where
  "call_target_ok r s \<longleftrightarrow> (\<forall>p. get_thread_by_vid (r1 (trap (thread s r))) s = Some p
     \<longrightarrow> port_st (thread s p) = PORT_READY \<longrightarrow> th_state (thread s p) = THREAD_WAITING_MSG)"

lemma syscall_call_kinv:
  assumes inv: "kinv s" and r: "running s (cpu s) = Some r" and ok: "call_target_ok r s"
  shows "ok (syscall_call r s) kinv" and "ok (syscall_nbcall r s) kinv"
proof -
  have "p < NOZA_OS_TASK_LIMIT" if "get_thread_by_vid (r1 (trap (thread s r))) s = Some p" for p
    using kinv_exD(4) [OF inv] that by (auto simp: vid_ok_def used_def)
  with ok have send: "ok (noza_os_send r p m n s) kinv"
    if "get_thread_by_vid (r1 (trap (thread s r))) s = Some p" for p m n
    using that by (intro send_kinv [OF inv r]) (auto simp: call_target_ok_def)
  with inv show "ok (syscall_call r s) kinv" "ok (syscall_nbcall r s) kinv"
    by (auto simp: syscall_call_def syscall_nbcall_def noza_os_nonblock_send_def split: option.split)
qed

lemma syscall_nbrecv_kinv:
  assumes "kinv s" and "running s (cpu s) = Some r"
  shows "ok (syscall_nbrecv r s) kinv"
  using recv_kinv [OF assms] assms(1)
  by (simp add: syscall_nbrecv_def noza_os_nonblock_recv_def kinv_ex_irrelevant)

section \<open>From the interrupt to the reply\<close>

lemma ctz_single: "i < 32 \<Longrightarrow> ctz (push_bit i 1) = Some i"
proof -
  assume i: "i < 32"
  let ?w = "push_bit i (1 :: u32)"
  have b: "bit ?w j \<longleftrightarrow> j = i" for j using i by (auto simp: bit_simps dest: bit_imp_le_length)
  then have "?w \<noteq> 0" by (metis bit_0_eq bot_apply bot_bool_def)
  then obtain j where j: "ctz ?w = Some j" using ctz_None [of ?w] by blast
  with ctz_Some [OF j] b [of j] show ?thesis by simp
qed

lemma irq_sender_round:
  assumes "unat irq < NOZA_PLATFORM_IRQ_COUNT"
  shows "irq_is_kernel_vid (irq_sender_vid_inline irq)" and "irq_sender_to_id (irq_sender_vid_inline irq) = irq"
proof -
  have "irq < 2 ^ 16" using assms by (simp add: word_less_nat_alt)
  then have "take_bit 16 irq = irq" by (simp add: less_mask_eq take_bit_eq_mask)
  then have a: "irq AND 0xFFFF = irq" by (simp add: take_bit_eq_mask mask_eq_exp_minus_1)
  have "irq AND 0xFFFF0000 = (irq AND 0xFFFF) AND 0xFFFF0000" using a by simp
  also have "\<dots> = 0" by (simp add: and.assoc)
  finally have b: "irq AND 0xFFFF0000 = 0" .
  show "irq_is_kernel_vid (irq_sender_vid_inline irq)" "irq_sender_to_id (irq_sender_vid_inline irq) = irq"
    using a b by (simp_all add: irq_is_kernel_vid_def irq_sender_vid_inline_def irq_sender_to_id_def bit.conj_disj_distrib2)
qed

lemma deliver_waiting:
  assumes inv: "kinv s" and i: "i < NOZA_PLATFORM_IRQ_COUNT" "queued (irq_bindings s i)" "\<not> inflight (irq_bindings s i)"
    and p: "get_thread_by_vid (irq_owner_vid (irq_bindings s i)) s = Some p" "th_state (thread s p) = THREAD_WAITING_MSG"
      "port_st (thread s p) = PORT_READY"
  defines "s' \<equiv> wake L_wait p (irq_prepare_user_message p i (upd_irq i (\<lambda>b. b\<lparr>queued := False, inflight := True\<rparr>) s))"
  shows "irq_deliver_if_waiting i s = Inr s'" and "kinv s'"
proof -
  let ?s = "irq_prepare_user_message p i (upd_irq i (\<lambda>b. b\<lparr>queued := False, inflight := True\<rparr>) s)"
  have lt: "p < NOZA_OS_TASK_LIMIT" using kinv_exD(4) [OF inv] p(1) by (auto simp: vid_ok_def used_def)
  have "p \<in> set (lists s L_wait)" by (rule thread_ok_waiting_msg [OF kinv_thread [OF inv lt] p(2)]) simp
  then have w: "kinv ?s" "p \<in> set (lists ?s L_wait)" using inv by (simp_all add: prepare_deliver)
  show "irq_deliver_if_waiting i s = Inr s'"
    using i p wake_eq [OF w(1,2)] by (simp add: irq_deliver_if_waiting_def Let_def s'_def)
  show "kinv s'" using kinv_wake [OF w(1,2)] by (simp add: s'_def)
qed



end
