(* ===== verification/Syscalls.thy ===== *)
theory Syscalls
  imports Futex Timer Thread_Calls Irq
begin

text \<open>
  The system call interface (\<^verbatim>\<open>kernel/noza_os.c\<close>): the table \<^verbatim>\<open>syscall_func\<close>, the dispatcher
  \<^verbatim>\<open>serv_syscall\<close> and the trap entry. Under the conditions \<open>call_ok\<close> on its arguments every system call
  returns and keeps the invariant, and none touches the state of the machine the kernel runs on.
\<close>

section \<open>Dispatch\<close>

abbreviation "NSC_NUM_SYSCALLS \<equiv> (22 :: nat)"

definition syscall_func :: "nat \<Rightarrow> pid \<Rightarrow> kstate \<Rightarrow> kstate res" where
  "syscall_func n =
     [syscall_thread_sleep, syscall_thread_kill, syscall_thread_create, syscall_thread_change_priority,
      syscall_thread_join, syscall_thread_detach, syscall_thread_terminate,
      syscall_recv, syscall_reply, syscall_call, syscall_nbrecv, syscall_nbcall,
      syscall_futex_wait, syscall_futex_wake,
      syscall_timer_create, syscall_timer_delete, syscall_timer_arm, syscall_timer_cancel,
      syscall_timer_wait, syscall_clock_gettime, syscall_signal_send, syscall_signal_take] ! n"

definition serv_syscall :: "nat \<Rightarrow> kstate \<Rightarrow> kstate res" where
  "serv_syscall core s =
     (case running s core of
        None \<Rightarrow> Inl Null_deref
      | Some source \<Rightarrow>
          if unat (callid (thread s source)) < NSC_NUM_SYSCALLS then
            syscall_func (unat (callid (thread s source))) source
              (upd_thread source (\<lambda>t. t\<lparr>trap := (trap t)\<lparr>trap_state := SYSCALL_SERVING\<rparr>\<rparr>) s)
          else
            bindE (if callid (thread s source) = 255 then syscall_thread_terminate source s
                   else Inr (noza_os_set_return_value1 source ENOSYS s)) (\<lambda>s1.
            Inr (upd_thread source (\<lambda>t. t\<lparr>trap := (trap t)\<lparr>trap_state := SYSCALL_DONE\<rparr>\<rparr>) s1)))"

definition noza_os_trap_info :: "u32 \<Rightarrow> u32 \<Rightarrow> u32 \<Rightarrow> u32 \<Rightarrow> kstate \<Rightarrow> kstate" where
  "noza_os_trap_info a b c d s =
     (case noza_os_get_running_thread s of
        None \<Rightarrow> s
      | Some th \<Rightarrow>
          upd_thread th (\<lambda>t. t\<lparr>trap := \<lparr>r0 = a, r1 = b, r2 = c, r3 = d, trap_state = SYSCALL_PENDING\<rparr>\<rparr>) s)"

section \<open>Safety\<close>

text \<open>The calls whose arguments the kernel does not check enough: a negative signal number, a priority
  outside the ready lists, a reply that names nobody, and a call to a port left ready by a signal.\<close>

definition call_ok :: "nat \<Rightarrow> pid \<Rightarrow> kstate \<Rightarrow> bool" where
  "call_ok n r s \<longleftrightarrow>
     (n = 1 \<longrightarrow> 0 \<le> sint (r2 (trap (thread s r))))
     \<and> (n = 3 \<longrightarrow> unat (r2 (trap (thread s r))) mod 256 < NOZA_OS_PRIORITY_LIMIT)
     \<and> (n = 8 \<longrightarrow> irq_reply r s \<or> reply_ok r s)
     \<and> (n = 9 \<or> n = 11 \<longrightarrow> call_target_ok r s)"

lemma less_22:
  "n < NSC_NUM_SYSCALLS \<longleftrightarrow> n \<in> {0, 1, 2, 3, 4, 5, 6, 7, 8, 9, 10, 11, 12, 13, 14, 15, 16, 17, 18, 19, 20, 21}"
  unfolding insert_iff empty_iff by presburger

theorem syscall_func_kinv:
  assumes inv: "kinv s" and r: "running s (cpu s) = Some r" and n: "n < NSC_NUM_SYSCALLS" and c: "call_ok n r s"
  shows "ok (syscall_func n r s) kinv"
proof -
  note calls = thread_sleep_kinv [OF inv r] thread_kill_kinv [OF inv r] thread_create_kinv [OF inv]
    change_priority_kinv [OF inv r] thread_join_kinv [OF inv r] thread_detach_kinv [OF inv]
    ok_mono [OF thread_terminate_kinv [OF inv r], of kinv] syscall_recv_kinv [OF inv r] syscall_reply_kinv [OF inv]
    syscall_call_kinv [OF inv r] syscall_nbrecv_kinv [OF inv r] futex_wait_kinv [OF inv r] futex_wake_kinv [OF inv]
    timer_create_kinv [OF inv] timer_delete_kinv [OF inv] timer_arm_kinv [OF inv] timer_cancel_kinv [OF inv]
    timer_wait_kinv [OF inv r] clock_gettime_kinv [OF inv] signal_calls_kinv [OF inv]
  from n [unfolded less_22] c show ?thesis
    unfolding syscall_func_def insert_iff empty_iff call_ok_def
    by (elim disjE) (simp_all add: calls)
qed

theorem serv_syscall_kinv:
  assumes inv: "kinv s" and r: "running s (cpu s) = Some r"
    and c: "unat (callid (thread s r)) < NSC_NUM_SYSCALLS \<Longrightarrow> call_ok (unat (callid (thread s r))) r
      (upd_thread r (\<lambda>t. t\<lparr>trap := (trap t)\<lparr>trap_state := SYSCALL_SERVING\<rparr>\<rparr>) s)"
  shows "ok (serv_syscall (cpu s) s) kinv"
proof (cases "unat (callid (thread s r)) < NSC_NUM_SYSCALLS")
  case True
  let ?s = "upd_thread r (\<lambda>t. t\<lparr>trap := (trap t)\<lparr>trap_state := SYSCALL_SERVING\<rparr>\<rparr>) s"
  have "kinv ?s" "running ?s (cpu ?s) = Some r" using inv r by (simp_all add: kinv_ex_irrelevant)
  from syscall_func_kinv [OF this True c [OF True]] True r show ?thesis by (simp add: serv_syscall_def)
next
  case False
  from ok_mono [OF thread_terminate_kinv [OF inv r], of kinv]
  have "ok (syscall_thread_terminate r s) kinv" by blast
  with False r inv show ?thesis by (simp add: serv_syscall_def kinv_ex_irrelevant)
qed

section \<open>The machine is left alone\<close>

text \<open>No system call changes the core the kernel runs on, the clock or the pending interrupts.\<close>

definition machine :: "kstate \<Rightarrow> nat \<times> int \<times> u32" where
  "machine s = (cpu s, clock s, irq_pending_bitmap s)"

named_theorems frames

lemma machine_upd [simp]:
  "machine (upd_thread p f s) = machine s"
  "machine (upd_list l g s) = machine s"
  "machine (upd_wq w h s) = machine s"
  "machine (upd_timer i k s) = machine s"
  "machine (upd_irq i b s) = machine s"
  "machine (noza_os_clear_running_thread s) = machine s"
  "machine (noza_os_set_return_value1 p a s) = machine s"
  "machine (noza_os_set_return_value2 p a c s) = machine s"
  "machine (noza_os_set_return_value3 p a c d s) = machine s"
  "machine (noza_os_set_return_value4 p a c d e s) = machine s"
  "machine (noza_ipc_write_user_message p v a n i' s) = machine s"
  "machine (noza_ipc_snapshot_identity p s) = machine s"
  "machine (noza_thread_set_identity p q s) = machine s"
  "machine (irq_prepare_user_message p i s) = machine s"
  "machine (noza_wait_queue_init w s) = machine s"
  by (simp_all add: machine_def noza_ipc_snapshot_identity_def noza_thread_set_identity_def
    irq_prepare_user_message_def noza_wait_queue_init_def Let_def)

lemma machine_rec [simp]:
  "machine (s\<lparr>slot := sl\<rparr>) = machine s"
  "machine (s\<lparr>free_vid_map := n\<rparr>) = machine s"
  "machine (s\<lparr>next_vid := n\<rparr>) = machine s"
  "machine (s\<lparr>timer_q := q\<rparr>) = machine s"
  "machine (s\<lparr>timer_seq := u\<rparr>) = machine s"
  "machine (s\<lparr>futex_slots := fs\<rparr>) = machine s"
  "machine (s\<lparr>reserved_vid0_assigned := b\<rparr>) = machine s"
  "machine (s\<lparr>irq_masked := m\<rparr>) = machine s"
  "machine (s\<lparr>running := ru\<rparr>) = machine s"
  "machine (s\<lparr>next_tick_time := nt\<rparr>) = machine s"
  "machine (s\<lparr>systick := st\<rparr>) = machine s"
  "machine (s\<lparr>NOZAOS_PID := np\<rparr>) = machine s"
  by (simp_all add: machine_def)

lemma machine_remove_vid [simp]: "machine (noza_os_remove_vid p s) = machine s"
  by (simp add: noza_os_remove_vid_def Let_def)

lemma machine_make_app [simp]: "machine (noza_make_app_context p e a s) = machine s"
  by (simp add: noza_make_app_context_def Let_def)

lemma list_frames [frames]:
  "noza_os_add_thread l p s = Inr s' \<Longrightarrow> machine s' = machine s"
  "noza_os_remove_thread l p s = Inr s' \<Longrightarrow> machine s' = machine s"
  "noza_os_insert_vid_with_value p v s = Inr s' \<Longrightarrow> machine s' = machine s"
  "noza_wait_queue_enqueue w p s = Inr s' \<Longrightarrow> machine s' = machine s"
  "noza_wait_queue_remove w p s = Inr s' \<Longrightarrow> machine s' = machine s"
  by (auto simp: noza_os_add_thread_def noza_os_remove_thread_def noza_os_insert_vid_with_value_def Let_def
    noza_wait_queue_enqueue_def noza_wait_queue_remove_def split: if_splits)

lemma change_state_frame [frames]: "noza_os_change_state p l m s = Inr s' \<Longrightarrow> machine s' = machine s"
  by (auto simp: noza_os_change_state_def elim!: bindE_InrE dest!: frames)

lemma insert_vid_frame [frames]: "noza_os_insert_vid p s = Inr s' \<Longrightarrow> machine s' = machine s"
  by (auto simp: noza_os_insert_vid_def elim!: bindE_InrE dest!: frames)

lemma cancel_frame [frames]: "noza_wait_queue_cancel_timeout p s = Inr s' \<Longrightarrow> machine s' = machine s"
  by (auto simp: noza_wait_queue_cancel_timeout_def split: if_splits elim!: bindE_InrE dest!: frames)

lemma wake_loop_frame: "wait_queue_wake_loop n w c res k s = Inr (m, s') \<Longrightarrow> machine s' = machine s"
proof (induction n arbitrary: k s)
  case 0
  then show ?case by (auto simp: wait_queue_wake_loop.simps split: list.splits if_splits)
next
  case (Suc n)
  from Suc.prems show ?case
    by (auto simp: wait_queue_wake_loop.simps [of "Suc n"] split: list.splits if_splits elim!: bindE_InrE dest!: Suc.IH frames)
qed

lemma wait_queue_wake_frame [frames]: "noza_wait_queue_wake w c res s = Inr (m, s') \<Longrightarrow> machine s' = machine s"
  by (auto simp: noza_wait_queue_wake_def split: if_splits dest!: wake_loop_frame)

lemma wait_queue_sleep_frame [frames]: "noza_wait_queue_sleep w t s = Inr (m, s') \<Longrightarrow> machine s' = machine s"
  by (auto simp: noza_wait_queue_sleep_def Let_def split: option.splits if_splits elim!: bindE_InrE dest!: frames)

lemma ipc_frames [frames]:
  "noza_os_send r t m n s = Inr s' \<Longrightarrow> machine s' = machine s"
  "noza_os_recv r m s = Inr s' \<Longrightarrow> machine s' = machine s"
  "noza_os_reply r v m n s = Inr s' \<Longrightarrow> machine s' = machine s"
  by (auto simp: noza_os_send_def noza_os_recv_def noza_os_reply_def Let_def
    split: if_splits port_state.splits list.splits option.splits elim!: bindE_InrE dest!: frames)

lemma nonblock_frames [frames]:
  "noza_os_nonblock_send r t m n s = Inr s' \<Longrightarrow> machine s' = machine s"
  "noza_os_nonblock_recv r m s = Inr s' \<Longrightarrow> machine s' = machine s"
  by (auto simp: noza_os_nonblock_send_def noza_os_nonblock_recv_def split: if_splits elim!: bindE_InrE dest!: frames)

lemma release_list_frame [frames]: "release_list n l e s = Inr s' \<Longrightarrow> machine s' = machine s"
proof (induction n arbitrary: s)
  case 0
  then show ?case by (auto simp: release_list.simps split: list.splits)
next
  case (Suc n)
  from Suc.prems show ?case
    by (auto simp: release_list.simps [of "Suc n"] split: list.splits elim!: bindE_InrE dest!: Suc.IH frames)
qed

lemma release_waiters_frame [frames]: "noza_release_waiters_from_port p e s = Inr s' \<Longrightarrow> machine s' = machine s"
  by (auto simp: noza_release_waiters_from_port_def elim!: bindE_InrE dest!: frames)

lemma thread_frames [frames]:
  "noza_release_join_waiter p s = Inr s' \<Longrightarrow> machine s' = machine s"
  "noza_detach_blocked_thread p s = Inr (rc, s') \<Longrightarrow> machine s' = machine s"
  "noza_signal_interrupt_thread p s = Inr s' \<Longrightarrow> machine s' = machine s"
  by (auto simp: noza_release_join_waiter_def noza_detach_blocked_thread_def noza_signal_interrupt_thread_def
    split: if_splits option.splits thread_state.splits elim!: bindE_InrE dest!: frames)

lemma signal_send_frame [frames]: "noza_signal_send_thread p sig s = Inr s' \<Longrightarrow> machine s' = machine s"
  by (auto simp: noza_signal_send_thread_def Let_def split: if_splits elim!: bindE_InrE dest!: frames)

lemma finalize_frame [frames]: "noza_finalize_thread_exit p s = Inr s' \<Longrightarrow> machine s' = machine s"
  by (auto simp: noza_finalize_thread_exit_def Let_def split: if_splits elim!: bindE_InrE dest!: frames)

lemma terminate_frame [frames]: "noza_terminate_thread p c s = Inr (rc, s') \<Longrightarrow> machine s' = machine s"
  by (auto simp: noza_terminate_thread_def split: if_splits elim!: bindE_InrE dest!: frames)

lemma alloc_frame [frames]: "noza_thread_alloc s = Inr (p, s') \<Longrightarrow> machine s' = machine s"
  by (auto simp: noza_thread_alloc_def Let_def split: list.splits elim!: bindE_InrE dest!: frames)

lemma create_frame [frames]: "noza_os_thread_create e a n v s = Inr (rc, pv, s') \<Longrightarrow> machine s' = machine s"
  by (auto simp: noza_os_thread_create_def Let_def split: if_splits option.splits elim!: bindE_InrE dest!: frames)

lemma handler_frames [frames]:
  "terminate_signal_handler r p sig s = Inr s' \<Longrightarrow> machine s' = machine s"
  "stop_signal_handler r p sig s = Inr s' \<Longrightarrow> machine s' = machine s"
  "continue_signal_handler r p sig s = Inr s' \<Longrightarrow> machine s' = machine s"
  "alarm_signal_handler r p sig s = Inr s' \<Longrightarrow> machine s' = machine s"
  by (auto simp: terminate_signal_handler_def stop_signal_handler_def continue_signal_handler_def
    alarm_signal_handler_def Let_def split: if_splits option.splits thread_state.splits elim!: bindE_InrE dest!: frames)

lemma signal_handler_frame [frames]: "signal_handler n r p sig s = Inr s' \<Longrightarrow> machine s' = machine s"
  by (auto simp: signal_handler_def do_nothing_signal_handler_def split: if_splits elim!: bindE_InrE dest!: frames)

lemma thread_call_frames [frames]:
  "syscall_thread_sleep r s = Inr s' \<Longrightarrow> machine s' = machine s"
  "syscall_thread_kill r s = Inr s' \<Longrightarrow> machine s' = machine s"
  "syscall_thread_create r s = Inr s' \<Longrightarrow> machine s' = machine s"
  "syscall_thread_join r s = Inr s' \<Longrightarrow> machine s' = machine s"
  "syscall_thread_detach r s = Inr s' \<Longrightarrow> machine s' = machine s"
  "syscall_thread_change_priority r s = Inr s' \<Longrightarrow> machine s' = machine s"
  "syscall_thread_terminate r s = Inr s' \<Longrightarrow> machine s' = machine s"
  "syscall_signal_send r s = Inr s' \<Longrightarrow> machine s' = machine s"
  "syscall_signal_take r s = Inr s' \<Longrightarrow> machine s' = machine s"
  by (auto simp: syscall_thread_sleep_def syscall_thread_kill_def syscall_thread_create_def
    syscall_thread_join_def syscall_thread_detach_def syscall_thread_change_priority_def
    syscall_thread_terminate_def syscall_signal_send_def syscall_signal_take_def Let_def
    split: if_splits option.splits thread_state.splits elim!: bindE_InrE dest!: frames)

lemma irq_deliver_frame [frames]: "irq_deliver_if_waiting i s = Inr s' \<Longrightarrow> machine s' = machine s"
  by (auto simp: irq_deliver_if_waiting_def Let_def split: if_splits option.splits elim!: bindE_InrE dest!: frames)

lemma irq_consume_frame [frames]: "irq_try_consume_event r s = (b, s') \<Longrightarrow> machine s' = machine s"
  by (auto simp: irq_try_consume_event_def split: if_splits option.splits)

lemma irq_reply_frame [frames]: "irq_try_handle_reply r s = Inr (b, s') \<Longrightarrow> machine s' = machine s"
  by (auto simp: irq_try_handle_reply_def Let_def split: if_splits elim!: bindE_InrE dest!: frames)

lemma port_call_frames [frames]:
  "syscall_recv r s = Inr s' \<Longrightarrow> machine s' = machine s"
  "syscall_reply r s = Inr s' \<Longrightarrow> machine s' = machine s"
  "syscall_call r s = Inr s' \<Longrightarrow> machine s' = machine s"
  "syscall_nbcall r s = Inr s' \<Longrightarrow> machine s' = machine s"
  "syscall_nbrecv r s = Inr s' \<Longrightarrow> machine s' = machine s"
  by (auto simp: syscall_recv_def syscall_reply_def syscall_call_def syscall_nbcall_def syscall_nbrecv_def
    Let_def split: if_splits option.splits prod.splits bool.splits elim!: bindE_InrE dest!: frames)

lemma futex_get_queue_frame [frames]: "noza_futex_get_queue a c s = (q, s') \<Longrightarrow> machine s' = machine s"
proof -
  have "futex_probe is a c s = (q, s') \<Longrightarrow> machine s' = machine s" for "is"
    by (induction "is") (auto simp: Let_def split: if_splits)
  then show "noza_futex_get_queue a c s = (q, s') \<Longrightarrow> machine s' = machine s"
    unfolding noza_futex_get_queue_def by (auto simp del: upt_rec_numeral split: if_splits)
qed

lemma futex_call_frames [frames]:
  "syscall_futex_wait r s = Inr s' \<Longrightarrow> machine s' = machine s"
  "syscall_futex_wake r s = Inr s' \<Longrightarrow> machine s' = machine s"
  by (auto simp: syscall_futex_wait_def syscall_futex_wake_def Let_def
    split: if_splits option.splits prod.splits elim!: bindE_InrE dest!: frames)

lemma timer_frames [frames]:
  "noza_timer_remove i s = Inr s' \<Longrightarrow> machine s' = machine s"
  "noza_timer_insert i s = Inr s' \<Longrightarrow> machine s' = machine s"
  "noza_timer_alloc v s = (t, s') \<Longrightarrow> machine s' = machine s"
  by (auto simp: noza_timer_remove_def noza_timer_insert_def noza_timer_alloc_def Let_def
    split: if_splits option.splits)

lemma timer_frames2 [frames]:
  "noza_timer_release i s = Inr s' \<Longrightarrow> machine s' = machine s"
  "noza_timer_fire i s = Inr s' \<Longrightarrow> machine s' = machine s"
  by (auto simp: noza_timer_release_def noza_timer_fire_def Let_def
    split: if_splits option.splits elim!: bindE_InrE dest!: frames)

lemma timer_call_frames [frames]:
  "syscall_timer_create r s = Inr s' \<Longrightarrow> machine s' = machine s"
  "syscall_timer_delete r s = Inr s' \<Longrightarrow> machine s' = machine s"
  "syscall_timer_arm r s = Inr s' \<Longrightarrow> machine s' = machine s"
  "syscall_timer_cancel r s = Inr s' \<Longrightarrow> machine s' = machine s"
  "syscall_timer_wait r s = Inr s' \<Longrightarrow> machine s' = machine s"
  "syscall_clock_gettime r s = Inr s' \<Longrightarrow> machine s' = machine s"
  by (auto simp: syscall_timer_create_def syscall_timer_delete_def syscall_timer_arm_def
    syscall_timer_cancel_def syscall_timer_wait_def syscall_clock_gettime_def Let_def
    split: if_splits option.splits prod.splits elim!: bindE_InrE dest!: frames)

lemma tick_loop_frame: "timer_tick_loop n now s = Inr s' \<Longrightarrow> machine s' = machine s"
proof (induction n arbitrary: s)
  case 0
  then show ?case by (auto simp: timer_tick_loop.simps split: list.splits if_splits)
next
  case (Suc n)
  from Suc.prems show ?case
    by (auto simp: timer_tick_loop.simps [of "Suc n"] split: list.splits if_splits elim!: bindE_InrE dest!: Suc.IH frames)
qed

lemma tick_frame [frames]: "noza_timer_tick now s = Inr s' \<Longrightarrow> machine s' = machine s"
  by (auto simp: noza_timer_tick_def dest!: tick_loop_frame)

lemma syscall_func_frame [frames]:
  "n < NSC_NUM_SYSCALLS \<Longrightarrow> syscall_func n r s = Inr s' \<Longrightarrow> machine s' = machine s"
  unfolding less_22 insert_iff empty_iff syscall_func_def
  by (elim disjE) (simp_all add: frames)

lemma serv_syscall_frame [frames]: "serv_syscall core s = Inr s' \<Longrightarrow> machine s' = machine s"
  by (auto simp: serv_syscall_def split: option.splits if_splits elim!: bindE_InrE dest!: frames)

end
