(* ===== verification/Scheduler.thy ===== *)
theory Scheduler
  imports Syscalls
begin

text \<open>
  The scheduler (\<^verbatim>\<open>kernel/noza_os.c\<close>, lines 2272-2497): waking of sleepers and of timed-out waiters,
  arming of the next tick, selection of the highest-priority ready thread, and the loop of
  \<^verbatim>\<open>noza_os_scheduler\<close>, cut at the two points where it leaves the kernel: \<^verbatim>\<open>GO_RUN\<close> and \<^verbatim>\<open>GO_IDLE\<close>.
\<close>

section \<open>Operations\<close>

fun wakeup_loop :: "nat \<Rightarrow> int \<Rightarrow> nat \<Rightarrow> kstate \<Rightarrow> (nat \<times> kstate) res" where
  "wakeup_loop n now wakeup_count s =
     (case lists s L_sleep of
        [] \<Rightarrow> Inr (wakeup_count, s)
      | th # _ \<Rightarrow>
          if expired_time (thread s th) \<le> now then
            (case n of
               0 \<Rightarrow> Inl Diverge
             | Suc k \<Rightarrow>
                 bindE (noza_os_change_state th L_sleep (L_ready (priority (thread s th))) s) (\<lambda>s1.
                 wakeup_loop k now (wakeup_count + 1) (noza_os_set_return_value3 th 0 0 0 s1)))
          else Inr (wakeup_count, s))"

declare wakeup_loop.simps [simp del]

definition noza_wakeup :: "int \<Rightarrow> kstate \<Rightarrow> (nat \<times> kstate) res" where
  "noza_wakeup now s =
     (if lists s L_sleep = [] then Inr (0, s) else wakeup_loop (length (lists s L_sleep)) now 0 s)"

fun wakeup_sync_loop :: "nat \<Rightarrow> int \<Rightarrow> nat \<Rightarrow> kstate \<Rightarrow> (nat \<times> kstate) res" where
  "wakeup_sync_loop n now wakeup_count s =
     (case lists s L_sync_sleep of
        [] \<Rightarrow> Inr (wakeup_count, s)
      | th # _ \<Rightarrow>
          if expired_time (thread s th) \<le> now then
            (case n of
               0 \<Rightarrow> Inl Diverge
             | Suc k \<Rightarrow>
                 bindE (noza_os_change_state th L_sync_sleep (L_ready (priority (thread s th))) s) (\<lambda>s1.
                 bindE (case waiting_queue (thread s1 th) of
                          Some w \<Rightarrow> bindE (noza_wait_queue_remove w th s1)
                                     (\<lambda>s2. Inr (upd_thread th (\<lambda>t. t\<lparr>waiting_queue := None\<rparr>) s2))
                        | None \<Rightarrow> Inr s1) (\<lambda>s2.
                 let s3 = upd_thread th (\<lambda>t. t\<lparr>flags := flags t AND NOT FLAG_WAIT_TIMEOUT\<rparr>) s2
                 in wakeup_sync_loop k now (wakeup_count + 1) (noza_os_set_return_value1 th ETIMEDOUT s3))))
          else Inr (wakeup_count, s))"

declare wakeup_sync_loop.simps [simp del]

definition noza_wakeup_sync :: "int \<Rightarrow> kstate \<Rightarrow> (nat \<times> kstate) res" where
  "noza_wakeup_sync now s =
     (if lists s L_sync_sleep = [] then Inr (0, s)
      else wakeup_sync_loop (length (lists s L_sync_sleep)) now 0 s)"

definition has_same_priority_peer :: "pid option \<Rightarrow> kstate \<Rightarrow> bool res" where
  "has_same_priority_peer r s =
     (case r of
        None \<Rightarrow> Inr False
      | Some p \<Rightarrow> bindE (thread_count (L_ready (priority (thread s p))) s) (\<lambda>n. Inr (n > 0)))"

definition next_event_deadline :: "kstate \<Rightarrow> int" where
  "next_event_deadline s =
     (let d1 = (case lists s L_sleep of [] \<Rightarrow> 0 | th # _ \<Rightarrow> expired_time (thread s th));
          d2 = (case lists s L_sync_sleep of
                  [] \<Rightarrow> d1
                | th # _ \<Rightarrow> if d1 = 0 \<or> expired_time (thread s th) < d1 then expired_time (thread s th) else d1)
      in case timer_q s of
           [] \<Rightarrow> d2
         | i # _ \<Rightarrow> if d2 = 0 \<or> deadline (timers s i) < d2 then deadline (timers s i) else d2)"

definition arm_next_scheduler_deadline :: "nat \<Rightarrow> int \<Rightarrow> pid option \<Rightarrow> kstate \<Rightarrow> kstate res" where
  "arm_next_scheduler_deadline core now r s =
     bindE (has_same_priority_peer r s) (\<lambda>peer.
     let d = next_event_deadline s;
         quantum_deadline = int64 (now + NOZA_OS_TIME_SLICE);
         deadline' = (if peer \<and> (d = 0 \<or> quantum_deadline < d) then quantum_deadline else d);
         s1 = s\<lparr>next_tick_time := (next_tick_time s)(core := deadline')\<rparr>;
         delta = int64 (deadline' - now)
     in Inr (if deadline' = 0 then s1\<lparr>systick := 0\<rparr>
             else s1\<lparr>systick := word_of_int (if delta \<le> 0 then 1 else delta)\<rparr>))"

text \<open>\<^verbatim>\<open>GO_RUN\<close> up to the switch to the thread's stack.\<close>

definition GO_RUN :: "nat \<Rightarrow> pid \<Rightarrow> kstate \<Rightarrow> kstate res" where
  "GO_RUN core r s =
     irq_process_pending (s\<lparr>NOZAOS_PID := (NOZAOS_PID s)(core := vid (thread s r))\<rparr>)"

definition pick_ready_thread :: "kstate \<Rightarrow> (pid option \<times> kstate) res" where
  "pick_ready_thread s =
     (case find (\<lambda>i. lists s (L_ready i) \<noteq> []) [0..<NOZA_OS_PRIORITY_LIMIT] of
        None \<Rightarrow> Inr (None, s)
      | Some i \<Rightarrow>
          let r = hd (lists s (L_ready i))
          in bindE (noza_os_remove_thread (L_ready i) r s) (\<lambda>s1. Inr (Some r, s1)))"

definition check_syscall_output :: "pid \<Rightarrow> kstate \<Rightarrow> kstate" where
  "check_syscall_output r s =
     (if trap_state (trap (thread s r)) = SYSCALL_OUTPUT
      then upd_thread r (\<lambda>t. t\<lparr>frame := arch_trap (trap t) (frame t),
             trap := (trap t)\<lparr>trap_state := SYSCALL_DONE\<rparr>, callid := 255\<rparr>) s
      else s)"

definition check_syscall_serve :: "nat \<Rightarrow> pid \<Rightarrow> kstate \<Rightarrow> kstate res" where
  "check_syscall_serve core r s =
     (if trap_state (trap (thread s r)) = SYSCALL_PENDING
      then serv_syscall core (upd_thread r (\<lambda>t. t\<lparr>callid := ucast (r0 (trap t))\<rparr>) s)
      else Inr s)"

definition is_with_higher_priority_thread :: "pid \<Rightarrow> kstate \<Rightarrow> bool res" where
  "is_with_higher_priority_thread r s =
     (case find (\<lambda>i. \<not> lid_ok (L_ready i) \<or> lists s (L_ready i) \<noteq> []) [0..<priority (thread s r)] of
        None \<Rightarrow> Inr False
      | Some i \<Rightarrow> if lid_ok (L_ready i) then Inr True else Inl Out_of_bounds)"

text \<open>The events every pass starts with.\<close>

definition sched_events :: "int \<Rightarrow> kstate \<Rightarrow> kstate res" where
  "sched_events now s =
     bindE (noza_timer_tick now s) (\<lambda>s1.
     bindE (noza_wakeup now s1) (\<lambda>(_, s2).
     bindE (noza_wakeup_sync now s2) (\<lambda>(_, s3). Inr s3)))"

text \<open>The head of the inner loop, up to the switch to user mode.\<close>

definition sched_run :: "nat \<Rightarrow> int \<Rightarrow> pid \<Rightarrow> kstate \<Rightarrow> kstate res" where
  "sched_run core now r s =
     bindE (arm_next_scheduler_deadline core now (Some r) (check_syscall_output r s)) (GO_RUN core r)"

text \<open>The head of the outer loop: a ready thread is dispatched, or the core goes idle.\<close>

definition sched_pick :: "nat \<Rightarrow> kstate \<Rightarrow> kstate res" where
  "sched_pick core s =
     (let now = clock s
      in bindE (sched_events now s) (\<lambda>s1.
         bindE (irq_process_pending s1) (\<lambda>s2.
         bindE (pick_ready_thread s2) (\<lambda>(r, s3).
         case r of
           Some p \<Rightarrow>
             sched_run core now p
               ((upd_thread p (\<lambda>t. t\<lparr>th_state := THREAD_RUNNING\<rparr>) s3)\<lparr>running := (running s3)(core := Some p)\<rparr>)
         | None \<Rightarrow> arm_next_scheduler_deadline core now None s3))))"

text \<open>The rest of the inner loop, after \<^verbatim>\<open>GO_RUN\<close> returned: the thread's system call is served; then the
  thread runs on, or the inner loop is left and the thread, unless it blocked, goes back to its ready list.\<close>

definition sched_leave :: "nat \<Rightarrow> kstate \<Rightarrow> kstate res" where
  "sched_leave core s =
     (case running s core of
        None \<Rightarrow> Inr s
      | Some q \<Rightarrow> bindE (noza_os_add_thread (L_ready (priority (thread s q))) q s) (\<lambda>s1.
                   Inr (s1\<lparr>running := (running s1)(core := None)\<rparr>)))"

definition sched_back :: "nat \<Rightarrow> pid \<Rightarrow> kstate \<Rightarrow> kstate res" where
  "sched_back core r s =
     (let now = clock s
      in bindE (sched_events now s) (\<lambda>s1.
         bindE (check_syscall_serve core r s1) (\<lambda>s2.
         if running s2 core = None then sched_leave core s2
         else
           bindE (is_with_higher_priority_thread r s2) (\<lambda>higher.
           if higher then sched_leave core s2
           else
             bindE (has_same_priority_peer (Some r) s2) (\<lambda>peer.
             if peer \<and> next_tick_time s2 core \<noteq> 0 \<and> now \<ge> next_tick_time s2 core
             then sched_leave core s2
             else sched_run core now r s2)))))"

section \<open>Waking\<close>

definition sleeper_wake :: "pid \<Rightarrow> kstate \<Rightarrow> kstate" where
  "sleeper_wake p s = noza_os_set_return_value3 p 0 0 0 (wake L_sleep p s)"

lemma sleeper_wake_sel [simp]:
  "lists (sleeper_wake p s) (L_ready i) = lists s (L_ready i) @ (if i = priority (thread s p) then [p] else [])"
  "lists (sleeper_wake p s) L_sleep = remove1 p (lists s L_sleep)"
  "lists (sleeper_wake p s) L_sync_sleep = lists s L_sync_sleep"
  "th_state (thread (sleeper_wake p s) p) = THREAD_READY"
  "r0 (trap (thread (sleeper_wake p s) p)) = 0"
  "priority (thread (sleeper_wake p s) q) = priority (thread s q)"
  "expired_time (thread (sleeper_wake p s) q) = expired_time (thread s q)"
  "q \<noteq> p \<Longrightarrow> thread (sleeper_wake p s) q = thread s q"
  "running (sleeper_wake p s) = running s" "cpu (sleeper_wake p s) = cpu s"
  "clock (sleeper_wake p s) = clock s" "timers (sleeper_wake p s) = timers s"
  "timer_q (sleeper_wake p s) = timer_q s" "wqs (sleeper_wake p s) = wqs s"
  by (auto simp: sleeper_wake_def noza_os_set_return_value3_def wake_def move_def put_def)

lemma woken_sleeper:
  assumes "woken ps 0 (sleeper_wake p s) s'" and "p \<notin> set ps"
  shows "woken (p # ps) 0 s s'"
  using assms by (auto simp: woken_def)

lemma wakeup_loop_ok:
  assumes "kinv s" and "lists s L_sleep = ps" and "length ps \<le> n"
  shows "ok (wakeup_loop n now c s) (\<lambda>(m, s').
           let due = takeWhile (\<lambda>p. expired_time (thread s p) \<le> now) ps
           in m = c + length due \<and> kinv s' \<and> woken due 0 s s' \<and> wqs s' = wqs s
              \<and> lists s' L_sync_sleep = lists s L_sync_sleep
              \<and> lists s' L_sleep = dropWhile (\<lambda>p. expired_time (thread s p) \<le> now) ps)"
  using assms
proof (induction ps arbitrary: s n c)
  case Nil
  then show ?case by (simp add: wakeup_loop.simps)
next
  case (Cons p ps)
  show ?case
  proof (cases "expired_time (thread s p) \<le> now")
    case False
    with Cons.prems show ?thesis by (simp add: wakeup_loop.simps)
  next
    case True
    from Cons.prems(3) obtain k where k: "n = Suc k" "length ps \<le> k" by (cases n) auto
    have i: "p \<in> set (lists s L_sleep)" using Cons.prems(2) by simp
    have d: "p \<notin> set ps"
      using sched_ok_distinct(1) [OF kinv_exD(1) [OF Cons.prems(1)], of L_sleep] Cons.prems(2) by simp
    let ?s = "sleeper_wake p s"
    have b: "blocked_list L_sleep" by simp
    note w = wake_eq [OF Cons.prems(1) i _ b] kinv_wake [OF Cons.prems(1) i _ b]
    have s: "kinv ?s" "lists ?s L_sleep = ps" using w(2) Cons.prems(2) by (simp_all add: sleeper_wake_def)
    from Cons.IH [OF s k(2), of "Suc c"] woken_sleeper [of _ p s] d
    have "ok (wakeup_loop k now (Suc c) ?s) (\<lambda>(m, s').
           let due = takeWhile (\<lambda>p. expired_time (thread s p) \<le> now) (p # ps)
           in m = c + length due \<and> kinv s' \<and> woken due 0 s s' \<and> wqs s' = wqs s
              \<and> lists s' L_sync_sleep = lists s L_sync_sleep
              \<and> lists s' L_sleep = dropWhile (\<lambda>p. expired_time (thread s p) \<le> now) (p # ps))"
      by (elim ok_mono) (auto simp: Let_def True dest: set_takeWhileD)
    with w(1) True Cons.prems(2) k(1) show ?thesis by (simp add: wakeup_loop.simps [of "Suc k"] sleeper_wake_def)
  qed
qed

lemma wakeup_ok:
  assumes "kinv s"
  shows "ok (noza_wakeup now s) (\<lambda>(m, s').
           let due = takeWhile (\<lambda>p. expired_time (thread s p) \<le> now) (lists s L_sleep)
           in m = length due \<and> kinv s' \<and> woken due 0 s s' \<and> wqs s' = wqs s
              \<and> lists s' L_sync_sleep = lists s L_sync_sleep
              \<and> lists s' L_sleep = dropWhile (\<lambda>p. expired_time (thread s p) \<le> now) (lists s L_sleep))"
  using wakeup_loop_ok [OF assms refl order_refl, of now 0] assms
  by (auto simp: noza_wakeup_def Let_def)

lemma wake_order:
  "t\<lparr>th_state := x, waiting_queue := w, flags := f, trap := y\<rparr>
     = t\<lparr>waiting_queue := w, flags := f, th_state := x, trap := y\<rparr>"
  by (cases t) simp

text \<open>A timed-out waiter leaves its queue and its time-out together.\<close>

lemma timeout_wake:
  assumes inv: "kinv s" and p: "p \<in> set (lists s L_sync_sleep)"
  obtains w where "waiting_queue (thread s p) = Some w"
    and "bindE (noza_os_change_state p L_sync_sleep (L_ready (priority (thread s p))) s) (\<lambda>s1.
           bindE (case waiting_queue (thread s1 p) of
                    Some w \<Rightarrow> bindE (noza_wait_queue_remove w p s1)
                               (\<lambda>s2. Inr (upd_thread p (\<lambda>t. t\<lparr>waiting_queue := None\<rparr>) s2))
                  | None \<Rightarrow> Inr s1) (\<lambda>s2.
           Inr (noza_os_set_return_value1 p ETIMEDOUT
             (upd_thread p (\<lambda>t. t\<lparr>flags := flags t AND NOT FLAG_WAIT_TIMEOUT\<rparr>) s2))))
         = Inr (sync_wake w p ETIMEDOUT s)"
    and "kinv (sync_wake w p ETIMEDOUT s)"
proof -
  have pX: "p \<notin> {}" by simp
  note k = kinv_in_list [OF inv p pX]
  have st: "th_state (thread s p) = THREAD_WAITING_SYNC" using k(3) by simp
  have tmo: "wait_timeout (thread s p)"
    by (rule thread_ok_in_list(7) [OF kinv_thread [OF inv k(1) pX] p refl])
  obtain w where w: "waiting_queue (thread s p) = Some w" "p \<in> set (wqs s w)"
    by (rule kinv_waiting_sync [OF inv k(1) pX st]) (rule that)
  have nr: "p \<notin> set (lists s (L_ready i))" for i using k(4) [of "L_ready i"] by simp
  have lid: "priority (thread s p) < NOZA_OS_PRIORITY_LIMIT" by (rule kinv_prio [OF inv k(1)])
  show thesis
  proof (rule that [OF w(1)])
    show "kinv (sync_wake w p ETIMEDOUT s)" by (rule sync_wake_ok(2) [OF inv k(1) pX st w(1)])
    have twice: "upd_thread p (\<lambda>t. t\<lparr>waiting_queue := None\<rparr>) (upd_thread p (\<lambda>t. t\<lparr>waiting_queue := None\<rparr>) x)
      = upd_thread p (\<lambda>t. t\<lparr>waiting_queue := None\<rparr>) x" for x
      by (simp add: upd_thread_def)
    let ?s1 = "move L_sync_sleep (L_ready (priority (thread s p))) p s"
    have 1: "noza_os_change_state p L_sync_sleep (L_ready (priority (thread s p))) s = Inr ?s1"
      using st p nr lid by (simp add: noza_os_change_state_def remove_thread_eq add_thread_put move_def)
    have "noza_os_set_return_value1 p ETIMEDOUT
        (upd_thread p (\<lambda>t. t\<lparr>flags := flags t AND NOT FLAG_WAIT_TIMEOUT\<rparr>)
          (upd_thread p (\<lambda>t. t\<lparr>waiting_queue := None\<rparr>) (upd_wq w (remove1 p) ?s1))) = sync_wake w p ETIMEDOUT s"
      by (rule kstate.equality)
         (use tmo in \<open>simp_all add: sync_wake_def unqueue_def Let_def move_def put_def
            noza_os_set_return_value1_def wake_order\<close>)
    then show "bindE (noza_os_change_state p L_sync_sleep (L_ready (priority (thread s p))) s) (\<lambda>s1.
           bindE (case waiting_queue (thread s1 p) of
                    Some w \<Rightarrow> bindE (noza_wait_queue_remove w p s1)
                               (\<lambda>s2. Inr (upd_thread p (\<lambda>t. t\<lparr>waiting_queue := None\<rparr>) s2))
                  | None \<Rightarrow> Inr s1) (\<lambda>s2.
           Inr (noza_os_set_return_value1 p ETIMEDOUT
             (upd_thread p (\<lambda>t. t\<lparr>flags := flags t AND NOT FLAG_WAIT_TIMEOUT\<rparr>) s2))))
         = Inr (sync_wake w p ETIMEDOUT s)"
      using w by (simp add: 1 noza_wait_queue_remove_def twice)
  qed
qed

lemma sync_loop_step:
  assumes inv: "kinv s" and p: "lists s L_sync_sleep = p # ps" and due: "expired_time (thread s p) \<le> now"
  obtains w where "waiting_queue (thread s p) = Some w"
    and "wakeup_sync_loop (Suc k) now c s = wakeup_sync_loop k now (Suc c) (sync_wake w p ETIMEDOUT s)"
    and "kinv (sync_wake w p ETIMEDOUT s)" and "lists (sync_wake w p ETIMEDOUT s) L_sync_sleep = ps"
    and "lists (sync_wake w p ETIMEDOUT s) L_sleep = lists s L_sleep"
    and "\<And>v. wqs (sync_wake w p ETIMEDOUT s) v = filter (\<lambda>q. q \<noteq> p) (wqs s v)"
proof -
  have i: "p \<in> set (lists s L_sync_sleep)" and pX: "p \<notin> {}" using p by simp_all
  note k = kinv_in_list [OF inv i pX] and d = sched_ok_distinct [OF kinv_exD(1) [OF inv]]
  obtain w where w: "waiting_queue (thread s p) = Some w"
    "bindE (noza_os_change_state p L_sync_sleep (L_ready (priority (thread s p))) s) (\<lambda>s1.
           bindE (case waiting_queue (thread s1 p) of
                    Some w \<Rightarrow> bindE (noza_wait_queue_remove w p s1)
                               (\<lambda>s2. Inr (upd_thread p (\<lambda>t. t\<lparr>waiting_queue := None\<rparr>) s2))
                  | None \<Rightarrow> Inr s1) (\<lambda>s2.
           Inr (noza_os_set_return_value1 p ETIMEDOUT
             (upd_thread p (\<lambda>t. t\<lparr>flags := flags t AND NOT FLAG_WAIT_TIMEOUT\<rparr>) s2))))
         = Inr (sync_wake w p ETIMEDOUT s)"
    "kinv (sync_wake w p ETIMEDOUT s)"
    by (rule timeout_wake [OF inv i]) (rule that)
  let ?Inr = "Inr :: kstate \<Rightarrow> kstate res"
  have bind: "bindE A (\<lambda>s1. bindE (B s1) (\<lambda>s2. F (h s2))) = F s'"
    if "bindE A (\<lambda>s1. bindE (B s1) (\<lambda>s2. ?Inr (h s2))) = Inr s'"
    for A B F s' and h :: "kstate \<Rightarrow> kstate"
    using that by (elim bindE_InrE) simp
  have tmo: "wait_timeout (thread s p)"
    by (rule thread_ok_in_list(7) [OF kinv_thread [OF inv k(1) pX] i refl])
  have st: "th_state (thread s p) = THREAD_WAITING_SYNC" using k(3) by simp
  have on: "on_wqs s p = {w}"
    by (rule kinv_waiting_sync [OF inv k(1) pX st]) (use w(1) in simp)
  then have other: "p \<notin> set (wqs s v)" if "v \<noteq> w" for v using that by (simp add: in_wqs_on)
  show thesis
  proof (rule that [OF w(1) _ w(3)])
    show "wakeup_sync_loop (Suc k) now c s = wakeup_sync_loop k now (Suc c) (sync_wake w p ETIMEDOUT s)"
      using bind [OF w(2), of "wakeup_sync_loop k now (Suc c)"] p due
      by (simp add: wakeup_sync_loop.simps [of "Suc k"] Let_def)
    show "lists (sync_wake w p ETIMEDOUT s) L_sync_sleep = ps"
      using p tmo by (simp add: sync_wake_def)
    show "lists (sync_wake w p ETIMEDOUT s) L_sleep = lists s L_sleep" by (simp add: sync_wake_def)
    show "wqs (sync_wake w p ETIMEDOUT s) v = filter (\<lambda>q. q \<noteq> p) (wqs s v)" for v
      using d(2) [of w] other [of v] by (auto simp: distinct_remove1_removeAll removeAll_filter_not_eq
        intro!: filter_True [symmetric] filter_cong)
  qed
qed

lemma wakeup_sync_loop_ok:
  assumes "kinv s" and "lists s L_sync_sleep = ps" and "length ps \<le> n"
  shows "ok (wakeup_sync_loop n now c s) (\<lambda>(m, s').
           let due = takeWhile (\<lambda>p. expired_time (thread s p) \<le> now) ps
           in m = c + length due \<and> kinv s' \<and> woken due ETIMEDOUT s s'
              \<and> (\<forall>w. wqs s' w = filter (\<lambda>q. q \<notin> set due) (wqs s w))
              \<and> lists s' L_sleep = lists s L_sleep
              \<and> lists s' L_sync_sleep = dropWhile (\<lambda>p. expired_time (thread s p) \<le> now) ps)"
  using assms
proof (induction ps arbitrary: s n c)
  case Nil
  then show ?case by (simp add: wakeup_sync_loop.simps)
next
  case (Cons p ps)
  show ?case
  proof (cases "expired_time (thread s p) \<le> now")
    case False
    with Cons.prems show ?thesis by (simp add: wakeup_sync_loop.simps)
  next
    case True
    from Cons.prems(3) obtain k where k: "n = Suc k" "length ps \<le> k" by (cases n) auto
    have d: "p \<notin> set ps"
      using sched_ok_distinct(1) [OF kinv_exD(1) [OF Cons.prems(1)], of L_sync_sleep] Cons.prems(2) by simp
    obtain w where step: "wakeup_sync_loop (Suc k) now c s = wakeup_sync_loop k now (Suc c) (sync_wake w p ETIMEDOUT s)"
      and s: "kinv (sync_wake w p ETIMEDOUT s)" "lists (sync_wake w p ETIMEDOUT s) L_sync_sleep = ps"
        "lists (sync_wake w p ETIMEDOUT s) L_sleep = lists s L_sleep"
        "\<And>v. wqs (sync_wake w p ETIMEDOUT s) v = filter (\<lambda>q. q \<noteq> p) (wqs s v)"
      by (rule sync_loop_step [OF Cons.prems(1,2) True]) (rule that)
    let ?s = "sync_wake w p ETIMEDOUT s"
    let ?P = "\<lambda>q. expired_time (thread s q) \<le> now"
    have "thread ?s q = thread s q" if "q \<in> set ps" for q
      using that d by (intro sync_wake_sel) auto
    then have e: "takeWhile (\<lambda>q. expired_time (thread ?s q) \<le> now) ps = takeWhile ?P ps"
      "dropWhile (\<lambda>q. expired_time (thread ?s q) \<le> now) ps = dropWhile ?P ps"
      by (auto intro!: takeWhile_cong dropWhile_cong)
    have "woken (p # takeWhile ?P ps) ETIMEDOUT s s'" if "woken (takeWhile ?P ps) ETIMEDOUT ?s s'" for s'
      using woken_Cons [OF that] d by (meson set_takeWhileD)
    with Cons.IH [OF s(1,2) k(2), of "Suc c"] show ?thesis
      unfolding k(1) step e by (elim ok_mono) (auto simp: Let_def True s(3) s(4) [simplified])
  qed
qed

lemma wakeup_sync_ok:
  assumes "kinv s"
  shows "ok (noza_wakeup_sync now s) (\<lambda>(m, s').
           let due = takeWhile (\<lambda>p. expired_time (thread s p) \<le> now) (lists s L_sync_sleep)
           in m = length due \<and> kinv s' \<and> woken due ETIMEDOUT s s'
              \<and> (\<forall>w. wqs s' w = filter (\<lambda>q. q \<notin> set due) (wqs s w))
              \<and> lists s' L_sleep = lists s L_sleep
              \<and> lists s' L_sync_sleep = dropWhile (\<lambda>p. expired_time (thread s p) \<le> now) (lists s L_sync_sleep))"
  using wakeup_sync_loop_ok [OF assms refl order_refl, of now 0] assms
  by (auto simp: noza_wakeup_sync_def Let_def)

section \<open>A pass of the scheduler\<close>

lemma ok_frame: "ok m P \<Longrightarrow> (\<And>s'. m = Inr s' \<Longrightarrow> Q s') \<Longrightarrow> ok m (\<lambda>s'. P s' \<and> Q s')"
  by (auto simp: ok_def)

lemma machine_cpu: "machine s' = machine s \<Longrightarrow> cpu s' = cpu s"
  "machine s' = machine s \<Longrightarrow> clock s' = clock s"
  "machine s' = machine s \<Longrightarrow> irq_pending_bitmap s' = irq_pending_bitmap s"
  by (simp_all add: machine_def)

lemma wakeup_loop_frame: "wakeup_loop n now c s = Inr (m, s') \<Longrightarrow> machine s' = machine s"
proof (induction n arbitrary: c s)
  case 0
  then show ?case by (auto simp: wakeup_loop.simps split: list.splits if_splits)
next
  case (Suc n)
  from Suc.prems show ?case
    by (auto simp: wakeup_loop.simps [of "Suc n"] split: list.splits if_splits
      elim!: bindE_InrE dest!: Suc.IH frames)
qed

lemma wakeup_sync_loop_frame: "wakeup_sync_loop n now c s = Inr (m, s') \<Longrightarrow> machine s' = machine s"
proof (induction n arbitrary: c s)
  case 0
  then show ?case by (auto simp: wakeup_sync_loop.simps split: list.splits if_splits)
next
  case (Suc n)
  from Suc.prems show ?case
    by (auto simp: wakeup_sync_loop.simps [of "Suc n"] Let_def split: list.splits if_splits option.splits
      elim!: bindE_InrE dest!: Suc.IH frames)
qed

lemma wakeup_frames [frames]:
  "noza_wakeup now s = Inr (m, s') \<Longrightarrow> machine s' = machine s"
  "noza_wakeup_sync now s = Inr (m, s') \<Longrightarrow> machine s' = machine s"
  by (auto simp: noza_wakeup_def noza_wakeup_sync_def split: if_splits
    dest!: wakeup_loop_frame wakeup_sync_loop_frame)

lemma sched_events_frame [frames]: "sched_events now s = Inr s' \<Longrightarrow> machine s' = machine s"
  by (auto simp: sched_events_def elim!: bindE_InrE dest!: frames)

lemma timer_tick_ok:
  assumes "kinv s" and "now < 2 ^ 62"
  shows "ok (noza_timer_tick now s) (\<lambda>s'. kinv s' \<and> running s' = running s
           \<and> (\<forall>i \<in> set (timer_q s'). deadline (timers s' i) > now))"
  unfolding noza_timer_tick_def by (rule ok_mono [OF tick_loop_ok [OF assms order_refl]]) simp

text \<open>After the events of a pass no queued timer is due, and neither is the head of either sleep list.\<close>

definition nothing_due :: "int \<Rightarrow> kstate \<Rightarrow> bool" where
  "nothing_due now s \<longleftrightarrow> (\<forall>i \<in> set (timer_q s). deadline (timers s i) > now)
     \<and> (\<forall>l \<in> {L_sleep, L_sync_sleep}. lists s l \<noteq> [] \<longrightarrow> expired_time (thread s (hd (lists s l))) > now)"

lemma wakeups_ok:
  assumes inv: "kinv s" and t: "\<forall>i \<in> set (timer_q s). deadline (timers s i) > now"
  shows "ok (bindE (noza_wakeup now s) (\<lambda>(_, s2). bindE (noza_wakeup_sync now s2) (\<lambda>(_, s3). Inr s3)))
           (\<lambda>s'. kinv s' \<and> running s' = running s \<and> nothing_due now s')"
proof -
  let ?P = "\<lambda>s p. expired_time (thread s p) \<le> now"
  obtain m s2 where s2: "noza_wakeup now s = Inr (m, s2)" "kinv s2"
      "woken (takeWhile (?P s) (lists s L_sleep)) 0 s s2" "lists s2 L_sleep = dropWhile (?P s) (lists s L_sleep)"
      "lists s2 L_sync_sleep = lists s L_sync_sleep"
    using ok_value [OF wakeup_ok [OF inv, of now]] by (auto simp: Let_def)
  obtain k s3 where s3: "noza_wakeup_sync now s2 = Inr (k, s3)" "kinv s3"
      "woken (takeWhile (?P s2) (lists s2 L_sync_sleep)) ETIMEDOUT s2 s3"
      "lists s3 L_sync_sleep = dropWhile (?P s2) (lists s2 L_sync_sleep)" "lists s3 L_sleep = lists s2 L_sleep"
    using ok_value [OF wakeup_sync_ok [OF s2(2), of now]] by (auto simp: Let_def)
  have same: "thread s' q = thread s q"
    if "woken (takeWhile Q xs) res s s'" "distinct xs" "dropWhile Q xs \<noteq> []" "q = hd (dropWhile Q xs)"
    for res s s' q xs and Q :: "pid \<Rightarrow> bool"
  proof -
    from that(3,4) have "\<not> Q q" by (simp add: hd_dropWhile)
    then have "q \<notin> set (takeWhile Q xs)" by (auto dest: set_takeWhileD)
    with that(1) show ?thesis by (simp add: woken_def)
  qed
  have sl: "expired_time (thread s3 (hd (lists s3 L_sleep))) > now" if ne: "lists s3 L_sleep \<noteq> []"
  proof -
    let ?q = "hd (lists s3 L_sleep)"
    have q: "?q \<in> set (lists s2 L_sleep)" using ne s3(5) by simp
    note in2 = kinv_in_list [OF s2(2) q]
    have "?q \<notin> set (lists s2 L_sync_sleep)" using in2(4) [of L_sync_sleep] by simp
    then have "thread s3 ?q = thread s2 ?q" using s3(3) by (auto simp: woken_def dest: set_takeWhileD)
    moreover have "thread s2 ?q = thread s ?q"
      using same [OF s2(3) _ _ refl] sched_ok_distinct(1) [OF kinv_exD(1) [OF inv]] ne s2(4) s3(5) by simp
    moreover have "\<not> ?P s ?q" using ne s2(4) s3(5) hd_dropWhile [of "?P s" "lists s L_sleep"] by simp
    ultimately show ?thesis by simp
  qed
  have sy: "expired_time (thread s3 (hd (lists s3 L_sync_sleep))) > now" if ne: "lists s3 L_sync_sleep \<noteq> []"
    using same [OF s3(3) _ _ refl] sched_ok_distinct(1) [OF kinv_exD(1) [OF s2(2)]] ne s3(4)
      hd_dropWhile [of "?P s2" "lists s2 L_sync_sleep"] by simp
  have "timer_q s3 = timer_q s" "timers s3 = timers s" "running s3 = running s"
    using s2(3) s3(3) by (simp_all add: woken_def)
  with s2 s3 sl sy t show ?thesis by (auto simp: nothing_due_def)
qed

lemma sched_events_ok:
  assumes "kinv s" and "now < 2 ^ 62"
  shows "ok (sched_events now s) (\<lambda>s'. (kinv s' \<and> running s' = running s \<and> nothing_due now s') \<and> machine s' = machine s)"
proof (rule ok_frame)
  show "ok (sched_events now s) (\<lambda>s'. kinv s' \<and> running s' = running s \<and> nothing_due now s')"
    unfolding sched_events_def ok_bindE [of "noza_timer_tick now s"]
  proof (rule ok_mono [OF timer_tick_ok [OF assms]])
    fix s1 assume "kinv s1 \<and> running s1 = running s \<and> (\<forall>i \<in> set (timer_q s1). deadline (timers s1 i) > now)"
    with wakeups_ok [of s1 now]
    show "ok (bindE (noza_wakeup now s1) (\<lambda>(_, s2). bindE (noza_wakeup_sync now s2) (\<lambda>(_, s3). Inr s3)))
        (\<lambda>s'. kinv s' \<and> running s' = running s \<and> nothing_due now s')" by simp
  qed
qed (rule frames)

lemma peer_ok:
  assumes "kinv s" and "\<forall>p. r = Some p \<longrightarrow> p < NOZA_OS_TASK_LIMIT"
  shows "\<exists>b. has_same_priority_peer r s = Inr b"
  using assms kinv_prio [OF assms(1)]
  by (cases r) (auto simp: has_same_priority_peer_def thread_count_def)

lemma arm_ok:
  assumes "kinv s" and "\<forall>p. r = Some p \<longrightarrow> p < NOZA_OS_TASK_LIMIT"
  shows "\<exists>nt st. arm_next_scheduler_deadline core now r s = Inr (s\<lparr>next_tick_time := nt, systick := st\<rparr>)"
proof -
  obtain b where "has_same_priority_peer r s = Inr b" using peer_ok [OF assms] by blast
  then show ?thesis by (auto simp: arm_next_scheduler_deadline_def Let_def)
qed

lemma higher_ok:
  assumes "kinv s" and "p < NOZA_OS_TASK_LIMIT"
  shows "is_with_higher_priority_thread p s = Inr (\<exists>i < priority (thread s p). lists s (L_ready i) \<noteq> [])"
proof -
  note lt = kinv_prio [OF assms]
  have "find (\<lambda>i. \<not> lid_ok (L_ready i) \<or> lists s (L_ready i) \<noteq> []) [0..<priority (thread s p)] = None
      \<longleftrightarrow> \<not> (\<exists>i < priority (thread s p). lists s (L_ready i) \<noteq> [])"
    using lt by (auto simp: find_None_iff)
  moreover have "lid_ok (L_ready i)"
    if "find (\<lambda>i. \<not> lid_ok (L_ready i) \<or> lists s (L_ready i) \<noteq> []) [0..<priority (thread s p)] = Some i" for i
    using find_split [OF that] lt by simp
  ultimately show ?thesis
    by (auto simp: is_with_higher_priority_thread_def split: option.split)
qed

lemma check_output_kinv [simp]: "kinv_ex X (check_syscall_output r s) = kinv_ex X s"
  by (simp add: check_syscall_output_def kinv_ex_irrelevant)

lemma check_output_sel [simp]:
  "running (check_syscall_output r s) = running s" "lists (check_syscall_output r s) = lists s"
  "machine (check_syscall_output r s) = machine s" "timer_q (check_syscall_output r s) = timer_q s"
  "timers (check_syscall_output r s) = timers s"
  "priority (thread (check_syscall_output r s) q) = priority (thread s q)"
  "th_state (thread (check_syscall_output r s) q) = th_state (thread s q)"
  "vid (thread (check_syscall_output r s) q) = vid (thread s q)"
  by (simp_all add: check_syscall_output_def)

text \<open>The state a pass works in.\<close>

definition safe :: "kstate \<Rightarrow> bool" where
  "safe s \<longleftrightarrow> kinv s \<and> irq_ok s \<and> clock s < 2 ^ 62"

lemma irq_process_idle: "irq_pending_bitmap s = 0 \<Longrightarrow> irq_process_pending s = Inr s"
  by (simp add: irq_process_pending_def irq_fetch_next_pending_def eval_nat_numeral)

lemma sched_run_ok:
  assumes s: "safe s" and p: "p < NOZA_OS_TASK_LIMIT"
  shows "ok (sched_run core now p s) (\<lambda>s'. safe s' \<and> running s' = running s \<and> cpu s' = cpu s \<and> clock s' = clock s
           \<and> irq_pending_bitmap s' = 0)"
    and "irq_pending_bitmap s = 0 \<Longrightarrow> ok (sched_run core now p s) (\<lambda>s'. lists s' = lists s
           \<and> (\<forall>q. priority (thread s' q) = priority (thread s q))
           \<and> (\<forall>q. th_state (thread s' q) = th_state (thread s q)))"
proof -
  let ?s = "check_syscall_output p s"
  have k: "kinv ?s" using s by (simp add: safe_def)
  have pp: "\<forall>q. Some p = Some q \<longrightarrow> q < NOZA_OS_TASK_LIMIT" using p by simp
  obtain nt st where arm: "arm_next_scheduler_deadline core now (Some p) ?s
      = Inr (?s\<lparr>next_tick_time := nt, systick := st\<rparr>)"
    using arm_ok [OF k pp] by blast
  let ?t = "?s\<lparr>next_tick_time := nt, systick := st\<rparr>"
  let ?u = "?t\<lparr>NOZAOS_PID := (NOZAOS_PID ?t)(core := vid (thread ?t p))\<rparr>"
  have run: "sched_run core now p s = irq_process_pending ?u"
    unfolding sched_run_def arm by (simp add: GO_RUN_def)
  have m: "machine ?u = machine s" by simp
  note mc = machine_cpu [OF m]
  have u: "kinv ?u" "irq_ok ?u" using k s mc(3) by (simp_all add: safe_def irq_ok_def)
  show "ok (sched_run core now p s) (\<lambda>s'. safe s' \<and> running s' = running s \<and> cpu s' = cpu s \<and> clock s' = clock s
      \<and> irq_pending_bitmap s' = 0)"
    unfolding run by (rule ok_mono [OF irq_process_ok [OF u]]) (use s mc in \<open>auto simp: safe_def irq_ok_def\<close>)
  show "ok (sched_run core now p s) (\<lambda>s'. lists s' = lists s
           \<and> (\<forall>q. priority (thread s' q) = priority (thread s q))
           \<and> (\<forall>q. th_state (thread s' q) = th_state (thread s q)))" if "irq_pending_bitmap s = 0"
    unfolding run using irq_process_idle [of ?u] mc(3) that by simp
qed

subsection \<open>Dispatch\<close>

lemma find_least:
  "find P [0..<n] = Some i \<Longrightarrow> i < n \<and> P i \<and> (\<forall>j < i. \<not> P j)"
  by (auto simp: find_Some_iff)

lemma pick_ok:
  assumes inv: "kinv s"
  shows "ok (pick_ready_thread s) (\<lambda>(r, s1).
           (r = None \<and> s1 = s \<and> (\<forall>i < NOZA_OS_PRIORITY_LIMIT. lists s (L_ready i) = []))
           \<or> (\<exists>p rest i. r = Some p \<and> i < NOZA_OS_PRIORITY_LIMIT \<and> lists s (L_ready i) = p # rest
                \<and> s1 = upd_list (L_ready i) (remove1 p) s \<and> (\<forall>j < i. lists s (L_ready j) = [])))"
proof (cases "find (\<lambda>i. lists s (L_ready i) \<noteq> []) [0..<NOZA_OS_PRIORITY_LIMIT]")
  case None
  then have "\<forall>i < NOZA_OS_PRIORITY_LIMIT. lists s (L_ready i) = []"
    by (simp add: find_None_iff del: upt_rec_numeral)
  with None show ?thesis by (simp add: pick_ready_thread_def del: upt_rec_numeral)
next
  case (Some i)
  from find_least [OF Some] have i: "i < NOZA_OS_PRIORITY_LIMIT" "lists s (L_ready i) \<noteq> []"
    "\<forall>j < i. lists s (L_ready j) = []" by simp_all
  then obtain p rest where p: "lists s (L_ready i) = p # rest" by (cases "lists s (L_ready i)") auto
  have "p \<in> set (lists s (L_ready i))" using p by simp
  from kinv_in_list(3) [OF inv this] i p Some show ?thesis
    by (auto simp: pick_ready_thread_def remove_thread_eq Let_def simp del: upt_rec_numeral)
qed

definition dispatched :: "nat \<Rightarrow> nat \<Rightarrow> pid \<Rightarrow> kstate \<Rightarrow> kstate" where
  "dispatched core i p s =
     (upd_thread p (\<lambda>t. t\<lparr>th_state := THREAD_RUNNING\<rparr>) (upd_list (L_ready i) (remove1 p) s))
       \<lparr>running := (running s)(core := Some p)\<rparr>"

lemma dispatched_sel [simp]:
  "lists (dispatched core i p s) = (lists s)(L_ready i := remove1 p (lists s (L_ready i)))"
  "wqs (dispatched core i p s) = wqs s" "running (dispatched core i p s) = (running s)(core := Some p)"
  "thread (dispatched core i p s) = (thread s)(p := (thread s p)\<lparr>th_state := THREAD_RUNNING\<rparr>)"
  "machine (dispatched core i p s) = machine s"
  "timer_q (dispatched core i p s) = timer_q s" "timers (dispatched core i p s) = timers s"
  by (simp_all add: dispatched_def)

lemma dispatched_kinv:
  assumes inv: "kinv s" and p: "p \<in> set (lists s (L_ready i))" and c: "running s core = None"
  shows "kinv (dispatched core i p s)" and "p < NOZA_OS_TASK_LIMIT"
proof -
  note k = kinv_in_list [OF inv p, simplified] and d = sched_ok_distinct [OF kinv_exD(1) [OF inv]]
  show lt: "p < NOZA_OS_TASK_LIMIT" by (rule k)
  let ?s1 = "upd_thread p (\<lambda>t. t\<lparr>th_state := THREAD_RUNNING\<rparr>) (upd_list (L_ready i) (remove1 p) s)"
  let ?s = "dispatched core i p s"
  have 1: "kinv_ex {p} ?s1"
    using kinv_transit_state [OF kinv_transit_list [OF inv lt, of "L_ready i"] lt] k(3) by (simp add: live_def)
  have pl: "on_lists ?s = on_lists ?s1" "on_wqs ?s = on_wqs ?s1" "joins ?s = joins ?s1"
    by (rule ext; auto simp: on_lists_def on_wqs_def joins_def dispatched_def)+
  have co: "on_cores ?s q = (if q = p then insert core (on_cores s q) else on_cores s q)" for q
    using c by (auto simp: on_cores_def)
  have "kinv_ex (insert p {p}) ?s"
  proof (rule kinv_transitI [OF 1 lt])
    show "conf ?s q = conf ?s1 q" if "q \<noteq> p" for q using that by (simp add: conf_def pl co)
    show "prio_ok ?s" by (rule prio_ok_same [OF kinv_exD(2) [OF 1]]) (simp add: dispatched_def)
    show "owners_ok ?s" using kinv_exD(3) [OF 1] by (simp add: owners_ok_def dispatched_def)
    show "vid_ok (used ?s) ?s" by (rule vid_ok_same [OF kinv_exD(4) [OF 1]]) (simp_all add: dispatched_def)
    show "timers_ok ?s" by (rule timers_ok_same [OF kinv_exD(5) [OF 1]]) (simp_all add: dispatched_def)
  qed (use d in simp_all)
  moreover have "thread_ok ?s p"
    using k(2,5) d by (simp add: thread_ok_def pl co parked_def)
  ultimately show "kinv ?s" using kinv_settle [of p "{}" ?s] lt by simp
qed

text \<open>A pass from the top of the loop dispatches a ready thread of the highest priority that has one, or
  finds no ready thread at all.\<close>

definition picked_best :: "nat \<Rightarrow> kstate \<Rightarrow> bool" where
  "picked_best core s \<longleftrightarrow>
     (case running s core of
        Some p \<Rightarrow> th_state (thread s p) = THREAD_RUNNING
          \<and> (\<forall>j < priority (thread s p). lists s (L_ready j) = [])
      | None \<Rightarrow> \<forall>j < NOZA_OS_PRIORITY_LIMIT. lists s (L_ready j) = [])"

lemma safe_machine:
  "kinv s \<Longrightarrow> machine s = machine s0 \<Longrightarrow> safe s0 \<Longrightarrow> safe s"
  by (simp add: safe_def machine_def irq_ok_def)

lemma dispatch_ok:
  assumes s: "safe s" and b: "irq_pending_bitmap s = 0" and c: "running s core = None"
  shows "ok (bindE (pick_ready_thread s) (\<lambda>(r, s3). case r of
             Some p \<Rightarrow> sched_run core now p
               ((upd_thread p (\<lambda>t. t\<lparr>th_state := THREAD_RUNNING\<rparr>) s3)\<lparr>running := (running s3)(core := Some p)\<rparr>)
           | None \<Rightarrow> arm_next_scheduler_deadline core now None s3))
         (\<lambda>s'. safe s' \<and> cpu s' = cpu s \<and> clock s' = clock s \<and> picked_best core s')"
  unfolding ok_bindE
proof (rule ok_mono [OF pick_ok])
  show inv: "kinv s" using s by (simp add: safe_def)
  let ?Q = "\<lambda>s'. safe s' \<and> cpu s' = cpu s \<and> clock s' = clock s \<and> picked_best core s'"
  fix a assume "case a of (r, s1) \<Rightarrow>
           (r = None \<and> s1 = s \<and> (\<forall>i < NOZA_OS_PRIORITY_LIMIT. lists s (L_ready i) = []))
           \<or> (\<exists>p rest i. r = Some p \<and> i < NOZA_OS_PRIORITY_LIMIT \<and> lists s (L_ready i) = p # rest
                \<and> s1 = upd_list (L_ready i) (remove1 p) s \<and> (\<forall>j < i. lists s (L_ready j) = []))"
  then consider "a = (None, s)" "\<forall>i < NOZA_OS_PRIORITY_LIMIT. lists s (L_ready i) = []"
    | p rest i where "a = (Some p, upd_list (L_ready i) (remove1 p) s)" "lists s (L_ready i) = p # rest"
        "\<forall>j < i. lists s (L_ready j) = []"
    by (cases a) auto
  then show "ok (case a of (r, s3) \<Rightarrow> case r of
             Some p \<Rightarrow> sched_run core now p
               ((upd_thread p (\<lambda>t. t\<lparr>th_state := THREAD_RUNNING\<rparr>) s3)\<lparr>running := (running s3)(core := Some p)\<rparr>)
           | None \<Rightarrow> arm_next_scheduler_deadline core now None s3) ?Q"
  proof cases
    case 1
    obtain nt st where "arm_next_scheduler_deadline core now None s = Inr (s\<lparr>next_tick_time := nt, systick := st\<rparr>)"
      using arm_ok [OF inv, of None core now] by auto
    with 1 s c show ?thesis by (auto simp: safe_def irq_ok_def picked_best_def)
  next
    case 2
    let ?s = "dispatched core i p s"
    have p: "p \<in> set (lists s (L_ready i))" using 2(2) by simp
    note dk = dispatched_kinv [OF inv p c] and pr = kinv_in_list(7) [OF inv p _ refl]
    have m: "machine ?s = machine s" by simp
    have sf: "safe ?s" by (rule safe_machine [OF dk(1) m s])
    have b': "irq_pending_bitmap ?s = 0" using machine_cpu(3) [OF m] b by simp
    from ok_conj [OF sched_run_ok(1) [OF sf dk(2)] sched_run_ok(2) [OF sf dk(2) b']]
    have "ok (sched_run core now p ?s) ?Q"
      by (rule ok_mono) (use 2 pr machine_cpu [OF m] in \<open>auto simp: picked_best_def\<close>)
    with 2(1) show ?thesis by (simp add: dispatched_def)
  qed
qed

theorem sched_pick_ok:
  assumes s: "safe s" and c: "running s (cpu s) = None"
  shows "ok (sched_pick (cpu s) s) (\<lambda>s'. safe s' \<and> cpu s' = cpu s \<and> clock s' = clock s \<and> picked_best (cpu s) s')"
  unfolding sched_pick_def Let_def ok_bindE [of "sched_events (clock s) s"]
proof (rule ok_mono [OF sched_events_ok])
  show "kinv s" "clock s < 2 ^ 62" using s by (simp_all add: safe_def)
  fix s1 assume "(kinv s1 \<and> running s1 = running s \<and> nothing_due (clock s) s1) \<and> machine s1 = machine s"
  then have s1: "kinv s1" "running s1 = running s" "machine s1 = machine s" by simp_all
  have sf: "safe s1" by (rule safe_machine [OF s1(1,3) s])
  note mc = machine_cpu [OF s1(3)]
  let ?cont = "\<lambda>s2. bindE (pick_ready_thread s2) (\<lambda>(r, s3). case r of
             Some p \<Rightarrow> sched_run (cpu s) (clock s) p
               ((upd_thread p (\<lambda>t. t\<lparr>th_state := THREAD_RUNNING\<rparr>) s3)\<lparr>running := (running s3)(cpu s := Some p)\<rparr>)
           | None \<Rightarrow> arm_next_scheduler_deadline (cpu s) (clock s) None s3)"
  let ?Q = "\<lambda>s'. safe s' \<and> cpu s' = cpu s \<and> clock s' = clock s \<and> picked_best (cpu s) s'"
  have "ok (irq_process_pending s1) (\<lambda>s2. ok (?cont s2) ?Q)"
  proof (rule ok_mono [OF irq_process_ok])
    show "kinv s1" "irq_ok s1" using sf by (simp_all add: safe_def)
    fix s2 assume s2: "kinv s2 \<and> running s2 = running s1 \<and> cpu s2 = cpu s1 \<and> clock s2 = clock s1
      \<and> irq_pending_bitmap s2 = 0"
    with sf mc s1(2) c have "safe s2" "irq_pending_bitmap s2 = 0" "running s2 (cpu s) = None"
      "cpu s2 = cpu s" "clock s2 = clock s"
      by (simp_all add: safe_def irq_ok_def)
    from dispatch_ok [OF this(1-3), of "clock s"] this(4,5) show "ok (?cont s2) ?Q" by simp
  qed
  then show "ok (bindE (irq_process_pending s1) ?cont) ?Q" by simp
qed

subsection \<open>Return from user mode\<close>

lemma sched_leave_ok:
  assumes s: "safe s"
  shows "ok (sched_leave (cpu s) s) (\<lambda>s'. safe s' \<and> cpu s' = cpu s \<and> clock s' = clock s \<and> running s' (cpu s) = None)"
proof (cases "running s (cpu s)")
  case None
  with s show ?thesis by (simp add: sched_leave_def)
next
  case (Some q)
  have inv: "kinv s" using s by (simp add: safe_def)
  let ?l = "L_ready (priority (thread s q))"
  have park: "park_list s q ?l" by simp
  let ?s = "noza_os_clear_running_thread (put ?l q s)"
  have "kinv ?s" using kinv_block [OF inv Some _ park] by simp
  moreover have "machine ?s = machine s" by (simp add: put_def)
  ultimately have "safe ?s" using safe_machine s by blast
  moreover have "sched_leave (cpu s) s = Inr ?s"
    using add_running [OF inv Some _ park] Some by (simp add: sched_leave_def noza_os_clear_running_thread_def)
  ultimately show ?thesis by simp
qed

text \<open>The system call a thread has pending is one of those that the kernel can serve.\<close>

definition pending_call_ok :: "pid \<Rightarrow> kstate \<Rightarrow> bool" where
  "pending_call_ok r s \<longleftrightarrow>
     (let n = unat (ucast (r0 (trap (thread s r))) :: u8)
      in trap_state (trap (thread s r)) = SYSCALL_PENDING \<longrightarrow> n < NSC_NUM_SYSCALLS \<longrightarrow> call_ok n r s)"

lemma call_ok_trap:
  assumes "\<And>t. core_of (f t) = core_of t" and "\<And>t. r1 (trap (f t)) = r1 (trap t)"
    and "\<And>t. r2 (trap (f t)) = r2 (trap t)" and "\<And>t. port_st (f t) = port_st t"
  shows "call_ok n r (upd_thread r f s) = call_ok n r s"
proof -
  from assms(1) have "vid (f t) = vid t" "th_state (f t) = th_state t" for t by (simp_all add: core_of_def)
  with assms(4) have sel: "vid (thread (upd_thread r f s) q) = vid (thread s q)"
    "th_state (thread (upd_thread r f s) q) = th_state (thread s q)"
    "port_st (thread (upd_thread r f s) q) = port_st (thread s q)" for q by simp_all
  from assms(2,3) have "r1 (trap (thread (upd_thread r f s) r)) = r1 (trap (thread s r))"
    "r2 (trap (thread (upd_thread r f s) r)) = r2 (trap (thread s r))" by simp_all
  with sel show ?thesis
    unfolding call_ok_def irq_reply_def reply_ok_def call_target_ok_def get_thread_by_vid_def
    by (simp del: upd_thread_sel(3))
qed

lemma serve_ok:
  assumes s: "safe s" and r: "running s (cpu s) = Some r" and c: "pending_call_ok r s"
  shows "ok (check_syscall_serve (cpu s) r s) (\<lambda>s'. safe s' \<and> cpu s' = cpu s \<and> clock s' = clock s)"
proof (cases "trap_state (trap (thread s r)) = SYSCALL_PENDING")
  case False
  with s show ?thesis by (simp add: check_syscall_serve_def)
next
  case True
  let ?f = "\<lambda>t. t\<lparr>callid := ucast (r0 (trap t))\<rparr>" and ?s = "upd_thread r (\<lambda>t. t\<lparr>callid := ucast (r0 (trap t))\<rparr>) s"
  let ?n = "unat (callid (thread ?s r))"
  have inv: "kinv ?s" and r': "running ?s (cpu ?s) = Some r"
    using s r by (simp_all add: safe_def kinv_ex_irrelevant)
  have c': "call_ok ?n r (upd_thread r (\<lambda>t. t\<lparr>trap := (trap t)\<lparr>trap_state := SYSCALL_SERVING\<rparr>\<rparr>) ?s)"
    if "?n < NSC_NUM_SYSCALLS"
    using c that True
    by (subst call_ok_trap, simp_all add: core_of_def)
       (subst call_ok_trap, simp_all add: core_of_def pending_call_ok_def Let_def)
  have "ok (serv_syscall (cpu ?s) ?s) (\<lambda>s'. kinv s' \<and> machine s' = machine s)"
    by (rule ok_frame [OF serv_syscall_kinv [OF inv r' c']]) (auto dest: frames)
  with True have "ok (check_syscall_serve (cpu s) r s) (\<lambda>s'. kinv s' \<and> machine s' = machine s)"
    by (simp add: check_syscall_serve_def)
  then show ?thesis by (rule ok_mono) (use s safe_machine machine_cpu in blast)
qed

theorem sched_back_ok:
  assumes s: "safe s" and r: "running s (cpu s) = Some r"
    and c: "\<And>s1. sched_events (clock s) s = Inr s1 \<Longrightarrow> pending_call_ok r s1"
  shows "ok (sched_back (cpu s) r s) (\<lambda>s'. safe s' \<and> cpu s' = cpu s \<and> clock s' = clock s)"
proof -
  let ?Q = "\<lambda>s'. safe s' \<and> cpu s' = cpu s \<and> clock s' = clock s"
  have inv: "kinv s" and t: "clock s < 2 ^ 62" using s by (simp_all add: safe_def)
  from ok_value [OF sched_events_ok [OF inv t]] obtain s1 where ev: "sched_events (clock s) s = Inr s1"
    and s1: "kinv s1" "running s1 = running s" "machine s1 = machine s" by blast
  have sf1: "safe s1" by (rule safe_machine [OF s1(1,3) s])
  note mc = machine_cpu [OF s1(3)]
  have r1: "running s1 (cpu s1) = Some r" using r s1(2) mc by simp
  from ok_value [OF serve_ok [OF sf1 r1 c [OF ev]]] obtain s2 where
    sv: "check_syscall_serve (cpu s) r s1 = Inr s2" and s2: "safe s2" "cpu s2 = cpu s" "clock s2 = clock s"
    using mc by auto
  have lt: "r < NOZA_OS_TASK_LIMIT" by (rule kinv_running(1) [OF inv r]) simp
  have inv2: "kinv s2" using s2(1) by (simp add: safe_def)
  have leave: "ok (sched_leave (cpu s) s2) ?Q"
    using ok_mono [OF sched_leave_ok [OF s2(1)], of ?Q] s2 by simp
  have run: "ok (sched_run (cpu s) (clock s) r s2) ?Q"
    using ok_mono [OF sched_run_ok(1) [OF s2(1) lt], of ?Q] s2 by simp
  obtain b where "has_same_priority_peer (Some r) s2 = Inr b"
    using peer_ok [OF inv2, of "Some r"] lt by auto
  with leave run higher_ok [OF inv2 lt] show ?thesis
    unfolding sched_back_def Let_def ev sv bindE.simps by simp
qed

section \<open>What a pass does\<close>

lemma takeWhile_sorted:
  "sorted (map f xs) \<Longrightarrow> takeWhile (\<lambda>x. f x \<le> (n :: int)) xs = filter (\<lambda>x. f x \<le> n) xs"
  by (induction xs) (force intro!: filter_False [symmetric])+

lemma dropWhile_sorted:
  "sorted (map f xs) \<Longrightarrow> dropWhile (\<lambda>x. f x \<le> (n :: int)) xs = filter (\<lambda>x. f x > n) xs"
  by (induction xs) (fastforce intro!: filter_True [symmetric])+

text \<open>C27: Sleepers wake up in time: when the list of sleeping threads is sorted by wake-up time, looking at the clock
  makes exactly the threads ready whose time has come, with result 0 and in the order of their times, and leaves
  the others asleep.\<close>

theorem sleepers_wake:
  fixes now :: int
  assumes inv: "kinv s" and sorted: "sorted (map (\<lambda>p. expired_time (thread s p)) (lists s L_sleep))"
  defines "due \<equiv> filter (\<lambda>p. expired_time (thread s p) \<le> now) (lists s L_sleep)"
  shows "\<exists>s'. noza_wakeup now s = Inr (length due, s') \<and> kinv s'
    \<and> (\<forall>p \<in> set due. th_state (thread s' p) = THREAD_READY \<and> r0 (trap (thread s' p)) = 0)
    \<and> (\<forall>i. lists s' (L_ready i) = lists s (L_ready i) @ filter (\<lambda>p. priority (thread s p) = i) due)
    \<and> lists s' L_sleep = filter (\<lambda>p. expired_time (thread s p) > now) (lists s L_sleep)
    \<and> (\<forall>q. q \<notin> set due \<longrightarrow> thread s' q = thread s q)"
  using ok_value [OF wakeup_ok [OF inv, of now]]
  unfolding takeWhile_sorted [OF sorted] dropWhile_sorted [OF sorted] due_def woken_def Let_def by auto

theorem sleepers_wake_witness:
  "\<exists>s'. noza_wakeup 1000 demo = Inr (1, s') \<and> th_state (thread s' 5) = THREAD_READY \<and> lists s' L_sleep = [6]
    \<and> lists s' (L_ready 1) = [5]"
  using sleepers_wake [OF demo_kinv, of 1000] by (auto simp: demo_thread_def)

text \<open>C28: A time-out can come late. The list of timed waiters is in the order in which they began to wait, and only its
  head is looked at: a thread that begins to wait with a time-out behind one whose time is later is still waiting
  when its own time has come and the clock is looked at.\<close>

theorem timeout_late:
  assumes inv: "kinv s" and r: "running s (cpu s) = Some r" and w: "wq_in_use w s" and q: "lists s L_sync_sleep = q # qs"
    and t: "0 < t" "0 \<le> clock s" "clock s + t \<le> now" "now < expired_time (thread s q)" "now < 2 ^ 62"
  shows "\<exists>s1 s2. noza_wait_queue_sleep w t s = Inr (0, s1) \<and> expired_time (thread s1 r) = clock s + t
    \<and> noza_wakeup_sync now s1 = Inr (0, s2) \<and> th_state (thread s2 r) = THREAD_WAITING_SYNC"
proof -
  let ?u = "slept_until (clock s + t) w r s"
  let ?s1 = "noza_os_clear_running_thread ?u"
  have "int64 (clock s + t) = clock s + t" using t by (intro int64_id) auto
  then have e: "noza_wait_queue_sleep w t s = Inr (0, ?s1)" using wait_queue_sleep_eq(3) [OF inv r w t(1)] by simp
  have k: "kinv ?s1" by (rule slept_kinv(2) [OF inv r w])
  have ne: "q \<noteq> r" using thread_ok_running(2) [OF kinv_running(2) [OF inv r] r] q not_on_lists [of s r L_sync_sleep] by auto
  have x: "lists ?s1 L_sync_sleep = q # (qs @ [r])" "thread ?s1 q = thread s q"
    "expired_time (thread ?s1 r) = clock s + t" "th_state (thread ?s1 r) = THREAD_WAITING_SYNC"
    using q ne by (simp_all add: slept_until_def queued_on_def lists_put put_def)
  from ok_value [OF wakeup_sync_ok [OF k, of now]] x(1,2) t(4) obtain s2 where
    "noza_wakeup_sync now ?s1 = Inr (0, s2)" "thread s2 r = thread ?s1 r" by (auto simp: Let_def woken_def)
  with e x show ?thesis by auto
qed

theorem timeout_late_witness:
  "\<exists>s1 s2. noza_wait_queue_sleep (W_futex 1) 100 (demo\<lparr>clock := 0\<rparr>) = Inr (0, s1) \<and> expired_time (thread s1 0) = 100
    \<and> noza_wakeup_sync 500 s1 = Inr (0, s2) \<and> th_state (thread s2 0) = THREAD_WAITING_SYNC"
proof -
  have k: "kinv (demo\<lparr>clock := 0\<rparr>)" using demo_kinv by simp
  from timeout_late [OF k, of 0 "W_futex 1" 8 "[]" 100 500] show ?thesis by (simp add: demo_thread_def)
qed



end
