(* ===== verification/Boot.thy ===== *)
theory Boot
  imports Scheduler
begin

text \<open>
  Start of the kernel (\<^verbatim>\<open>noza_init\<close>, \<^verbatim>\<open>noza_run\<close> and the entry of \<^verbatim>\<open>noza_os_scheduler\<close> in
  \<^verbatim>\<open>kernel/noza_os.c\<close>): the cleared tables, the thirty-two free threads, and the first task.
\<close>

section \<open>Operations\<close>

definition zero_identity :: noza_identity_t where
  "zero_identity = \<lparr>uid = 0, gid = 0, umask = 0\<rparr>"

definition zero_thread :: thread_t where
  "zero_thread =
     \<lparr>frame = \<lparr>is_r0 = 0, is_r1 = 0, is_r2 = 0, is_r3 = 0, is_r12 = 0, is_lr = 0, is_pc = 0, is_xpsr = 0\<rparr>,
      priority = 0, th_state = THREAD_FREE, port_st = PORT_WAIT_LISTEN, expired_time = 0, exit_code = 0, vid = 0,
      trap = \<lparr>r0 = 0, r1 = 0, r2 = 0, r3 = 0, trap_state = SYSCALL_DONE\<rparr>,
      message = \<lparr>om_pid = 0, om_size = 0, om_ptr = 0, om_identity = zero_identity\<rparr>,
      pending_recv_msg = None, identity = zero_identity, join_th = None, waiting_queue = None,
      signal_pending = 0, signal_mask = 0, flags = 0, callid = 0\<rparr>"

definition zero_timer :: noza_timer_t where
  "zero_timer = \<lparr>tm_id = 0, owner_vid = 0, deadline = 0, period_us = 0, tm_flags = 0, pending_fires = 0,
     tm_in_use = False, armed = False\<rparr>"

text \<open>The three \<^verbatim>\<open>memset\<close> calls, and the scalars set after them.\<close>

definition clear_tables :: "kstate \<Rightarrow> kstate" where
  "clear_tables s =
     s\<lparr>running := (\<lambda>_. None), lists := (\<lambda>_. []), thread := (\<lambda>_. zero_thread), wqs := (\<lambda>_. []),
       slot := (\<lambda>_. []), free_vid_map := 0, next_tick_time := (\<lambda>_. 0),
       futex_slots := (\<lambda>_. \<lparr>fx_key = 0, fx_in_use = False\<rparr>), timers := (\<lambda>_. zero_timer),
       timer_q := [], timer_seq := 1, realtime_offset_us := 0\<rparr>"

fun init_threads :: "pid list \<Rightarrow> kstate \<Rightarrow> kstate res" where
  "init_threads [] s = Inr s"
| "init_threads (i # ps) s =
     bindE (noza_os_add_thread L_free i (upd_thread i (\<lambda>t. t\<lparr>waiting_queue := None\<rparr>) s)) (\<lambda>s1.
     init_threads ps (upd_thread i (\<lambda>t. t\<lparr>join_th := None, callid := 255, signal_pending := 0, signal_mask := 0\<rparr>) s1))"

fun init_timers :: "nat list \<Rightarrow> kstate \<Rightarrow> kstate" where
  "init_timers [] s = s"
| "init_timers (i # ts) s = init_timers ts (noza_wait_queue_init (W_timer i) s)"

definition noza_init :: "kstate \<Rightarrow> kstate res" where
  "noza_init s =
     bindE (init_threads [0..<NOZA_OS_TASK_LIMIT] (clear_tables s)) (\<lambda>s1.
     let s2 = init_timers [0..<NOZA_MAX_TIMERS] s1;
         s3 = s2\<lparr>free_vid_map := NOZA_OS_TASK_LIMIT\<rparr>
     in Inr (irq_bindings_init s3))"

text \<open>\<^verbatim>\<open>noza_run\<close> up to the loop of the scheduler; \<open>root\<close> is the address of \<^verbatim>\<open>noza_root_task\<close>.\<close>

definition noza_run :: "u32 \<Rightarrow> kstate \<Rightarrow> kstate res" where
  "noza_run root s =
     bindE (noza_os_thread_create root 0 0 NOZA_VID_AUTO s) (\<lambda>(_, _, s1).
     Inr (s1\<lparr>next_tick_time := (next_tick_time s1)(cpu s1 := 0)\<rparr>))"

section \<open>The invariant holds at the start\<close>

definition init_thread :: thread_t where
  "init_thread = zero_thread\<lparr>callid := 255\<rparr>"

lemma init_thread_sel [simp]:
  "th_state init_thread = THREAD_FREE" "priority init_thread = 0" "join_th init_thread = None"
  "waiting_queue init_thread = None" "vid init_thread = 0" "port_st init_thread = PORT_WAIT_LISTEN"
  by (simp_all add: init_thread_def zero_thread_def)

lemma init_threads_ok:
  assumes "distinct ps" and "set ps \<inter> set (lists s L_free) = {}" and "slot s = (\<lambda>_. [])"
    and "\<forall>p \<in> set ps. thread s p = zero_thread"
  shows "init_threads ps s = Inr (s\<lparr>lists := (lists s)(L_free := lists s L_free @ ps),
           thread := (\<lambda>p. if p \<in> set ps then init_thread else thread s p)\<rparr>)"
  using assms
proof (induction ps arbitrary: s)
  case Nil
  then show ?case by simp
next
  case (Cons i ps)
  have rm: "noza_os_remove_vid i x = x" if "slot x = (\<lambda>_. [])" "vid (thread x i) = 0" for x
  proof -
    have "(thread x i)\<lparr>vid := 0\<rparr> = thread x i" using that(2) by (cases "thread x i") simp
    with that(1) show ?thesis by (simp add: noza_os_remove_vid_def upd_thread_def Let_def)
  qed
  let ?s = "s\<lparr>lists := (lists s)(L_free := lists s L_free @ [i]), thread := (thread s)(i := init_thread)\<rparr>"
  have z: "thread s i = zero_thread" using Cons.prems(4) by simp
  have ni: "i \<notin> set (lists s L_free)" using Cons.prems(2) by auto
  have "bindE (noza_os_add_thread L_free i (upd_thread i (\<lambda>t. t\<lparr>waiting_queue := None\<rparr>) s)) (\<lambda>s1.
     init_threads ps (upd_thread i (\<lambda>t. t\<lparr>join_th := None, callid := 255, signal_pending := 0, signal_mask := 0\<rparr>) s1))
     = init_threads ps ?s"
    using Cons.prems(3) z ni
    by (simp add: noza_os_add_thread_def Let_def rm upd_thread_def upd_list_def init_thread_def zero_thread_def)
  also have "\<dots> = Inr (?s\<lparr>lists := (lists ?s)(L_free := lists ?s L_free @ ps),
           thread := (\<lambda>p. if p \<in> set ps then init_thread else thread ?s p)\<rparr>)"
    by (rule Cons.IH) (use Cons.prems in auto)
  finally show ?case by (simp add: fun_eq_iff)
qed

lemma init_timers_idle: "wqs s = (\<lambda>_. []) \<Longrightarrow> init_timers ts s = s"
proof (induction ts)
  case (Cons i ts)
  have "(wqs s)(W_timer i := []) = wqs s" using Cons.prems by (simp add: fun_eq_iff)
  then have "noza_wait_queue_init (W_timer i) s = s" by (simp add: noza_wait_queue_init_def upd_wq_def)
  with Cons show ?case by simp
qed simp

text \<open>The state after \<^verbatim>\<open>noza_init\<close>.\<close>

definition init_state :: "kstate \<Rightarrow> kstate" where
  "init_state s = irq_bindings_init ((clear_tables s)
     \<lparr>lists := (\<lambda>_. [])(L_free := [0..<NOZA_OS_TASK_LIMIT]),
      thread := (\<lambda>p. if p < NOZA_OS_TASK_LIMIT then init_thread else zero_thread),
      free_vid_map := NOZA_OS_TASK_LIMIT\<rparr>)"

lemma noza_init_eq: "noza_init s = Inr (init_state s)"
proof -
  let ?s = "clear_tables s"
  have "init_threads [0..<NOZA_OS_TASK_LIMIT] ?s = Inr (?s\<lparr>lists := (lists ?s)(L_free := lists ?s L_free @ [0..<NOZA_OS_TASK_LIMIT]),
      thread := (\<lambda>p. if p \<in> set [0..<NOZA_OS_TASK_LIMIT] then init_thread else thread ?s p)\<rparr>)"
    by (rule init_threads_ok) (simp_all add: clear_tables_def del: upt_rec_numeral)
  moreover have "lists ?s = (\<lambda>_. [])" "thread ?s = (\<lambda>_. zero_thread)" "wqs ?s = (\<lambda>_. [])"
    by (simp_all add: clear_tables_def)
  ultimately show ?thesis
    by (simp add: noza_init_def Let_def init_timers_idle init_state_def del: upt_rec_numeral cong: if_cong)
qed

lemma init_state_sel [simp]:
  "lists (init_state s) = (\<lambda>_. [])(L_free := [0..<NOZA_OS_TASK_LIMIT])" "wqs (init_state s) = (\<lambda>_. [])"
  "thread (init_state s) = (\<lambda>p. if p < NOZA_OS_TASK_LIMIT then init_thread else zero_thread)"
  "running (init_state s) = (\<lambda>_. None)" "slot (init_state s) = (\<lambda>_. [])"
  "free_vid_map (init_state s) = NOZA_OS_TASK_LIMIT" "next_vid (init_state s) = next_vid s"
  "futex_slots (init_state s) = (\<lambda>_. \<lparr>fx_key = 0, fx_in_use = False\<rparr>)" "timers (init_state s) = (\<lambda>_. zero_timer)"
  "timer_q (init_state s) = []" "irq_pending_bitmap (init_state s) = 0" "cpu (init_state s) = cpu s"
  "clock (init_state s) = clock s" "reserved_vid0_assigned (init_state s) = reserved_vid0_assigned s"
  by (simp_all add: init_state_def irq_bindings_init_def clear_tables_def del: upt_rec_numeral)

lemma init_kinv:
  assumes "next_vid s = 1"
  shows "kinv (init_state s)"
proof -
  let ?s = "init_state s"
  have pl: "on_lists ?s p = (if p < NOZA_OS_TASK_LIMIT then {L_free} else {})" "on_wqs ?s p = {}"
    "on_cores ?s p = {}" "joins ?s p = {}" for p
    by (auto simp: on_lists_def on_wqs_def on_cores_def joins_def simp del: upt_rec_numeral split: if_splits)
  have "sched_ok {} ?s"
    by (simp add: sched_ok_def thread_ok_def parked_def pl del: upt_rec_numeral)
  moreover have "prio_ok ?s" by (simp add: prio_ok_def)
  moreover have "owners_ok ?s" by (simp add: owners_ok_def)
  moreover have "used ?s = {}" by (auto simp: used_def)
  then have "vid_ok (used ?s) ?s"
    using assms by (simp add: vid_ok_def chain_inv_def get_thread_by_vid_def chain_lookup_def)
  moreover have "timers_ok ?s" by (simp add: timers_ok_def zero_timer_def)
  ultimately show ?thesis by (simp add: kinv_ex_def)
qed

theorem noza_init_safe:
  assumes "next_vid s = 1" and "clock s < 2 ^ 62"
  shows "ok (noza_init s) safe"
  using init_kinv [OF assms(1)] assms(2) by (simp add: noza_init_eq safe_def irq_ok_def)

lemma noza_run_ok:
  assumes s: "safe s" and c: "running s (cpu s) = None"
  shows "ok (noza_run root s) (\<lambda>s'. safe s' \<and> running s' = running s \<and> cpu s' = cpu s)"
proof -
  have inv: "kinv s" using s by (simp add: safe_def)
  from ok_value [OF thread_create_ok [OF inv, of root 0 0 NOZA_VID_AUTO]] obtain a b s1 where
    cr: "noza_os_thread_create root 0 0 NOZA_VID_AUTO s = Inr (a, b, s1)" "kinv s1" "running s1 = running s" by auto
  have m: "machine s1 = machine s" by (rule create_frame [OF cr(1)])
  from safe_machine [OF cr(2) m s] cr machine_cpu [OF m] show ?thesis
    by (simp add: noza_run_def safe_def irq_ok_def)
qed

end
