(* ===== verification/Noza_System.thy ===== *)
theory Noza_System
  imports Boot
begin

text \<open>
  The kernel as a transition system. A step is a section of \<^verbatim>\<open>noza_os_scheduler\<close> on one of the two cores,
  executed under the kernel lock, or something outside the kernel: a thread traps into it, an interrupt
  arrives, time passes, the other core gets its turn, user memory changes. The kernel's invariant holds in
  every state that can be reached from the start, and no section of the scheduler halts as long as the
  system calls it serves satisfy \<open>pending_call_ok\<close>.
\<close>

section \<open>The system\<close>

text \<open>The state in which \<^verbatim>\<open>main\<close> starts: the identifier counter has its initial value, and the clock is far
  from the end of its range.\<close>

definition powered_on :: "kstate \<Rightarrow> bool" where
  "powered_on s \<longleftrightarrow> next_vid s = 1 \<and> clock s < 2 ^ 62 \<and> cpu s < NOZA_OS_NUM_CORES"

definition noza_main :: "u32 \<Rightarrow> kstate \<Rightarrow> kstate res" where
  "noza_main root s = bindE (noza_init s) (noza_run root)"

definition booted :: "kstate \<Rightarrow> bool" where
  "booted s \<longleftrightarrow> (\<exists>root s0. powered_on s0 \<and> noza_main root s0 = Inr s)"

text \<open>A core that runs a thread comes back into the kernel through \<open>sched_back\<close>, a core that runs none is at
  the head of the loop.\<close>

inductive noza_step :: "kstate \<Rightarrow> kstate \<Rightarrow> bool" where
  pick: "running s (cpu s) = None \<Longrightarrow> sched_pick (cpu s) s = Inr s' \<Longrightarrow> noza_step s s'"
| return: "running s (cpu s) = Some r
    \<Longrightarrow> (\<forall>s1. sched_events (clock s) s = Inr s1 \<longrightarrow> pending_call_ok r s1)
    \<Longrightarrow> sched_back (cpu s) r s = Inr s' \<Longrightarrow> noza_step s s'"
| trap: "noza_step s (noza_os_trap_info a b c d s)"
| interrupt: "noza_step s (noza_irq_handle_from_isr irq s)"
| core: "c < NOZA_OS_NUM_CORES \<Longrightarrow> noza_step s (s\<lparr>cpu := c\<rparr>)"
| time: "clock s \<le> t \<Longrightarrow> t < 2 ^ 62 \<Longrightarrow> noza_step s (s\<lparr>clock := t\<rparr>)"
| memory: "noza_step s (s\<lparr>umem := m, umsg := um\<rparr>)"

inductive_cases noza_stepE: "noza_step s s'"

lemma trap_info_safe: "safe s \<Longrightarrow> safe (noza_os_trap_info a b c d s)"
  by (simp add: noza_os_trap_info_def safe_def irq_ok_def kinv_ex_irrelevant split: option.split)

lemma isr_clock: "clock (noza_irq_handle_from_isr irq s) = clock s"
  by (simp add: noza_irq_handle_from_isr_def Let_def)

lemma noza_step_safe:
  assumes s: "safe s" and st: "noza_step s s'"
  shows "safe s'"
  using st
proof cases
  case pick
  with ok_value [OF sched_pick_ok [OF s]] show ?thesis by auto
next
  case (return r)
  with ok_value [OF sched_back_ok [OF s return(1)]] show ?thesis by auto
next
  case trap
  then show ?thesis using trap_info_safe [OF s] by simp
next
  case interrupt
  then show ?thesis using irq_isr_ok s isr_clock by (simp add: safe_def)
next
  case core
  then show ?thesis using s by (simp add: safe_def irq_ok_def)
next
  case time
  then show ?thesis using s by (simp add: safe_def irq_ok_def)
next
  case (memory m um)
  then show ?thesis using s by (simp add: safe_def irq_ok_def)
qed

lemma booted_safe:
  assumes "booted s"
  shows "safe s"
proof -
  from assms obtain root s0 where p: "powered_on s0" and m: "noza_main root s0 = Inr s"
    by (auto simp: booted_def)
  from p have "safe (init_state s0)" using noza_init_safe [of s0] by (simp add: powered_on_def noza_init_eq)
  from noza_run_ok [OF this, of root] m show ?thesis
    by (auto simp: noza_main_def noza_init_eq ok_def)
qed

interpretation noza: invariant_system booted noza_step safe
  by unfold_locales (fact booted_safe, fact noza_step_safe)

section \<open>Properties of all reachable states\<close>

lemma demo_booted: "\<exists>s. booted s \<and> running s (cpu s) = None"
proof -
  let ?s = "demo\<lparr>next_vid := 1\<rparr>"
  have p: "powered_on ?s" by (simp add: powered_on_def)
  have "safe (init_state ?s)" using noza_init_safe [of ?s] by (simp add: noza_init_eq)
  from ok_value [OF noza_run_ok [OF this, of "0x10000100"]] obtain s where
    "noza_run 0x10000100 (init_state ?s) = Inr s" "running s (cpu s) = None" by auto
  moreover from this(1) p have "booted s"
    unfolding booted_def by (intro exI [of _ "0x10000100"] exI [of _ ?s]) (simp add: noza_main_def noza_init_eq)
  ultimately show ?thesis by blast
qed


lemma pick_reached:
  assumes "safe s" "running s (cpu s) = None"
  obtains s' where "sched_pick (cpu s) s = Inr s'" "noza_step\<^sup>*\<^sup>* s s'"
  using ok_value [OF sched_pick_ok [OF assms]] noza_step.pick [OF assms(2)] by blast




text \<open>C35: The system comes up: from power-on, whatever memory holds otherwise, initialisation and start end with the
  root thread ready at the highest priority at its entry point, under an identifier by which it is found, with the
  default credentials, and with no thread running on the core.\<close>

theorem boot_root_thread:
  assumes "powered_on s"
  shows "\<exists>v s'. noza_main root s = Inr s' \<and> kinv s' \<and> running s' = (\<lambda>_. None) \<and> get_thread_by_vid v s' = Some 0
    \<and> th_state (thread s' 0) = THREAD_READY \<and> priority (thread s' 0) = 0 \<and> is_pc (frame (thread s' 0)) = root
    \<and> identity (thread s' 0) = k_default_identity"
proof -
  let ?s = "init_state s"
  have k: "kinv ?s" using assms init_kinv by (simp add: powered_on_def)
  have f: "lists ?s L_free = 0 # [1..<32]" by (simp add: upt_rec)
  have p: "(0 :: u32) < of_nat NOZA_OS_PRIORITY_LIMIT" by simp
  from ok_value [OF thread_create_success [OF k p f, of root 0 NOZA_VID_AUTO]] obtain v s' where
    "noza_os_thread_create root 0 0 NOZA_VID_AUTO ?s = Inr (0, Some v, s')" "kinv s'" "running s' = running ?s"
    "created root 0 0 0 v ?s s'" by auto
  then show ?thesis
    by (intro exI [of _ v] exI [of _ "s'\<lparr>next_tick_time := (next_tick_time s')(cpu s' := 0)\<rparr>"])
       (simp add: noza_main_def noza_init_eq noza_run_def created_def get_thread_by_vid_def)
qed

theorem boot_root_thread_witness:
  "\<exists>s'. noza_main 0x10000100 (demo\<lparr>next_vid := 1\<rparr>) = Inr s' \<and> th_state (thread s' 0) = THREAD_READY
    \<and> is_pc (frame (thread s' 0)) = 0x10000100"
proof -
  have "powered_on (demo\<lparr>next_vid := 1\<rparr>)" by (simp add: powered_on_def)
  from boot_root_thread [OF this, of "0x10000100"] show ?thesis by blast
qed

end
