(* ===== verification/String_Map.thy ===== *)
theory String_Map
  imports Noza_Prelude "HOL-Library.List_Lexorder"
begin

text \<open>
  The ordered map from names to numbers of the name server (\<^verbatim>\<open>service/name_lookup/string_map.c\<close>): a
  height-balanced search tree whose keys are C strings compared with \<^verbatim>\<open>strncmp\<close> over 16 characters. The
  model keeps the recorded heights, the reads through null children, and the number of unused nodes of the
  node manager of \<^verbatim>\<open>service/name_lookup/name_lookup_server.c\<close>; nodes are never shared, so a subtree is a
  value. The lemmas show that an insertion is an update of the finite map and keeps the tree balanced, that a
  removal takes exactly the key out and keeps the balance, and what a removal does to the values.
\<close>

section \<open>C strings\<close>

text \<open>The character at a position of a string, which is 0 from the end on.\<close>

definition ch :: "string \<Rightarrow> nat" where
  "ch s = (case s of [] \<Rightarrow> 0 | c # _ \<Rightarrow> of_char c)"

fun strncmp :: "string \<Rightarrow> string \<Rightarrow> nat \<Rightarrow> int" where
  "strncmp a b 0 = 0"
| "strncmp a b (Suc n) =
     (if ch a \<noteq> ch b then int (ch a) - int (ch b)
      else if ch a = 0 then 0
      else strncmp (tl a) (tl b) n)"

text \<open>What \<^verbatim>\<open>strncpy\<close> with bound \<open>n\<close> leaves in a field that is zero beyond it.\<close>

definition strncpy :: "string \<Rightarrow> nat \<Rightarrow> string" where
  "strncpy s n = take n (takeWhile (\<lambda>c. of_char c \<noteq> (0 :: nat)) s)"

fun strnlen :: "string \<Rightarrow> nat \<Rightarrow> nat" where
  "strnlen s 0 = 0"
| "strnlen s (Suc n) = (if ch s = 0 then 0 else Suc (strnlen (tl s) n))"

text \<open>The part of a string that \<^verbatim>\<open>strncmp\<close> looks at, as a list of numbers; such lists are ordered
  lexicographically.\<close>

definition ckey :: "nat \<Rightarrow> string \<Rightarrow> nat list" where
  "ckey n s = take n (takeWhile ((\<noteq>) 0) (map of_char s))"

lemma ch_Nil [simp]: "ch [] = 0" and ch_Cons [simp]: "ch (c # s) = of_char c"
  by (simp_all add: ch_def)

lemma ckey_0 [simp]: "ckey 0 s = []"
  by (simp add: ckey_def)

lemma ckey_Suc: "ckey (Suc n) s = (if ch s = 0 then [] else ch s # ckey n (tl s))"
  by (cases s) (simp_all add: ckey_def)

lemma strncmp_less: "strncmp a b n < 0 \<longleftrightarrow> ckey n a < ckey n b"
proof (induction n arbitrary: a b)
  case 0
  then show ?case by simp
next
  case (Suc n)
  show ?case by (simp add: ckey_Suc Suc.IH)
qed

lemma strncmp_greater: "strncmp a b n > 0 \<longleftrightarrow> ckey n b < ckey n a"
proof (induction n arbitrary: a b)
  case 0
  then show ?case by simp
next
  case (Suc n)
  show ?case by (simp add: ckey_Suc Suc.IH)
qed

lemma strncmp_eq: "strncmp a b n = 0 \<longleftrightarrow> ckey n a = ckey n b"
  using strncmp_less [of a b n] strncmp_greater [of a b n] by force

lemma ckey_strncpy [simp]: "ckey n (strncpy s n) = ckey n s"
proof (induction n arbitrary: s)
  case 0
  then show ?case by simp
next
  case (Suc n)
  show ?case
  proof (cases s)
    case (Cons c cs)
    then show ?thesis using Suc.IH [of cs] by (simp add: ckey_Suc strncpy_def)
  qed (simp add: ckey_Suc strncpy_def)
qed

lemma strnlen_ckey: "strnlen s n = length (ckey n s)"
  by (induction n arbitrary: s) (simp_all add: ckey_Suc)

section \<open>Operations\<close>

abbreviation "MAX_NAME_LEN \<equiv> (16 :: nat)"

datatype value_node_t = Null | Node value_node_t string u32 int value_node_t

text \<open>\<^verbatim>\<open>new_node\<close>; the second component is the number of unused nodes of the node manager.\<close>

definition new_node :: "string \<Rightarrow> u32 \<Rightarrow> nat \<Rightarrow> value_node_t \<times> nat" where
  "new_node k v n = (if n = 0 then (Null, 0) else (Node Null (strncpy k MAX_NAME_LEN) v 1 Null, n - 1))"

fun get_height :: "value_node_t \<Rightarrow> int" where
  "get_height Null = 0"
| "get_height (Node l k v h r) = h"

fun get_balance :: "value_node_t \<Rightarrow> int" where
  "get_balance Null = 0"
| "get_balance (Node l k v h r) = get_height l - get_height r"

text \<open>The assignment of the height in terms of the heights of the children.\<close>

definition height_of :: "value_node_t \<Rightarrow> value_node_t \<Rightarrow> int" where
  "height_of l r = 1 + (if get_height l > get_height r then get_height l else get_height r)"

fun right_rotate :: "value_node_t \<Rightarrow> value_node_t res" where
  "right_rotate (Node (Node a kx vx hx t2) ky vy hy r) =
     (let y = Node t2 ky vy (height_of t2 r) r in Inr (Node a kx vx (height_of a y) y))"
| "right_rotate _ = Inl Null_deref"

fun left_rotate :: "value_node_t \<Rightarrow> value_node_t res" where
  "left_rotate (Node l kx vx hx (Node t2 ky vy hy b)) =
     (let x = Node l kx vx (height_of l t2) t2 in Inr (Node x ky vy (height_of x b) b))"
| "left_rotate _ = Inl Null_deref"

text \<open>The key of a node; \<open>nk\<close> is the text found at address 0, which is read for the key of a missing
  child.\<close>

fun node_key :: "string \<Rightarrow> value_node_t \<Rightarrow> string" where
  "node_key nk Null = nk"
| "node_key nk (Node l k v h r) = k"

text \<open>The second half of \<^verbatim>\<open>insert_value\<close>: height and rotations of the node on the way back.\<close>

definition insert_balance :: "string \<Rightarrow> string \<Rightarrow> value_node_t \<Rightarrow> string \<Rightarrow> u32 \<Rightarrow> value_node_t \<Rightarrow> value_node_t res" where
  "insert_balance nk key l k v r =
     (let h = height_of l r;
          balance = get_balance (Node l k v h r);
          cmp_key_left = strncmp key (node_key nk l) MAX_NAME_LEN;
          cmp_key_right = strncmp key (node_key nk r) MAX_NAME_LEN
      in if balance > 1 \<and> cmp_key_left < 0 then right_rotate (Node l k v h r)
         else if balance < - 1 \<and> cmp_key_right > 0 then left_rotate (Node l k v h r)
         else if balance > 1 \<and> cmp_key_left > 0 then
           bindE (left_rotate l) (\<lambda>l'. right_rotate (Node l' k v h r))
         else if balance < - 1 \<and> cmp_key_right < 0 then
           bindE (right_rotate r) (\<lambda>r'. left_rotate (Node l k v h r'))
         else Inr (Node l k v h r))"

fun insert_value :: "string \<Rightarrow> value_node_t \<Rightarrow> string \<Rightarrow> u32 \<Rightarrow> nat \<Rightarrow> (value_node_t \<times> nat) res" where
  "insert_value nk Null key v n = Inr (new_node key v n)"
| "insert_value nk (Node l k w h r) key v n =
     (let cmp_key = strncmp key k MAX_NAME_LEN
      in if cmp_key < 0 then
           bindE (insert_value nk l key v n) (\<lambda>(l', m).
           bindE (insert_balance nk key l' k w r) (\<lambda>t. Inr (t, m)))
         else if cmp_key > 0 then
           bindE (insert_value nk r key v n) (\<lambda>(r', m).
           bindE (insert_balance nk key l k w r') (\<lambda>t. Inr (t, m)))
         else Inr (Node l k w h r, n))"

fun min_value_node :: "value_node_t \<Rightarrow> string res" where
  "min_value_node Null = Inl Null_deref"
| "min_value_node (Node Null k v h r) = Inr k"
| "min_value_node (Node (Node a ka va ha b) k v h r) = min_value_node (Node a ka va ha b)"

text \<open>The second half of \<^verbatim>\<open>remove_value\<close>.\<close>

definition remove_balance :: "value_node_t \<Rightarrow> string \<Rightarrow> u32 \<Rightarrow> value_node_t \<Rightarrow> value_node_t res" where
  "remove_balance l k v r =
     (let h = height_of l r;
          balance = get_balance (Node l k v h r)
      in if balance > 1 \<and> get_balance l \<ge> 0 then right_rotate (Node l k v h r)
         else if balance > 1 \<and> get_balance l < 0 then
           bindE (left_rotate l) (\<lambda>l'. right_rotate (Node l' k v h r))
         else if balance < - 1 \<and> get_balance r \<le> 0 then left_rotate (Node l k v h r)
         else if balance < - 1 \<and> get_balance r > 0 then
           bindE (right_rotate r) (\<lambda>r'. left_rotate (Node l k v h r'))
         else Inr (Node l k v h r))"

text \<open>A removed node with two children takes the key of the next node, whose own node is removed instead;
  it keeps its value.\<close>

fun remove_value :: "value_node_t \<Rightarrow> string \<Rightarrow> nat \<Rightarrow> (value_node_t \<times> nat) res" where
  "remove_value Null key n = Inr (Null, n)"
| "remove_value (Node l k v h r) key n =
     (let cmp_key_root = strncmp key k MAX_NAME_LEN
      in if cmp_key_root < 0 then
           bindE (remove_value l key n) (\<lambda>(l', m). bindE (remove_balance l' k v r) (\<lambda>t. Inr (t, m)))
         else if cmp_key_root > 0 then
           bindE (remove_value r key n) (\<lambda>(r', m). bindE (remove_balance l k v r') (\<lambda>t. Inr (t, m)))
         else if l = Null \<or> r = Null then
           (case (if l \<noteq> Null then l else r) of
              Null \<Rightarrow> Inr (Null, n + 1)
            | Node a k' v' _ b \<Rightarrow> bindE (remove_balance a k' v' b) (\<lambda>t. Inr (t, n + 1)))
         else
           bindE (min_value_node r) (\<lambda>k'.
           bindE (remove_value r k' n) (\<lambda>(r', m).
           bindE (remove_balance l k' v r') (\<lambda>t. Inr (t, m)))))"

record simap_t =
  map_root :: value_node_t
  free_nodes :: nat

definition simap_init :: "nat \<Rightarrow> simap_t" where
  "simap_init n = \<lparr>map_root = Null, free_nodes = n\<rparr>"

fun get_loop :: "value_node_t \<Rightarrow> string \<Rightarrow> u32 option" where
  "get_loop Null key = None"
| "get_loop (Node l k v h r) key =
     (if strncmp key k MAX_NAME_LEN < 0 then get_loop l key
      else if strncmp key k MAX_NAME_LEN > 0 then get_loop r key
      else Some v)"

definition simap_get_value :: "simap_t \<Rightarrow> string \<Rightarrow> u32 option" where
  "simap_get_value m key = get_loop (map_root m) key"

text \<open>\<^verbatim>\<open>simap_set_value\<close> and \<^verbatim>\<open>simap_clear\<close> return an error number.\<close>

definition simap_set_value :: "string \<Rightarrow> simap_t \<Rightarrow> string \<Rightarrow> u32 \<Rightarrow> (u32 \<times> simap_t) res" where
  "simap_set_value nk m key v =
     (if free_nodes m = 0 then Inr (EAGAIN, m)
      else if simap_get_value m key \<noteq> None then Inr (EBUSY, m)
      else
        bindE (insert_value nk (map_root m) key v (free_nodes m)) (\<lambda>(t, n).
        Inr (0, \<lparr>map_root = t, free_nodes = n\<rparr>)))"

definition simap_clear :: "simap_t \<Rightarrow> string \<Rightarrow> (u32 \<times> simap_t) res" where
  "simap_clear m key =
     (if simap_get_value m key = None then Inr (ENOENT, m)
      else
        bindE (remove_value (map_root m) key (free_nodes m)) (\<lambda>(t, n).
        Inr (0, \<lparr>map_root = t, free_nodes = n\<rparr>)))"

definition simap_min_key :: "simap_t \<Rightarrow> string res" where
  "simap_min_key m = min_value_node (map_root m)"

fun max_loop :: "value_node_t \<Rightarrow> string res" where
  "max_loop Null = Inl Null_deref"
| "max_loop (Node l k v h Null) = Inr k"
| "max_loop (Node l k v h (Node a k' v' h' b)) = max_loop (Node a k' v' h' b)"

definition simap_max_key :: "simap_t \<Rightarrow> string res" where
  "simap_max_key m = max_loop (map_root m)"

section \<open>Order and balance\<close>

text \<open>The entries of a tree from left to right, the search-tree order, and the balance with the recorded
  heights.\<close>

abbreviation nkey :: "string \<Rightarrow> nat list" where
  "nkey \<equiv> ckey MAX_NAME_LEN"

fun inorder :: "value_node_t \<Rightarrow> (nat list \<times> u32) list" where
  "inorder Null = []"
| "inorder (Node l k v h r) = inorder l @ (nkey k, v) # inorder r"

definition keys :: "value_node_t \<Rightarrow> nat list set" where
  "keys t = fst ` set (inorder t)"

definition bst :: "value_node_t \<Rightarrow> bool" where
  "bst t \<longleftrightarrow> sorted_wrt (<) (map fst (inorder t))"

fun avl :: "value_node_t \<Rightarrow> bool" where
  "avl Null \<longleftrightarrow> True"
| "avl (Node l k v h r) \<longleftrightarrow>
     avl l \<and> avl r \<and> h = height_of l r \<and> \<bar>get_height l - get_height r\<bar> \<le> 1"

lemma keys_simps [simp]: "keys Null = {}" "keys (Node l k v h r) = insert (nkey k) (keys l \<union> keys r)"
  by (auto simp: keys_def)

lemma bst_Null [simp]: "bst Null"
  by (simp add: bst_def)

lemma bst_Node: "bst (Node l k v h r) \<longleftrightarrow>
    bst l \<and> bst r \<and> (\<forall>x\<in>keys l. x < nkey k) \<and> (\<forall>x\<in>keys r. nkey k < x)"
  by (fastforce simp: bst_def keys_def sorted_wrt_append dest: less_trans)

lemma bst_distinct: "bst t \<Longrightarrow> distinct (map fst (inorder t))"
  by (simp add: bst_def strict_sorted_iff)

lemma avl_height: "avl t \<Longrightarrow> get_height t \<ge> 0"
  by (induction t) (auto simp: height_of_def)

lemma avl_height_pos: "avl (Node l k v h r) \<Longrightarrow> h \<ge> 1"
  using avl_height [of l] avl_height [of r] by (auto simp: height_of_def)

lemma right_rotate_inorder: "right_rotate t = Inr t' \<Longrightarrow> inorder t' = inorder t"
  by (cases t rule: right_rotate.cases) (auto simp: Let_def)

lemma left_rotate_inorder: "left_rotate t = Inr t' \<Longrightarrow> inorder t' = inorder t"
  by (cases t rule: left_rotate.cases) (auto simp: Let_def)

lemma keys_inorder: "inorder t' = inorder t \<Longrightarrow> keys t' = keys t"
  by (simp add: keys_def)

lemma bst_inorder: "inorder t' = inorder t \<Longrightarrow> bst t' = bst t"
  by (simp add: bst_def)

text \<open>The four rotations of a node whose left, or right, child is two higher than the other.\<close>

lemma rotate_right_ok:
  assumes "avl l" "avl r" "get_height l = get_height r + 2" "get_balance l \<ge> 0"
  shows "\<exists>t'. right_rotate (Node l k v h r) = Inr t' \<and> avl t'
    \<and> inorder t' = inorder l @ (nkey k, v) # inorder r
    \<and> get_height t' = get_height l + (if get_balance l = 0 then 1 else 0)"
proof (cases l)
  case (Node a kx vx hx b)
  with assms avl_height [of r] show ?thesis by (auto simp: Let_def height_of_def split: if_splits)
qed (use assms avl_height [of r] in auto)

lemma rotate_left_ok:
  assumes "avl l" "avl r" "get_height r = get_height l + 2" "get_balance r \<le> 0"
  shows "\<exists>t'. left_rotate (Node l k v h r) = Inr t' \<and> avl t'
    \<and> inorder t' = inorder l @ (nkey k, v) # inorder r
    \<and> get_height t' = get_height r + (if get_balance r = 0 then 1 else 0)"
proof (cases r)
  case (Node a kx vx hx b)
  with assms avl_height [of l] show ?thesis by (auto simp: Let_def height_of_def split: if_splits)
qed (use assms avl_height [of l] in auto)

lemma rotate_left_right_ok:
  assumes "avl l" "avl r" "get_height l = get_height r + 2" "get_balance l < 0"
  shows "\<exists>t'. bindE (left_rotate l) (\<lambda>l'. right_rotate (Node l' k v h r)) = Inr t' \<and> avl t'
    \<and> inorder t' = inorder l @ (nkey k, v) # inorder r \<and> get_height t' = get_height l"
proof (cases l)
  case l: (Node a kx vx hx b)
  show ?thesis
  proof (cases b)
    case (Node c ky vy hy d)
    with l assms avl_height [of r] avl_height [of a] avl_height [of c] avl_height [of d] show ?thesis
      by (auto simp: Let_def height_of_def split: if_splits)
  qed (use l assms avl_height [of a] in auto)
qed (use assms in auto)

lemma rotate_right_left_ok:
  assumes "avl l" "avl r" "get_height r = get_height l + 2" "get_balance r > 0"
  shows "\<exists>t'. bindE (right_rotate r) (\<lambda>r'. left_rotate (Node l k v h r')) = Inr t' \<and> avl t'
    \<and> inorder t' = inorder l @ (nkey k, v) # inorder r \<and> get_height t' = get_height r"
proof (cases r)
  case r: (Node a kx vx hx b)
  show ?thesis
  proof (cases a)
    case (Node c ky vy hy d)
    with r assms avl_height [of l] avl_height [of b] avl_height [of c] avl_height [of d] show ?thesis
      by (auto simp: Let_def height_of_def split: if_splits)
  qed (use r assms avl_height [of b] in auto)
qed (use assms in auto)

text \<open>After an insertion that made a tree higher, the key is on the higher side.\<close>

definition leans :: "string \<Rightarrow> string \<Rightarrow> value_node_t \<Rightarrow> bool" where
  "leans nk key t \<longleftrightarrow>
     strncmp key (node_key nk t) MAX_NAME_LEN < 0 \<and> get_balance t = 1
     \<or> strncmp key (node_key nk t) MAX_NAME_LEN > 0 \<and> get_balance t = - 1"

lemma insert_balance_ok:
  assumes a: "avl l" "avl r" and d: "\<bar>get_height l - get_height r\<bar> \<le> 2"
    and L: "get_height l = get_height r + 2 \<Longrightarrow> leans nk key l"
    and R: "get_height r = get_height l + 2 \<Longrightarrow> leans nk key r"
  shows "\<exists>t'. insert_balance nk key l k v r = Inr t' \<and> avl t'
    \<and> inorder t' = inorder l @ (nkey k, v) # inorder r
    \<and> (if \<bar>get_height l - get_height r\<bar> = 2 then get_height t' = height_of l r - 1
       else t' = Node l k v (height_of l r) r)"
proof -
  consider (bal) "\<bar>get_height l - get_height r\<bar> \<le> 1" | (l) "get_height l = get_height r + 2"
    | (r) "get_height r = get_height l + 2" using d by linarith
  then show ?thesis
  proof cases
    case bal
    with a show ?thesis by (auto simp: insert_balance_def Let_def)
  next
    case l
    from L [OF l] rotate_right_ok [OF a l, of k v "height_of l r"] rotate_left_right_ok [OF a l, of k v "height_of l r"]
    show ?thesis using l by (auto simp: leans_def insert_balance_def Let_def height_of_def)
  next
    case r
    from R [OF r] rotate_left_ok [OF a r, of k v "height_of l r"] rotate_right_left_ok [OF a r, of k v "height_of l r"]
    show ?thesis using r by (auto simp: leans_def insert_balance_def Let_def height_of_def)
  qed
qed

section \<open>The tree as a finite map\<close>

definition vals :: "value_node_t \<Rightarrow> (nat list \<rightharpoonup> u32)" where
  "vals t = map_of (inorder t)"

lemma dom_vals: "dom (vals t) = keys t"
  by (simp add: vals_def keys_def dom_map_of_conv_image_fst)

lemma vals_Null [simp]: "vals Null = Map.empty"
  by (simp add: vals_def)

lemma vals_None: "y \<notin> keys t \<Longrightarrow> vals t y = None"
  using dom_vals [of t] by blast

lemma vals_add: "vals (Node l k v h r) = (vals r)(nkey k \<mapsto> v) ++ vals l"
  by (simp add: vals_def)

lemma vals_Node:
  assumes "bst (Node l k v h r)"
  shows "vals (Node l k v h r) y = (if y < nkey k then vals l y else if y = nkey k then Some v else vals r y)"
proof -
  have "y \<notin> keys l" if "\<not> y < nkey k" using assms that by (auto simp: bst_Node)
  moreover have "y \<notin> keys r" if "y < nkey k" using assms that by (auto simp: bst_Node)
  ultimately show ?thesis
    by (auto simp: vals_add map_add_def vals_None split: option.split)
qed

lemma vals_inorder: "inorder t' = inorder t \<Longrightarrow> vals t' = vals t"
  by (simp add: vals_def)

lemma get_loop_vals: "bst t \<Longrightarrow> get_loop t key = vals t (nkey key)"
  by (induction t) (auto simp: vals_Node strncmp_less strncmp_greater bst_Node)

section \<open>Insertion\<close>

definition inserted :: "string \<Rightarrow> string \<Rightarrow> u32 \<Rightarrow> value_node_t \<Rightarrow> value_node_t \<Rightarrow> bool" where
  "inserted nk key v t t' \<longleftrightarrow> avl t' \<and> bst t' \<and> keys t' = insert (nkey key) (keys t)
     \<and> vals t' = (vals t)(nkey key \<mapsto> v)
     \<and> (get_height t' = get_height t \<or> get_height t' = get_height t + 1 \<and> (t = Null \<or> leans nk key t'))"

lemma insert_left:
  assumes t: "avl (Node l k w h r)" "bst (Node l k w h r)" and lt: "nkey key < nkey k"
    and l': "inserted nk key v l l'"
  shows "\<exists>t'. insert_balance nk key l' k w r = Inr t' \<and> inserted nk key v (Node l k w h r) t'"
proof -
  note l' = l'[unfolded inserted_def] and av = t(1)[simplified]
  from insert_balance_ok [of l' r nk key k w] l' av avl_height [of r] obtain t' where
      t': "insert_balance nk key l' k w r = Inr t'" "avl t'" "inorder t' = inorder (Node l' k w h r)"
      "if \<bar>get_height l' - get_height r\<bar> = 2 then get_height t' = height_of l' r - 1
       else t' = Node l' k w (height_of l' r) r" by fastforce
  have b: "bst (Node l' k w h r)" using t(2) l' lt by (auto simp: bst_Node)
  have "vals t' = (vals (Node l k w h r))(nkey key \<mapsto> v)"
    using l' lt by (auto simp: fun_eq_iff vals_inorder [OF t'(3)] vals_Node [OF b] vals_Node [OF t(2)])
  moreover have "get_height t' = h \<or> get_height t' = h + 1 \<and> leans nk key t'"
    using l' t'(4) av lt by (auto simp: height_of_def leans_def strncmp_less split: if_splits)
  ultimately show ?thesis
    using t' l' b by (simp add: inserted_def keys_inorder [OF t'(3)] bst_inorder [OF t'(3)] insert_commute)
qed

lemma insert_right:
  assumes t: "avl (Node l k w h r)" "bst (Node l k w h r)" and gt: "nkey k < nkey key"
    and r': "inserted nk key v r r'"
  shows "\<exists>t'. insert_balance nk key l k w r' = Inr t' \<and> inserted nk key v (Node l k w h r) t'"
proof -
  note r' = r'[unfolded inserted_def] and av = t(1)[simplified]
  from insert_balance_ok [of l r' nk key k w] r' av avl_height [of l] obtain t' where
      t': "insert_balance nk key l k w r' = Inr t'" "avl t'" "inorder t' = inorder (Node l k w h r')"
      "if \<bar>get_height l - get_height r'\<bar> = 2 then get_height t' = height_of l r' - 1
       else t' = Node l k w (height_of l r') r'" by fastforce
  have b: "bst (Node l k w h r')" using t(2) r' gt by (auto simp: bst_Node)
  have "vals t' = (vals (Node l k w h r))(nkey key \<mapsto> v)"
    using r' gt by (auto simp: fun_eq_iff vals_inorder [OF t'(3)] vals_Node [OF b] vals_Node [OF t(2)])
  moreover have "get_height t' = h \<or> get_height t' = h + 1 \<and> leans nk key t'"
    using r' t'(4) av gt by (auto simp: height_of_def leans_def strncmp_greater split: if_splits)
  ultimately show ?thesis
    using t' r' b by (simp add: inserted_def keys_inorder [OF t'(3)] bst_inorder [OF t'(3)] insert_commute)
qed

lemma insert_value_ok:
  assumes "avl t" "bst t" "nkey key \<notin> keys t" "0 < n"
  shows "\<exists>t'. insert_value nk t key v n = Inr (t', n - 1) \<and> inserted nk key v t t'"
  using assms
proof (induction t)
  case Null
  then show ?case by (simp add: inserted_def new_node_def height_of_def bst_Node vals_def fun_eq_iff)
next
  case (Node l k w h r)
  consider (lt) "nkey key < nkey k" | (gt) "nkey k < nkey key" using Node.prems(3) by fastforce
  then show ?case
  proof cases
    case lt
    from Node obtain l' where l': "insert_value nk l key v n = Inr (l', n - 1)" "inserted nk key v l l'"
      by (auto simp: bst_Node)
    from insert_left [OF Node.prems(1,2) lt l'(2)] l'(1) lt show ?thesis by (auto simp: Let_def strncmp_less)
  next
    case gt
    from Node obtain r' where r': "insert_value nk r key v n = Inr (r', n - 1)" "inserted nk key v r r'"
      by (auto simp: bst_Node)
    from insert_right [OF Node.prems(1,2) gt r'(2)] r'(1) gt show ?thesis
      by (auto simp: Let_def strncmp_less strncmp_greater)
  qed
qed

section \<open>Removal\<close>

lemma remove_balance_ok:
  assumes a: "avl l" "avl r" and d: "\<bar>get_height l - get_height r\<bar> \<le> 2"
  shows "\<exists>t'. remove_balance l k v r = Inr t' \<and> avl t' \<and> inorder t' = inorder (Node l k v h r)
    \<and> (get_height t' = height_of l r \<or> get_height t' = height_of l r - 1 \<and> \<bar>get_height l - get_height r\<bar> = 2)"
proof -
  consider (bal) "\<bar>get_height l - get_height r\<bar> \<le> 1" | (l) "get_height l = get_height r + 2"
    | (r) "get_height r = get_height l + 2" using d by linarith
  then show ?thesis
  proof cases
    case bal
    with a show ?thesis by (auto simp: remove_balance_def Let_def)
  next
    case l
    from rotate_right_ok [OF a l, of k v "height_of l r"] rotate_left_right_ok [OF a l, of k v "height_of l r"]
    show ?thesis using l by (cases "get_balance l \<ge> 0") (auto simp: remove_balance_def Let_def height_of_def)
  next
    case r
    from rotate_left_ok [OF a r, of k v "height_of l r"] rotate_right_left_ok [OF a r, of k v "height_of l r"]
    show ?thesis using r by (cases "get_balance r \<le> 0") (auto simp: remove_balance_def Let_def height_of_def)
  qed
qed

lemma min_value_node_ok:
  assumes "bst t" "t \<noteq> Null"
  shows "\<exists>k. min_value_node t = Inr k \<and> nkey k \<in> keys t \<and> (\<forall>y\<in>keys t. nkey k \<le> y)"
  using assms
proof (induction t rule: min_value_node.induct)
  case (3 a ka va ha b k v h r)
  let ?l = "Node a ka va ha b"
  from 3 obtain k' where k': "min_value_node ?l = Inr k'" "nkey k' \<in> keys ?l" "\<forall>y\<in>keys ?l. nkey k' \<le> y"
    by (metis bst_Node value_node_t.distinct(1))
  have "nkey k' < nkey k" "\<forall>y\<in>keys r. nkey k < y"
    using "3.prems"(1) k'(2) bst_Node [of ?l k v h r] by blast+
  then have "\<forall>y\<in>keys (Node ?l k v h r). nkey k' \<le> y"
    using k'(3) by (metis UnE insertE keys_simps(2) less_trans order_less_imp_le)
  with k'(1,2) show ?case by (intro exI [of _ k']) (simp only: min_value_node.simps keys_simps Un_iff insert_iff simp_thms)
qed (auto simp: bst_Node)

text \<open>The key that takes over the value of a removed node, if the node has two children.\<close>

fun heir :: "value_node_t \<Rightarrow> nat list \<Rightarrow> nat list option" where
  "heir Null x = None"
| "heir (Node l k v h r) x =
     (if x < nkey k then heir l x else if nkey k < x then heir r x
      else if l = Null \<or> r = Null then None
      else case min_value_node r of Inr k' \<Rightarrow> Some (nkey k') | Inl _ \<Rightarrow> None)"

definition inherit :: "nat list \<Rightarrow> nat list option \<Rightarrow> (nat list \<rightharpoonup> u32) \<Rightarrow> (nat list \<rightharpoonup> u32)" where
  "inherit x y m = (case y of None \<Rightarrow> m(x := None) | Some z \<Rightarrow> m(x := None, z := m x))"

definition removed :: "nat list \<Rightarrow> value_node_t \<Rightarrow> value_node_t \<Rightarrow> bool" where
  "removed x t t' \<longleftrightarrow> avl t' \<and> bst t' \<and> keys t' = keys t - {x} \<and> vals t' = inherit x (heir t x) (vals t)
     \<and> (get_height t' = get_height t \<or> get_height t' = get_height t - 1)"

lemma heir_min: "bst t \<Longrightarrow> (\<forall>y\<in>keys t. x \<le> y) \<Longrightarrow> heir t x = None"
proof (induction t)
  case (Node l k v h r)
  note bst = Node.prems(1)[unfolded bst_Node]
  have le: "\<forall>y\<in>keys l. x \<le> y" "x \<le> nkey k" using Node.prems(2) by simp_all
  show ?case
  proof (cases l)
    case Null
    with le(2) bst show ?thesis by auto
  next
    case (Node a k' v' h' b)
    then have "nkey k' \<in> keys l" by simp
    with le(1) bst have "x < nkey k" by (blast intro: le_less_trans)
    with Node.IH(1) bst le(1) show ?thesis by simp
  qed
qed simp

lemma heir_in: "bst t \<Longrightarrow> heir t x = Some y \<Longrightarrow> y \<in> keys t \<and> x < y"
proof (induction t)
  case (Node l k v h r)
  note bst = Node.prems(1)[unfolded bst_Node]
  consider (l) "x < nkey k" "heir l x = Some y" | (r) "nkey k < x" "\<not> x < nkey k" "heir r x = Some y"
    | (e) k' where "x = nkey k" "r \<noteq> Null" "min_value_node r = Inr k'" "y = nkey k'"
    using Node.prems(2) by (auto split: if_splits sum.splits)
  then show ?case
  proof cases
    case e
    with min_value_node_ok [of r] bst show ?thesis by auto
  qed (use Node.IH bst in simp_all)
qed simp

lemma inherit_apply: "inherit x y m z = (if y = Some z then m x else if z = x then None else m z)"
  by (auto simp: inherit_def split: option.split)

lemma removedD:
  assumes "removed x t t'"
  shows "avl t'" "bst t'" "keys t' = keys t - {x}" "vals t' = inherit x (heir t x) (vals t)"
    "get_height t' = get_height t \<or> get_height t' = get_height t - 1"
  using assms by (simp_all add: removed_def)

text \<open>What is left to show of a removal when the node on the way back is rebalanced.\<close>

lemma remove_settle:
  assumes "avl l" "avl r" "bst (Node l k v h r)"
    and keys: "keys (Node l k v h r) = keys t - {x}" and vals: "vals (Node l k v h r) = inherit x (heir t x) (vals t)"
    and h: "height_of l r = get_height t \<and> \<bar>get_height l - get_height r\<bar> \<le> 2
      \<or> height_of l r = get_height t - 1 \<and> \<bar>get_height l - get_height r\<bar> \<le> 1"
  shows "\<exists>t'. remove_balance l k v r = Inr t' \<and> removed x t t'"
proof -
  have "\<bar>get_height l - get_height r\<bar> \<le> 2" using h by auto
  from remove_balance_ok [OF assms(1,2) this, of k v h] obtain t' where
      t': "remove_balance l k v r = Inr t'" "avl t'" "inorder t' = inorder (Node l k v h r)"
      "get_height t' = height_of l r \<or> get_height t' = height_of l r - 1 \<and> \<bar>get_height l - get_height r\<bar> = 2" by blast
  have "get_height t' = get_height t \<or> get_height t' = get_height t - 1" using t'(4) h by linarith
  with t'(1,2) assms(3) keys vals show ?thesis
    by (simp add: removed_def keys_inorder [OF t'(3)] bst_inorder [OF t'(3)] vals_inorder [OF t'(3)])
qed

text \<open>The balance of a node one of whose children lost at most one level.\<close>

lemma shrunk:
  assumes "avl (Node l k v h r)" "get_height l' = get_height l \<or> get_height l' = get_height l - 1"
    "get_height r' = get_height r \<or> get_height r' = get_height r - 1" "get_height l' = get_height l \<or> get_height r' = get_height r"
  shows "height_of l' r' = get_height (Node l k v h r) \<and> \<bar>get_height l' - get_height r'\<bar> \<le> 2
    \<or> height_of l' r' = get_height (Node l k v h r) - 1 \<and> \<bar>get_height l' - get_height r'\<bar> \<le> 1"
  using assms by (auto simp: height_of_def)

lemma remove_left:
  assumes t: "avl (Node l k v h r)" "bst (Node l k v h r)" and lt: "x < nkey k" and l': "removed x l l'"
  shows "\<exists>t'. remove_balance l' k v r = Inr t' \<and> removed x (Node l k v h r) t'"
proof (rule remove_settle)
  note l' = removedD [OF l'] and bst = t(2)[unfolded bst_Node]
  show "avl l'" "avl r" using l'(1) t(1) by simp_all
  show b: "bst (Node l' k v h r)" using bst l'(2,3) by (simp add: bst_Node)
  have "x \<notin> keys r" "x \<noteq> nkey k" using bst lt by auto
  then show "keys (Node l' k v h r) = keys (Node l k v h r) - {x}" using l'(3) by auto
  show "vals (Node l' k v h r) = inherit x (heir (Node l k v h r) x) (vals (Node l k v h r))"
  proof
    fix y
    have "heir l x \<noteq> Some y \<and> y \<noteq> x" if "\<not> y < nkey k" using heir_in [of l x y] that bst lt by auto
    then show "vals (Node l' k v h r) y = inherit x (heir (Node l k v h r) x) (vals (Node l k v h r)) y"
      using l'(4) lt by (simp add: inherit_apply vals_Node [OF b] vals_Node [OF t(2)])
  qed
qed (use shrunk [OF t(1)] removedD(5) [OF l'] in blast)

lemma remove_right:
  assumes t: "avl (Node l k v h r)" "bst (Node l k v h r)" and gt: "nkey k < x" and r': "removed x r r'"
  shows "\<exists>t'. remove_balance l k v r' = Inr t' \<and> removed x (Node l k v h r) t'"
proof (rule remove_settle)
  note r' = removedD [OF r'] and bst = t(2)[unfolded bst_Node]
  have x: "\<not> x < nkey k" "x \<noteq> nkey k" using gt by (auto dest: less_asym)
  show "avl l" "avl r'" using r'(1) t(1) by simp_all
  show b: "bst (Node l k v h r')" using bst r'(2,3) by (simp add: bst_Node)
  have "x \<notin> keys l" using bst x by auto
  then show "keys (Node l k v h r') = keys (Node l k v h r) - {x}" using r'(3) x by auto
  show "vals (Node l k v h r') = inherit x (heir (Node l k v h r) x) (vals (Node l k v h r))"
  proof
    fix y
    have "heir r x \<noteq> Some y \<and> y \<noteq> x" if "\<not> nkey k < y" using heir_in [of r x y] that bst gt by auto
    then show "vals (Node l k v h r') y = inherit x (heir (Node l k v h r) x) (vals (Node l k v h r)) y"
      using r'(4) gt x less_asym [of "nkey k" y] heir_in [of r x "nkey k"] bst by (auto simp: inherit_apply vals_Node [OF b] vals_Node [OF t(2)])
  qed
qed (use shrunk [OF t(1)] removedD(5) [OF r'] in blast)

lemma remove_inner:
  assumes t: "avl (Node l k v h r)" "bst (Node l k v h r)" and ne: "l \<noteq> Null" "r \<noteq> Null"
    and m: "min_value_node r = Inr k'" and r': "removed (nkey k') r r'"
  shows "\<exists>t'. remove_balance l k' v r' = Inr t' \<and> removed (nkey k) (Node l k v h r) t'"
proof (rule remove_settle)
  note r' = removedD [OF r'] and bst = t(2)[unfolded bst_Node]
  have mr: "nkey k' \<in> keys r" "\<forall>y\<in>keys r. nkey k' \<le> y" using min_value_node_ok [of r] bst ne m by auto
  have kk: "nkey k < nkey k'" using mr(1) bst by simp
  have h: "heir r (nkey k') = None" "heir (Node l k v h r) (nkey k) = Some (nkey k')"
    using heir_min mr(2) bst ne m by simp_all
  have l: "\<forall>y\<in>keys l. y < nkey k'" "nkey k \<notin> keys l" "nkey k \<notin> keys r" using bst kk by (auto dest: less_trans)
  have "\<forall>y\<in>keys r'. nkey k' < y" using r'(3) mr(2) by force
  with bst r'(2) l(1) show b: "bst (Node l k' v h r')" by (simp add: bst_Node)
  show "avl l" "avl r'" using r'(1) t(1) by simp_all
  show "keys (Node l k' v h r') = keys (Node l k v h r) - {nkey k}" using r'(3) mr(1) l kk by auto
  show "vals (Node l k' v h r') = inherit (nkey k) (heir (Node l k v h r) (nkey k)) (vals (Node l k v h r))"
  proof
    fix y
    have "vals l y = None" if "\<not> y < nkey k" using that bst by (intro vals_None) auto
    moreover have "vals r y = None" if "y < nkey k'" using that mr(2) by (intro vals_None) auto
    ultimately show "vals (Node l k' v h r') y
        = inherit (nkey k) (heir (Node l k v h r) (nkey k)) (vals (Node l k v h r)) y"
      using r'(4) h kk vals_None [OF l(2)] less_asym [of y "nkey k"] less_trans [of y "nkey k" "nkey k'"]
      by (simp add: inherit_apply vals_Node [OF b] vals_Node [OF t(2)])
  qed
qed (use shrunk [OF t(1)] removedD(5) [OF r'] in blast)

lemma remove_leaf_side:
  assumes t: "avl (Node l k v h r)" "bst (Node l k v h r)" and e: "l = Null \<or> r = Null"
    and c: "(if l \<noteq> Null then l else r) = Node a k' v' h' b"
  shows "\<exists>t'. remove_balance a k' v' b = Inr t' \<and> removed (nkey k) (Node l k v h r) t'"
proof (rule remove_settle)
  let ?c = "Node a k' v' h' b"
  have lr: "l = ?c \<and> r = Null \<or> l = Null \<and> r = ?c" using e c by (auto split: if_splits)
  have c': "avl ?c" and bc: "bst ?c" and k: "nkey k \<notin> keys ?c" using t lr by (auto simp: bst_Node)
  show "avl a" "avl b" "bst ?c" using c' bc by simp_all
  show "keys ?c = keys (Node l k v h r) - {nkey k}" using lr k by auto
  have kc: "vals ?c (nkey k) = None" by (rule vals_None [OF k])
  then have "vals (Node l k v h r) = (vals ?c)(nkey k \<mapsto> v)"
    using lr by (auto simp: vals_add [of l k v h r] map_add_def fun_eq_iff split: option.split)
  moreover note kc
  ultimately show "vals ?c = inherit (nkey k) (heir (Node l k v h r) (nkey k)) (vals (Node l k v h r))"
    using e by (auto simp: inherit_def fun_eq_iff)
  show "height_of a b = get_height (Node l k v h r) \<and> \<bar>get_height a - get_height b\<bar> \<le> 2
      \<or> height_of a b = get_height (Node l k v h r) - 1 \<and> \<bar>get_height a - get_height b\<bar> \<le> 1"
    using lr c' t(1) avl_height [OF c'] by (auto simp: height_of_def split: if_splits)
qed

lemma remove_value_ok:
  assumes "avl t" "bst t" "nkey key \<in> keys t"
  shows "\<exists>t'. remove_value t key n = Inr (t', n + 1) \<and> removed (nkey key) t t'"
  using assms
proof (induction t arbitrary: key)
  case Null
  then show ?case by simp
next
  case (Node l k v h r)
  note t = Node.prems(1,2) and sub = Node.prems(2)[unfolded bst_Node] Node.prems(1)[simplified]
  consider (lt) "nkey key < nkey k" | (gt) "nkey k < nkey key" | (eq) "nkey key = nkey k" by fastforce
  then show ?case
  proof cases
    case lt
    with Node.prems(3) sub have "nkey key \<in> keys l" by auto
    with Node.IH(1) sub obtain l' where l': "remove_value l key n = Inr (l', n + 1)" "removed (nkey key) l l'" by blast
    from remove_left [OF t lt l'(2)] l'(1) lt show ?thesis by (auto simp: Let_def strncmp_less)
  next
    case gt
    with Node.prems(3) sub have "nkey key \<in> keys r" by auto
    with Node.IH(2) sub obtain r' where r': "remove_value r key n = Inr (r', n + 1)" "removed (nkey key) r r'" by blast
    from remove_right [OF t gt r'(2)] r'(1) gt show ?thesis by (auto simp: Let_def strncmp_less strncmp_greater)
  next
    case eq
    show ?thesis
    proof (cases "l = Null \<or> r = Null")
      case True
      show ?thesis
      proof (cases "if l \<noteq> Null then l else r")
        case Null
        with True eq sub show ?thesis
          by (auto simp: Let_def strncmp_less strncmp_greater removed_def inherit_def height_of_def vals_def
              split: if_splits)
      next
        case (Node a k' v' h' b)
        from remove_leaf_side [OF t True Node] True Node eq show ?thesis
          by (auto simp: Let_def strncmp_less strncmp_greater simp del: if_split)
      qed
    next
      case False
      with min_value_node_ok [of r] sub obtain k' where k': "min_value_node r = Inr k'" "nkey k' \<in> keys r" by blast
      with Node.IH(2) sub obtain r' where r': "remove_value r k' n = Inr (r', n + 1)" "removed (nkey k') r r'" by blast
      from remove_inner [OF t _ _ k'(1) r'(2)] False r'(1) k'(1) eq show ?thesis
        by (auto simp: Let_def strncmp_less strncmp_greater)
    qed
  qed
qed

section \<open>The map\<close>

text \<open>The number of nodes of a tree, and the least number of nodes of a balanced tree of a height.\<close>

definition nodes :: "value_node_t \<Rightarrow> nat" where
  "nodes t = length (inorder t)"

fun least_nodes :: "nat \<Rightarrow> nat" where
  "least_nodes 0 = 0"
| "least_nodes (Suc 0) = 1"
| "least_nodes (Suc (Suc h)) = 1 + least_nodes (Suc h) + least_nodes h"

lemma nodes_simps [simp]: "nodes Null = 0" "nodes (Node l k v h r) = nodes l + nodes r + 1"
  by (simp_all add: nodes_def)

lemma nodes_card: "bst t \<Longrightarrow> nodes t = card (keys t)"
  using distinct_card [OF bst_distinct] by (simp add: nodes_def keys_def)

lemma least_nodes_mono: "least_nodes h \<le> least_nodes (Suc h)"
  by (induction h rule: least_nodes.induct) auto

lemma least_nodes_le: "i \<le> j \<Longrightarrow> least_nodes i \<le> least_nodes j"
  by (rule lift_Suc_mono_le [of least_nodes]) (rule least_nodes_mono)

lemma least_nodes_avl: "avl t \<Longrightarrow> least_nodes (nat (get_height t)) \<le> nodes t"
proof (induction t)
  case (Node l k v h r)
  then have IH: "least_nodes (nat (get_height l)) \<le> nodes l" "least_nodes (nat (get_height r)) \<le> nodes r"
    and h: "h = height_of l r" "\<bar>get_height l - get_height r\<bar> \<le> 1" "get_height l \<ge> 0" "get_height r \<ge> 0"
    using avl_height by simp_all
  define n where "n = nat (h - 1)"
  have n: "nat h = Suc n" using h by (auto simp: n_def height_of_def nat_add_distrib)
  have "least_nodes (Suc n) \<le> 1 + least_nodes (nat (get_height l)) + least_nodes (nat (get_height r))"
  proof (cases n)
    case (Suc m)
    then consider "nat (get_height l) = Suc m" "nat (get_height r) \<ge> m" | "nat (get_height r) = Suc m" "nat (get_height l) \<ge> m"
      using h n by (fastforce simp: height_of_def split: if_splits)
    then show ?thesis using Suc least_nodes_le [of m] by cases (simp_all add: add_mono)
  qed simp
  then show ?case using IH n by simp
qed simp

definition simap_ok :: "simap_t \<Rightarrow> bool" where
  "simap_ok m \<longleftrightarrow> avl (map_root m) \<and> bst (map_root m)"

lemma simap_get_vals: "simap_ok m \<Longrightarrow> simap_get_value m key = vals (map_root m) (nkey key)"
  by (simp add: simap_get_value_def simap_ok_def get_loop_vals)

lemma get_None_iff: "simap_ok m \<Longrightarrow> simap_get_value m key = None \<longleftrightarrow> nkey key \<notin> keys (map_root m)"
  using dom_vals [of "map_root m"] by (auto simp: simap_get_vals)

lemma simap_set_ok:
  assumes m: "simap_ok m" and free: "0 < free_nodes m" and new: "simap_get_value m key = None"
  shows "\<exists>m'. simap_set_value nk m key v = Inr (0, m') \<and> simap_ok m' \<and> free_nodes m' = free_nodes m - 1
    \<and> keys (map_root m') = insert (nkey key) (keys (map_root m))
    \<and> vals (map_root m') = (vals (map_root m))(nkey key \<mapsto> v)"
proof -
  from insert_value_ok [of "map_root m" key "free_nodes m" nk v] m new free get_None_iff [OF m, of key]
  obtain t' where "insert_value nk (map_root m) key v (free_nodes m) = Inr (t', free_nodes m - 1)"
      "inserted nk key v (map_root m) t'" by (auto simp: simap_ok_def)
  with free new show ?thesis by (auto simp: simap_set_value_def simap_ok_def inserted_def)
qed

lemma simap_clear_ok:
  assumes m: "simap_ok m" and key: "simap_get_value m key \<noteq> None"
  shows "\<exists>m'. simap_clear m key = Inr (0, m') \<and> simap_ok m' \<and> free_nodes m' = free_nodes m + 1
    \<and> keys (map_root m') = keys (map_root m) - {nkey key}
    \<and> vals (map_root m') = inherit (nkey key) (heir (map_root m) (nkey key)) (vals (map_root m))"
proof -
  from remove_value_ok [of "map_root m" key "free_nodes m"] m key get_None_iff [OF m, of key]
  obtain t' where "remove_value (map_root m) key (free_nodes m) = Inr (t', free_nodes m + 1)"
      "removed (nkey key) (map_root m) t'" by (auto simp: simap_ok_def)
  with key removedD [of "nkey key" "map_root m" t'] show ?thesis by (auto simp: simap_clear_def simap_ok_def)
qed

text \<open>C18: A name that is set is found again: as long as a node is free and the name is new, the insertion into
  the balanced tree succeeds, whatever is read through the null children on the way; afterwards every look-up
  gives the new value for this name (names are equal when their first 16 characters are) and the old one for
  all others, one node less is free, and the tree is ordered and balanced again.\<close>

theorem simap_set_get:
  assumes "simap_ok m" "0 < free_nodes m" "simap_get_value m key = None"
  shows "\<exists>m'. simap_set_value nk m key v = Inr (0, m') \<and> simap_ok m' \<and> free_nodes m' = free_nodes m - 1
    \<and> (\<forall>key'. simap_get_value m' key' =
         (if strncmp key' key MAX_NAME_LEN = 0 then Some v else simap_get_value m key'))"
proof -
  from simap_set_ok [OF assms] obtain m' where m': "simap_set_value nk m key v = Inr (0, m')" "simap_ok m'"
      "free_nodes m' = free_nodes m - 1" "vals (map_root m') = (vals (map_root m))(nkey key \<mapsto> v)" by blast
  then show ?thesis using assms(1) by (intro exI [of _ m']) (simp add: simap_get_vals strncmp_eq)
qed

text \<open>Three names in a tree whose root has two children.\<close>

definition demo_map :: simap_t where
  "demo_map = \<lparr>map_root = Node (Node Null ''fs'' 2 1 Null) ''irq'' 1 2 (Node Null ''sync'' 3 1 Null), free_nodes = 13\<rparr>"

lemma demo_map_ok: "simap_ok demo_map"
  by (simp add: simap_ok_def demo_map_def bst_Node height_of_def ckey_def)

theorem simap_set_get_witness:
  "\<exists>m'. simap_set_value ''ROM'' demo_map ''uart'' 4 = Inr (0, m') \<and> simap_ok m' \<and> free_nodes m' = 12
    \<and> simap_get_value m' ''uart'' = Some 4 \<and> simap_get_value m' ''fs'' = Some 2"
proof -
  have "0 < free_nodes demo_map" "simap_get_value demo_map ''uart'' = None" by code_simp+
  note simap_set_get [OF demo_map_ok this, of "''ROM''" 4]
  then obtain m' where m': "simap_set_value ''ROM'' demo_map ''uart'' 4 = Inr (0, m')" "simap_ok m'"
      "free_nodes m' = free_nodes demo_map - 1" and
      get: "\<And>k. simap_get_value m' k = (if strncmp k ''uart'' MAX_NAME_LEN = 0 then Some 4 else simap_get_value demo_map k)"
    by blast
  have "strncmp ''uart'' ''uart'' MAX_NAME_LEN = 0" "strncmp ''fs'' ''uart'' MAX_NAME_LEN \<noteq> 0"
    "simap_get_value demo_map ''fs'' = Some 2" "free_nodes demo_map = 13" by code_simp+
  with m' show ?thesis by (simp add: get)
qed

text \<open>C19: A name that is cleared is gone, one more node is free, and the tree is ordered and balanced again. The
  other names keep their numbers, except that the next larger name takes over the number of the cleared one
  when the cleared node has two children: the code copies the key of the successor and not its value.\<close>

theorem simap_clear_get:
  assumes m: "simap_ok m" and key: "simap_get_value m key \<noteq> None"
  shows "\<exists>m'. simap_clear m key = Inr (0, m') \<and> simap_ok m' \<and> free_nodes m' = free_nodes m + 1
    \<and> (\<forall>key'. simap_get_value m' key' =
         (if strncmp key' key MAX_NAME_LEN = 0 then None
          else if heir (map_root m) (nkey key) = Some (nkey key') then simap_get_value m key
          else simap_get_value m key'))"
proof -
  from simap_clear_ok [OF assms] obtain m' where m': "simap_clear m key = Inr (0, m')" "simap_ok m'"
      "free_nodes m' = free_nodes m + 1"
      "vals (map_root m') = inherit (nkey key) (heir (map_root m) (nkey key)) (vals (map_root m))" by blast
  have "heir (map_root m) (nkey key) \<noteq> Some (nkey key)"
    using m heir_in [of "map_root m" "nkey key" "nkey key"] by (auto simp: simap_ok_def)
  with m' show ?thesis using m by (intro exI [of _ m']) (simp add: simap_get_vals strncmp_eq inherit_apply)
qed

theorem simap_clear_get_witness:
  "simap_get_value demo_map ''sync'' = Some 3 \<and> simap_get_value demo_map ''irq'' = Some 1
    \<and> (\<exists>m'. simap_clear demo_map ''irq'' = Inr (0, m') \<and> simap_get_value m' ''sync'' = Some 1)"
proof -
  have g: "simap_get_value demo_map ''irq'' = Some 1" "simap_get_value demo_map ''sync'' = Some 3"
    "heir (map_root demo_map) (nkey ''irq'') = Some (nkey ''sync'')"
    "strncmp ''sync'' ''irq'' MAX_NAME_LEN \<noteq> 0" by code_simp+
  then have "simap_get_value demo_map ''irq'' \<noteq> None" by simp
  from simap_clear_get [OF demo_map_ok this] obtain m' where m': "simap_clear demo_map ''irq'' = Inr (0, m')" and
      get: "\<And>k. simap_get_value m' k = (if strncmp k ''irq'' MAX_NAME_LEN = 0 then None
          else if heir (map_root demo_map) (nkey ''irq'') = Some (nkey k) then simap_get_value demo_map ''irq''
          else simap_get_value demo_map k)" by blast
  have "simap_get_value m' ''sync'' = Some 1" using g by (simp only: get if_True if_False simp_thms)
  with g m' show ?thesis by blast
qed

text \<open>The recursion over the tree is shallow: with the sixteen nodes of the name server the tree has at
  most five levels.\<close>

theorem simap_shallow:
  assumes "simap_ok m" "nodes (map_root m) \<le> 16"
  shows "get_height (map_root m) \<le> 5"
proof (rule ccontr)
  assume "\<not> get_height (map_root m) \<le> 5"
  then have "least_nodes 6 \<le> least_nodes (nat (get_height (map_root m)))" by (intro least_nodes_le) simp
  also have "\<dots> \<le> nodes (map_root m)" using assms(1) by (simp add: simap_ok_def least_nodes_avl)
  finally have "least_nodes 6 \<le> 16" using assms(2) by simp
  then show False by (simp add: eval_nat_numeral)
qed

theorem simap_shallow_witness: "nodes (map_root demo_map) = 3 \<and> get_height (map_root demo_map) \<le> 5"
proof -
  have "nodes (map_root demo_map) = 3" by (simp add: demo_map_def)
  with simap_shallow [OF demo_map_ok] show ?thesis by simp
qed

end
