(* ===== verification/Name_Server.thy ===== *)
theory Name_Server
  imports String_Map
begin

text \<open>
  The name server (\<^verbatim>\<open>service/name_lookup/name_lookup_server.c\<close>): a table of sixteen service bindings, a
  generator of service identifiers, and the ordered map of theory \<open>String_Map\<close>, which only the removal by name
  reads. The lemmas show that the table, the identifiers and the map stay consistent, that the server refines
  a finite map from names to (service identifier, thread) pairs, and where the removal by name departs from it.
\<close>

section \<open>Operations\<close>

abbreviation "NOZA_MAX_SERVICE \<equiv> (16 :: nat)"
abbreviation "NAME_LOOKUP_REGISTER \<equiv> (1 :: u32)"
abbreviation "NAME_LOOKUP_RESOLVE_NAME \<equiv> (2 :: u32)"
abbreviation "NAME_LOOKUP_RESOLVE_ID \<equiv> (3 :: u32)"
abbreviation "NAME_LOOKUP_UNREGISTER \<equiv> (4 :: u32)"
abbreviation "NAME_LOOKUP_OK \<equiv> (0 :: int)"
abbreviation "NAME_LOOKUP_ERR_DUPLICATE \<equiv> (- 1 :: int)"
abbreviation "NAME_LOOKUP_ERR_NOT_FOUND \<equiv> (- 2 :: int)"
abbreviation "NAME_LOOKUP_ERR_CAPACITY \<equiv> (- 3 :: int)"
abbreviation "NAME_LOOKUP_ERR_INVALID \<equiv> (- 4 :: int)"

text \<open>A request; the name is a pointer, which may be null.\<close>

record name_msg_t =
  nm_cmd :: u32
  nm_name :: "string option"
  nm_service_id :: u32
  nm_vid :: u32
  nm_code :: int

record service_binding_t =
  sb_service_id :: u32
  sb_vid :: u32
  sb_name :: string
  sb_in_use :: bool

record name_server =
  service_table :: "service_binding_t list"
  next_service_id :: u32
  smap :: simap_t

definition set_binding :: "nat \<Rightarrow> service_binding_t \<Rightarrow> name_server \<Rightarrow> name_server" where
  "set_binding i b s = s\<lparr>service_table := (service_table s)[i := b]\<rparr>"

definition binding_alloc :: "name_server \<Rightarrow> (nat \<times> name_server) option" where
  "binding_alloc s =
     (case find (\<lambda>i. \<not> sb_in_use (service_table s ! i)) [0..<NOZA_MAX_SERVICE] of
        None \<Rightarrow> None
      | Some i \<Rightarrow> Some (i, set_binding i \<lparr>sb_service_id = 0, sb_vid = 0, sb_name = '''', sb_in_use = True\<rparr> s))"

definition binding_by_id :: "u32 \<Rightarrow> name_server \<Rightarrow> nat option" where
  "binding_by_id n s =
     (if n = 0 then None
      else find (\<lambda>i. sb_in_use (service_table s ! i) \<and> sb_service_id (service_table s ! i) = n) [0..<NOZA_MAX_SERVICE])"

definition binding_release :: "nat \<Rightarrow> name_server \<Rightarrow> name_server" where
  "binding_release i s = set_binding i \<lparr>sb_service_id = 0, sb_vid = 0, sb_name = '''', sb_in_use = False\<rparr> s"

fun allocate_loop :: "nat \<Rightarrow> name_server \<Rightarrow> u32 \<times> name_server" where
  "allocate_loop 0 s = (0, s)"
| "allocate_loop (Suc retries) s =
     (let candidate = next_service_id s;
          s1 = s\<lparr>next_service_id := candidate + 1\<rparr>;
          s2 = (if next_service_id s1 = 0 then s1\<lparr>next_service_id := 1\<rparr> else s1)
      in if binding_by_id candidate s2 = None then (candidate, s2) else allocate_loop retries s2)"

definition allocate_service_id :: "name_server \<Rightarrow> u32 \<times> name_server" where
  "allocate_service_id s = allocate_loop (NOZA_MAX_SERVICE * 4) s"

definition validate_name :: "string option \<Rightarrow> bool" where
  "validate_name nm =
     (case nm of
        None \<Rightarrow> False
      | Some n \<Rightarrow> (let len = strnlen n (MAX_NAME_LEN + 1) in \<not> (len = 0 \<or> len > MAX_NAME_LEN)))"

definition binding_by_name :: "string option \<Rightarrow> name_server \<Rightarrow> nat option" where
  "binding_by_name nm s =
     (if \<not> validate_name nm then None
      else find (\<lambda>i. sb_in_use (service_table s ! i)
                   \<and> strncmp (sb_name (service_table s ! i)) (the nm) MAX_NAME_LEN = 0) [0..<NOZA_MAX_SERVICE])"

text \<open>The end of \<^verbatim>\<open>handle_register\<close>: the binding is filled in and entered into the map, whose result is
  ignored.\<close>

definition fill_binding :: "string \<Rightarrow> nat \<Rightarrow> u32 \<Rightarrow> string \<Rightarrow> u32 \<Rightarrow> name_server \<Rightarrow> name_server res" where
  "fill_binding nk i caller n sid s =
     (let b = \<lparr>sb_service_id = sid, sb_vid = caller, sb_name = strncpy n MAX_NAME_LEN, sb_in_use = True\<rparr>;
          s1 = set_binding i b s
      in bindE (simap_set_value nk (smap s1) (sb_name b) sid) (\<lambda>(_, m). Inr (s1\<lparr>smap := m\<rparr>)))"

definition handle_register :: "string \<Rightarrow> name_msg_t \<Rightarrow> u32 \<Rightarrow> name_server \<Rightarrow> (int \<times> name_msg_t \<times> name_server) res" where
  "handle_register nk msg caller s =
     (if \<not> validate_name (nm_name msg) then Inr (NAME_LOOKUP_ERR_INVALID, msg, s)
      else case binding_by_name (nm_name msg) s of
        Some i \<Rightarrow>
          (let b = service_table s ! i
           in if nm_service_id msg \<noteq> 0 \<and> nm_service_id msg \<noteq> sb_service_id b
              then Inr (NAME_LOOKUP_ERR_DUPLICATE, msg, s)
              else Inr (NAME_LOOKUP_OK, msg\<lparr>nm_service_id := sb_service_id b\<rparr>, set_binding i (b\<lparr>sb_vid := caller\<rparr>) s))
      | None \<Rightarrow>
          if nm_service_id msg \<noteq> 0 \<and> binding_by_id (nm_service_id msg) s \<noteq> None
          then Inr (NAME_LOOKUP_ERR_DUPLICATE, msg, s)
          else
            (case binding_alloc s of
               None \<Rightarrow> Inr (NAME_LOOKUP_ERR_CAPACITY, msg, s)
             | Some (i, s1) \<Rightarrow>
                 if nm_service_id msg = 0 then
                   (let (generated, s2) = allocate_service_id s1
                    in if generated = 0 then Inr (NAME_LOOKUP_ERR_CAPACITY, msg, binding_release i s2)
                       else bindE (fill_binding nk i caller (the (nm_name msg)) generated s2) (\<lambda>s3.
                            Inr (NAME_LOOKUP_OK, msg\<lparr>nm_service_id := generated\<rparr>, s3)))
                 else bindE (fill_binding nk i caller (the (nm_name msg)) (nm_service_id msg) s1) (\<lambda>s3.
                      Inr (NAME_LOOKUP_OK, msg, s3))))"

definition handle_resolve_name :: "name_msg_t \<Rightarrow> name_server \<Rightarrow> int \<times> name_msg_t" where
  "handle_resolve_name msg s =
     (if \<not> validate_name (nm_name msg) then (NAME_LOOKUP_ERR_INVALID, msg)
      else case binding_by_name (nm_name msg) s of
        None \<Rightarrow> (NAME_LOOKUP_ERR_NOT_FOUND, msg)
      | Some i \<Rightarrow> (NAME_LOOKUP_OK, msg\<lparr>nm_service_id := sb_service_id (service_table s ! i),
                                        nm_vid := sb_vid (service_table s ! i)\<rparr>))"

definition handle_resolve_id :: "name_msg_t \<Rightarrow> name_server \<Rightarrow> int \<times> name_msg_t" where
  "handle_resolve_id msg s =
     (case binding_by_id (nm_service_id msg) s of
        None \<Rightarrow> (NAME_LOOKUP_ERR_NOT_FOUND, msg)
      | Some i \<Rightarrow> (NAME_LOOKUP_OK, msg\<lparr>nm_vid := sb_vid (service_table s ! i)\<rparr>))"

definition handle_unregister :: "name_msg_t \<Rightarrow> name_server \<Rightarrow> (int \<times> name_server) res" where
  "handle_unregister msg s =
     (let binding =
            (if nm_service_id msg \<noteq> 0 then binding_by_id (nm_service_id msg) s
             else if validate_name (nm_name msg) then
               (case simap_get_value (smap s) (the (nm_name msg)) of
                  Some stored_id \<Rightarrow> binding_by_id stored_id s
                | None \<Rightarrow> None)
             else None)
      in case binding of
           None \<Rightarrow> Inr (NAME_LOOKUP_ERR_NOT_FOUND, s)
         | Some i \<Rightarrow>
             bindE (simap_clear (smap s) (sb_name (service_table s ! i))) (\<lambda>(_, m).
             Inr (NAME_LOOKUP_OK, binding_release i (s\<lparr>smap := m\<rparr>))))"

text \<open>The start of \<^verbatim>\<open>do_name_server\<close>, and one turn of its loop: \<open>msize\<close> and \<open>caller\<close> are the size and the
  sender of the message.\<close>

definition name_server_start :: name_server where
  "name_server_start =
     \<lparr>service_table = replicate NOZA_MAX_SERVICE \<lparr>sb_service_id = 0, sb_vid = 0, sb_name = '''', sb_in_use = False\<rparr>,
      next_service_id = 1, smap = simap_init NOZA_MAX_SERVICE\<rparr>"

definition do_name_server :: "string \<Rightarrow> u32 \<Rightarrow> u32 \<Rightarrow> name_msg_t \<Rightarrow> name_server \<Rightarrow> (name_msg_t \<times> name_server) res" where
  "do_name_server nk msize caller msg s =
     (if msize < 20 then Inr (msg\<lparr>nm_code := NAME_LOOKUP_ERR_INVALID\<rparr>, s)
      else if nm_cmd msg = NAME_LOOKUP_REGISTER then
        bindE (handle_register nk msg caller s) (\<lambda>(c, msg', s'). Inr (msg'\<lparr>nm_code := c\<rparr>, s'))
      else if nm_cmd msg = NAME_LOOKUP_RESOLVE_NAME then
        (let (c, msg') = handle_resolve_name msg s in Inr (msg'\<lparr>nm_code := c\<rparr>, s))
      else if nm_cmd msg = NAME_LOOKUP_RESOLVE_ID then
        (let (c, msg') = handle_resolve_id msg s in Inr (msg'\<lparr>nm_code := c\<rparr>, s))
      else if nm_cmd msg = NAME_LOOKUP_UNREGISTER then
        bindE (handle_unregister msg s) (\<lambda>(c, s'). Inr (msg\<lparr>nm_code := c\<rparr>, s'))
      else Inr (msg\<lparr>nm_code := NAME_LOOKUP_ERR_INVALID\<rparr>, s))"

section \<open>Consistency\<close>

abbreviation entry :: "name_server \<Rightarrow> nat \<Rightarrow> service_binding_t" where
  "entry s i \<equiv> service_table s ! i"

definition used :: "name_server \<Rightarrow> nat set" where
  "used s = {i. i < NOZA_MAX_SERVICE \<and> sb_in_use (entry s i)}"

text \<open>Identifiers and names of the bindings in use are unique, the identifiers are not 0, and the map holds
  exactly the names in use.\<close>

definition name_ok :: "name_server \<Rightarrow> bool" where
  "name_ok s \<longleftrightarrow>
     length (service_table s) = NOZA_MAX_SERVICE \<and> next_service_id s \<noteq> 0 \<and> simap_ok (smap s)
     \<and> inj_on (\<lambda>i. sb_service_id (entry s i)) (used s) \<and> (\<forall>i\<in>used s. sb_service_id (entry s i) \<noteq> 0)
     \<and> inj_on (\<lambda>i. nkey (sb_name (entry s i))) (used s)
     \<and> keys (map_root (smap s)) = (\<lambda>i. nkey (sb_name (entry s i))) ` used s
     \<and> free_nodes (smap s) + card (used s) = NOZA_MAX_SERVICE"

lemma name_okD:
  assumes "name_ok s"
  shows "length (service_table s) = NOZA_MAX_SERVICE" "next_service_id s \<noteq> 0" "simap_ok (smap s)"
    "i \<in> used s \<Longrightarrow> j \<in> used s \<Longrightarrow> sb_service_id (entry s i) = sb_service_id (entry s j) \<Longrightarrow> i = j"
    "i \<in> used s \<Longrightarrow> sb_service_id (entry s i) \<noteq> 0"
    "i \<in> used s \<Longrightarrow> j \<in> used s \<Longrightarrow> nkey (sb_name (entry s i)) = nkey (sb_name (entry s j)) \<Longrightarrow> i = j"
    "keys (map_root (smap s)) = (\<lambda>i. nkey (sb_name (entry s i))) ` used s"
    "free_nodes (smap s) + card (used s) = NOZA_MAX_SERVICE"
  using assms by (auto simp: name_ok_def inj_on_def)

lemma used_less: "i \<in> used s \<Longrightarrow> i < NOZA_MAX_SERVICE"
  by (simp add: used_def)

lemma finite_used [simp]: "finite (used s)"
  by (simp add: used_def)

text \<open>The abstract state: a finite map from names to the identifier of the service and its thread.\<close>

definition registry :: "name_server \<Rightarrow> (nat list \<rightharpoonup> u32 \<times> u32)" where
  "registry s k =
     map_option (\<lambda>i. (sb_service_id (entry s i), sb_vid (entry s i)))
       (find (\<lambda>i. sb_in_use (entry s i) \<and> nkey (sb_name (entry s i)) = k) [0..<NOZA_MAX_SERVICE])"

lemma find_table_None:
  "find P [0..<NOZA_MAX_SERVICE] = None \<longleftrightarrow> (\<forall>i<NOZA_MAX_SERVICE. \<not> P i)"
  by (auto simp: find_None_iff)

lemma find_table_Some:
  assumes "\<And>i j. i < NOZA_MAX_SERVICE \<Longrightarrow> j < NOZA_MAX_SERVICE \<Longrightarrow> P i \<Longrightarrow> P j \<Longrightarrow> i = j"
  shows "find P [0..<NOZA_MAX_SERVICE] = Some i \<longleftrightarrow> i < NOZA_MAX_SERVICE \<and> P i"
proof
  assume "find P [0..<NOZA_MAX_SERVICE] = Some i"
  from find_split [OF this] show "i < NOZA_MAX_SERVICE \<and> P i" by auto
next
  assume i: "i < NOZA_MAX_SERVICE \<and> P i"
  with assms show "find P [0..<NOZA_MAX_SERVICE] = Some i" by (intro find_unique) (auto simp del: upt_rec_numeral)
qed

lemma by_id_Some:
  assumes "name_ok s"
  shows "binding_by_id d s = Some i \<longleftrightarrow> i \<in> used s \<and> sb_service_id (entry s i) = d"
proof -
  have "find (\<lambda>i. sb_in_use (entry s i) \<and> sb_service_id (entry s i) = d) [0..<NOZA_MAX_SERVICE] = Some i
      \<longleftrightarrow> i < NOZA_MAX_SERVICE \<and> sb_in_use (entry s i) \<and> sb_service_id (entry s i) = d"
    by (rule find_table_Some) (use name_okD(4) [OF assms] in \<open>auto simp: used_def\<close>)
  then show ?thesis using name_okD(5) [OF assms, of i] by (auto simp: binding_by_id_def used_def simp del: upt_rec_numeral)
qed

lemma by_id_None: "binding_by_id d s = None \<longleftrightarrow> d = 0 \<or> (\<forall>i\<in>used s. sb_service_id (entry s i) \<noteq> d)"
  by (auto simp: binding_by_id_def find_table_None used_def simp del: upt_rec_numeral)

lemma by_name_Some:
  assumes "name_ok s" "validate_name (Some n)"
  shows "binding_by_name (Some n) s = Some i \<longleftrightarrow> i \<in> used s \<and> nkey (sb_name (entry s i)) = nkey n"
proof -
  have "find (\<lambda>i. sb_in_use (entry s i) \<and> nkey (sb_name (entry s i)) = nkey n) [0..<NOZA_MAX_SERVICE] = Some i
      \<longleftrightarrow> i < NOZA_MAX_SERVICE \<and> sb_in_use (entry s i) \<and> nkey (sb_name (entry s i)) = nkey n"
    by (rule find_table_Some) (use name_okD(6) [OF assms(1)] in \<open>auto simp: used_def\<close>)
  then show ?thesis using assms(2) by (simp add: binding_by_name_def strncmp_eq used_def del: upt_rec_numeral)
qed

lemma by_name_None:
  "validate_name (Some n) \<Longrightarrow> binding_by_name (Some n) s = None \<longleftrightarrow> (\<forall>i\<in>used s. nkey (sb_name (entry s i)) \<noteq> nkey n)"
  by (auto simp: binding_by_name_def strncmp_eq find_table_None used_def simp del: upt_rec_numeral)

lemma registry_Some:
  assumes "name_ok s"
  shows "registry s k = Some (a, b) \<longleftrightarrow>
    (\<exists>i\<in>used s. nkey (sb_name (entry s i)) = k \<and> sb_service_id (entry s i) = a \<and> sb_vid (entry s i) = b)"
proof -
  have "find (\<lambda>i. sb_in_use (entry s i) \<and> nkey (sb_name (entry s i)) = k) [0..<NOZA_MAX_SERVICE] = Some i
      \<longleftrightarrow> i < NOZA_MAX_SERVICE \<and> sb_in_use (entry s i) \<and> nkey (sb_name (entry s i)) = k" for i
    by (rule find_table_Some) (use name_okD(6) [OF assms] in \<open>auto simp: used_def\<close>)
  then show ?thesis by (auto simp: registry_def used_def simp del: upt_rec_numeral)
qed

lemma registry_None: "registry s k = None \<longleftrightarrow> (\<forall>i\<in>used s. nkey (sb_name (entry s i)) \<noteq> k)"
  by (auto simp: registry_def find_table_None used_def simp del: upt_rec_numeral)

lemma registry_at:
  "name_ok s \<Longrightarrow> i \<in> used s \<Longrightarrow> registry s (nkey (sb_name (entry s i))) = Some (sb_service_id (entry s i), sb_vid (entry s i))"
  by (auto simp: registry_Some)

lemma registry_cases:
  assumes "name_ok s"
  obtains (Some) i where "i \<in> used s" "k = nkey (sb_name (entry s i))"
      "registry s k = Some (sb_service_id (entry s i), sb_vid (entry s i))"
  | (None) "\<forall>i\<in>used s. nkey (sb_name (entry s i)) \<noteq> k" "registry s k = None"
proof (cases "\<exists>i\<in>used s. nkey (sb_name (entry s i)) = k")
  case True
  then show ?thesis using registry_at [OF assms] Some by blast
next
  case False
  then show ?thesis using registry_None [of s k] None by blast
qed

lemma used_start: "used name_server_start = {}"
  by (auto simp: used_def name_server_start_def nth_replicate)

lemma registry_start: "registry name_server_start = Map.empty"
  using registry_None [of name_server_start] by (auto simp: used_start)

lemma name_server_start_ok: "name_ok name_server_start"
proof -
  from used_start show ?thesis
    by (simp add: name_ok_def name_server_start_def simap_init_def simap_ok_def)
qed

section \<open>Identifiers\<close>

definition next_id :: "u32 \<Rightarrow> u32" where
  "next_id x = (if x + 1 = 0 then 1 else x + 1)"

lemma next_id_nonzero [simp]: "next_id x \<noteq> 0"
  by (simp add: next_id_def)

lemma unat_next_id: "unat (next_id x) = unat x mod (2 ^ 32 - 1) + 1"
proof -
  have x: "unat x < 2 ^ 32" using unsigned_less [of x] by simp
  have s: "unat (x + 1) = (unat x + 1) mod 2 ^ 32" by (simp add: unat_word_ariths)
  show ?thesis
  proof (cases "unat x = 2 ^ 32 - 1")
    case True
    then have "unat (x + 1) = 0" by (simp add: s)
    then have "x + 1 = 0" by (rule unsigned_eq_0_iff [THEN iffD1])
    then show ?thesis using True by (simp add: next_id_def)
  next
    case False
    then have "unat (x + 1) = unat x + 1" using x by (simp add: s)
    then have "x + 1 \<noteq> 0" "unat (x + 1) = unat x + 1" by auto
    then show ?thesis using False x by (simp add: next_id_def)
  qed
qed

lemma next_id_pow: "x \<noteq> 0 \<Longrightarrow> unat ((next_id ^^ k) x) = (unat x - 1 + k) mod (2 ^ 32 - 1) + 1"
proof (induction k)
  case 0
  have "unat x < 2 ^ 32" using unsigned_less [of x] by simp
  moreover have "unat x \<noteq> 0" using 0 by (simp add: unsigned_eq_0_iff)
  ultimately show ?case by simp
next
  case (Suc k)
  then show ?case by (simp add: unat_next_id mod_Suc_eq)
qed

text \<open>Sixty-four identifiers in a row are different, so with at most sixteen in use one of them is free.\<close>

lemma next_id_inj: "x \<noteq> 0 \<Longrightarrow> inj_on (\<lambda>k. (next_id ^^ k) x) {..<64}"
proof (rule inj_onI)
  fix j k
  assume x: "x \<noteq> 0" and jk: "j \<in> {..<64}" "k \<in> {..<64 :: nat}" "(next_id ^^ j) x = (next_id ^^ k) x"
  then have "(unat x - 1 + j) mod (2 ^ 32 - 1) = (unat x - 1 + k) mod (2 ^ 32 - 1)"
    using next_id_pow [OF x, of j] next_id_pow [OF x, of k] by simp
  then obtain p q :: nat where "j + 4294967295 * p = k + 4294967295 * q" by (auto simp: nat_mod_eq_iff)
  moreover have "\<not> p + 1 \<le> q" "\<not> q + 1 \<le> p" using calculation jk(1,2) by auto
  ultimately show "j = k" by simp
qed

lemma by_id_next [simp]: "binding_by_id d (s\<lparr>next_service_id := x\<rparr>) = binding_by_id d s"
  by (simp add: binding_by_id_def)

lemma allocate_loop_result:
  assumes "allocate_loop n s = (g, s')" "next_service_id s \<noteq> 0"
  shows "(\<exists>x. x \<noteq> 0 \<and> s' = s\<lparr>next_service_id := x\<rparr>) \<and> binding_by_id g s = None
    \<and> (g = 0 \<longrightarrow> (\<forall>k<n. binding_by_id ((next_id ^^ k) (next_service_id s)) s \<noteq> None))"
  using assms
proof (induction n arbitrary: s)
  case 0
  then show ?case by (auto intro: exI [of _ "next_service_id s"] simp: binding_by_id_def)
next
  case (Suc n)
  let ?x = "next_service_id s" and ?s = "s\<lparr>next_service_id := next_id (next_service_id s)\<rparr>"
  have st: "allocate_loop (Suc n) s = (if binding_by_id ?x s = None then (?x, ?s) else allocate_loop n ?s)"
    by (auto simp: next_id_def Let_def)
  show ?case
  proof (cases "binding_by_id ?x s = None")
    case True
    with Suc.prems st have "g = ?x" "s' = ?s" by simp_all
    with True Suc.prems show ?thesis by (auto intro: exI [of _ "next_id ?x"])
  next
    case False
    with Suc.prems st have "allocate_loop n ?s = (g, s')" by simp
    from Suc.IH [OF this] obtain x where "x \<noteq> 0" "s' = s\<lparr>next_service_id := x\<rparr>" "binding_by_id g s = None"
        and f: "g = 0 \<Longrightarrow> \<forall>k<n. binding_by_id ((next_id ^^ k) (next_id ?x)) s \<noteq> None" by auto
    moreover have "\<forall>k<Suc n. binding_by_id ((next_id ^^ k) ?x) s \<noteq> None" if "g = 0"
      using f [OF that] False by (auto simp: less_Suc_eq_0_disj funpow_Suc_right simp del: funpow.simps(2))
    ultimately show ?thesis by auto
  qed
qed

lemma allocate_service_id_ok:
  assumes "next_service_id s \<noteq> 0"
  obtains g x where "allocate_service_id s = (g, s\<lparr>next_service_id := x\<rparr>)" "x \<noteq> 0" "g \<noteq> 0"
    "binding_by_id g s = None"
proof -
  let ?c = "\<lambda>k. (next_id ^^ k) (next_service_id s)"
  obtain g s' where g: "allocate_loop 64 s = (g, s')" by fastforce
  note r = allocate_loop_result [OF g assms]
  have "g \<noteq> 0"
  proof
    assume "g = 0"
    with r have all: "\<forall>k<64. binding_by_id (?c k) s \<noteq> None" by blast
    let ?f = "\<lambda>k. the (binding_by_id (?c k) s)"
    have f: "?f k < NOZA_MAX_SERVICE \<and> sb_service_id (entry s (?f k)) = ?c k" if "k < 64" for k
    proof -
      from all that obtain i where i: "binding_by_id (?c k) s = Some i" by auto
      then have "find (\<lambda>i. sb_in_use (entry s i) \<and> sb_service_id (entry s i) = ?c k) [0..<NOZA_MAX_SERVICE] = Some i"
        by (simp add: binding_by_id_def split: if_splits del: upt_rec_numeral)
      from find_split [OF this] i show ?thesis by simp
    qed
    have "inj_on ?f {..<64}"
      using next_id_inj [OF assms] f by (auto intro!: inj_onI dest: inj_onD) (metis inj_onD lessThan_iff)
    moreover have "?f ` {..<64} \<subseteq> {..<NOZA_MAX_SERVICE}" using f by auto
    ultimately have "card {..<64 :: nat} \<le> card {..<NOZA_MAX_SERVICE}" by (rule card_inj_on_le) simp
    then show False by simp
  qed
  with r g that show thesis by (auto simp: allocate_service_id_def)
qed

section \<open>The server refines the registry\<close>

text \<open>Filling a free binding, changing the thread of a binding, and releasing one.\<close>

lemma name_ok_fill:
  assumes s: "name_ok s" and i: "i < NOZA_MAX_SERVICE" "i \<notin> used s" and b: "sb_in_use b" "sb_service_id b \<noteq> 0"
    "\<forall>j\<in>used s. sb_service_id (entry s j) \<noteq> sb_service_id b"
    "\<forall>j\<in>used s. nkey (sb_name (entry s j)) \<noteq> nkey (sb_name b)"
    and m: "simap_ok m" "keys (map_root m) = insert (nkey (sb_name b)) (keys (map_root (smap s)))"
      "free_nodes m = free_nodes (smap s) - 1" and x: "x \<noteq> 0"
    and s': "s' = s\<lparr>service_table := (service_table s)[i := b], next_service_id := x, smap := m\<rparr>"
  shows "name_ok s'" and "registry s' = (registry s)(nkey (sb_name b) \<mapsto> (sb_service_id b, sb_vid b))"
proof -
  note ok = name_okD [OF s]
  have e: "entry s' j = (if j = i then b else entry s j)" for j using ok(1) i by (simp add: s')
  have u: "used s' = insert i (used s)" using i b(1) by (auto simp: used_def e)
  have card: "card (used s') \<le> 16" using card_mono [of "{..<16}" "used s'"] used_less [of _ s'] by auto
  have c: "card (used s') = card (used s) + 1" using i(2) by (simp add: u)
  have img: "(\<lambda>j. nkey (sb_name (entry s' j))) ` used s' = keys (map_root m)"
    using i(2) by (auto simp: u e m(2) ok(7) image_iff)
  have free: "free_nodes m + card (used s') = NOZA_MAX_SERVICE" using ok(8) card c m(3) by simp
  have ids: "inj_on (\<lambda>j. sb_service_id (entry s' j)) (used s')"
    using ok(4) b(3) i(2) by (auto simp: u e inj_on_def)
  have names: "inj_on (\<lambda>j. nkey (sb_name (entry s' j))) (used s')"
    using ok(6) b(4) i(2) by (auto simp: u e inj_on_def)
  have f: "length (service_table s') = NOZA_MAX_SERVICE" "next_service_id s' = x" "smap s' = m" using ok(1) by (simp_all add: s')
  have nz: "\<forall>j\<in>used s'. sb_service_id (entry s' j) \<noteq> 0" using ok(5) b(2) by (auto simp: u e)
  show n: "name_ok s'" unfolding name_ok_def f using m(1) x img free ids names nz by simp
  show "registry s' = (registry s)(nkey (sb_name b) \<mapsto> (sb_service_id b, sb_vid b))"
  proof
    fix k
    show "registry s' k = ((registry s)(nkey (sb_name b) \<mapsto> (sb_service_id b, sb_vid b))) k"
      using n
    proof (cases rule: registry_cases [where k = k])
      case (Some j)
      then show ?thesis using registry_at [OF s, of j] b(4) by (auto simp: e u split: if_splits)
    next
      case None
      have "nkey (sb_name (entry s j)) \<noteq> k" if "j \<in> used s" for j
        using None(1) that i(2) e [of j] by (cases "j = i") (auto simp: u)
      then show ?thesis using None registry_None [of s k] i(2) by (auto simp: e u)
    qed
  qed
qed

lemma name_ok_vid:
  assumes s: "name_ok s" and i: "i \<in> used s"
    and s': "s' = set_binding i ((entry s i)\<lparr>sb_vid := v\<rparr>) s"
  shows "name_ok s'" and "registry s' = (registry s)(nkey (sb_name (entry s i)) \<mapsto> (sb_service_id (entry s i), v))"
proof -
  note ok = name_okD [OF s]
  have e: "entry s' j = (if j = i then (entry s i)\<lparr>sb_vid := v\<rparr> else entry s j)" for j
    using ok(1) used_less [OF i] by (simp add: s' set_binding_def)
  have u: "used s' = used s" using i by (auto simp: used_def e)
  have sel: "sb_service_id (entry s' j) = sb_service_id (entry s j)" "sb_name (entry s' j) = sb_name (entry s j)" for j
    by (simp_all add: e)
  show n: "name_ok s'" using s by (simp add: name_ok_def u sel) (simp add: s' set_binding_def)
  show "registry s' = (registry s)(nkey (sb_name (entry s i)) \<mapsto> (sb_service_id (entry s i), v))"
  proof
    fix k
    show "registry s' k = ((registry s)(nkey (sb_name (entry s i)) \<mapsto> (sb_service_id (entry s i), v))) k"
      using n
    proof (cases rule: registry_cases [where k = k])
      case (Some j)
      then show ?thesis using registry_at [OF s, of j] ok(6) [of i j] i by (auto simp: e u)
    next
      case None
      then show ?thesis using registry_None [of s k] i by (auto simp: sel u)
    qed
  qed
qed

lemma name_ok_release:
  assumes s: "name_ok s" and i: "i \<in> used s"
    and m: "simap_ok m" "keys (map_root m) = keys (map_root (smap s)) - {nkey (sb_name (entry s i))}"
      "free_nodes m = free_nodes (smap s) + 1"
    and s': "s' = binding_release i (s\<lparr>smap := m\<rparr>)"
  shows "name_ok s'" and "registry s' = (registry s)(nkey (sb_name (entry s i)) := None)"
proof -
  note ok = name_okD [OF s]
  have e: "j \<noteq> i \<Longrightarrow> entry s' j = entry s j" "\<not> sb_in_use (entry s' i)" for j
    using ok(1) used_less [OF i] by (simp_all add: s' binding_release_def set_binding_def)
  have "j \<in> used s' \<longleftrightarrow> j \<in> used s \<and> j \<noteq> i" for j using e by (cases "j = i") (simp_all add: used_def)
  then have u: "used s' = used s - {i}" by blast
  have sel: "j \<in> used s' \<Longrightarrow> entry s' j = entry s j" for j using e(1) by (auto simp: u)
  have "card (used s) = card (used s') + 1" using card.remove [OF finite_used i] by (simp add: u)
  then have free: "free_nodes m + card (used s') = NOZA_MAX_SERVICE" using ok(8) m(3) by simp
  have img: "(\<lambda>j. nkey (sb_name (entry s' j))) ` used s' = keys (map_root m)"
    using ok(6) i by (auto simp: sel m(2) ok(7) u e(1))
  have inj: "inj_on (\<lambda>j. sb_service_id (entry s' j)) (used s')" "inj_on (\<lambda>j. nkey (sb_name (entry s' j))) (used s')"
    using ok(4,6) by (auto simp: inj_on_def u e(1))
  have f: "length (service_table s') = NOZA_MAX_SERVICE" "next_service_id s' = next_service_id s" "smap s' = m"
    using ok(1) by (simp_all add: s' binding_release_def set_binding_def)
  have nz: "\<forall>j\<in>used s'. sb_service_id (entry s' j) \<noteq> 0" using ok(5) by (auto simp: u e(1))
  show n: "name_ok s'" unfolding name_ok_def f using ok(2) m(1) free img inj nz by simp
  show "registry s' = (registry s)(nkey (sb_name (entry s i)) := None)"
  proof
    fix k
    show "registry s' k = ((registry s)(nkey (sb_name (entry s i)) := None)) k"
      using n
    proof (cases rule: registry_cases [where k = k])
      case (Some j)
      then show ?thesis using registry_at [OF s, of j] ok(6) [of i j] i by (auto simp: sel u)
    next
      case None
      then show ?thesis using registry_None [of s k] i by (auto simp: sel u)
    qed
  qed
qed

section \<open>Requests\<close>

lemma validate_SomeE:
  assumes "validate_name nm"
  obtains n where "nm = Some n" "validate_name (Some n)"
  using assms by (cases nm) (auto simp: validate_name_def)

lemma dom_registry: "name_ok s \<Longrightarrow> dom (registry s) = (\<lambda>i. nkey (sb_name (entry s i))) ` used s"
  using registry_None [of s] by (auto simp: dom_def image_iff)

lemma card_registry: "name_ok s \<Longrightarrow> card (dom (registry s)) = card (used s)"
  by (simp add: dom_registry name_ok_def card_image)

lemma registry_ids: "name_ok s \<Longrightarrow> fst ` ran (registry s) = (\<lambda>i. sb_service_id (entry s i)) ` used s"
proof (rule set_eqI)
  fix d
  assume s: "name_ok s"
  have "d \<in> fst ` ran (registry s) \<longleftrightarrow> (\<exists>k v. registry s k = Some (d, v))" by (auto simp: ran_def image_iff) 
  then show "d \<in> fst ` ran (registry s) \<longleftrightarrow> d \<in> (\<lambda>i. sb_service_id (entry s i)) ` used s"
    by (auto simp: registry_Some [OF s])
qed

lemma binding_alloc_None: "name_ok s \<Longrightarrow> binding_alloc s = None \<longleftrightarrow> card (used s) = NOZA_MAX_SERVICE"
proof -
  have sub: "used s \<subseteq> {..<NOZA_MAX_SERVICE}" by (auto simp: used_def)
  have "binding_alloc s = None \<longleftrightarrow> (\<forall>i<NOZA_MAX_SERVICE. sb_in_use (entry s i))"
    unfolding binding_alloc_def using find_table_None [of "\<lambda>i. \<not> sb_in_use (entry s i)"]
    by (cases "find (\<lambda>i. \<not> sb_in_use (entry s i)) [0..<NOZA_MAX_SERVICE]") (simp_all del: upt_rec_numeral)
  also have "\<dots> \<longleftrightarrow> used s = {..<NOZA_MAX_SERVICE}" unfolding used_def by blast
  also have "\<dots> \<longleftrightarrow> card (used s) = NOZA_MAX_SERVICE"
    using card_subset_eq [OF finite_lessThan sub] card_lessThan by metis
  finally show ?thesis .
qed

lemma binding_alloc_Some:
  assumes "binding_alloc s = Some (i, s1)"
  shows "i < NOZA_MAX_SERVICE \<and> i \<notin> used s \<and> (\<exists>b. s1 = s\<lparr>service_table := (service_table s)[i := b]\<rparr> \<and> sb_service_id b = 0)"
proof -
  from assms have "find (\<lambda>i. \<not> sb_in_use (entry s i)) [0..<NOZA_MAX_SERVICE] = Some i"
    by (auto simp: binding_alloc_def split: option.splits simp del: upt_rec_numeral)
  from find_split [OF this] have "i < NOZA_MAX_SERVICE \<and> i \<notin> used s" by (simp add: used_def)
  moreover have "\<exists>b. s1 = s\<lparr>service_table := (service_table s)[i := b]\<rparr> \<and> sb_service_id b = 0"
    using assms by (auto simp: binding_alloc_def set_binding_def split: option.splits simp del: upt_rec_numeral)
  ultimately show ?thesis by blast
qed

lemma by_id_alloc:
  assumes "name_ok s" "i < NOZA_MAX_SERVICE" "i \<notin> used s" "sb_service_id b = 0" "d \<noteq> 0"
    "binding_by_id d (s\<lparr>service_table := (service_table s)[i := b]\<rparr>) = None"
  shows "\<forall>j\<in>used s. sb_service_id (entry s j) \<noteq> d"
proof
  fix j
  assume j: "j \<in> used s"
  let ?s = "s\<lparr>service_table := (service_table s)[i := b]\<rparr>"
  have "j \<noteq> i" using assms(3) j by blast
  then have "entry ?s j = entry s j" by simp
  moreover from this have "j \<in> used ?s" using j by (simp add: used_def)
  ultimately show "sb_service_id (entry s j) \<noteq> d" using assms(5,6) by (auto simp: by_id_None)
qed

lemma fill_binding_ok:
  assumes s: "name_ok s" and i: "i < NOZA_MAX_SERVICE" "i \<notin> used s" and sid: "sid \<noteq> 0"
    and ids: "\<forall>j\<in>used s. sb_service_id (entry s j) \<noteq> sid"
    and names: "\<forall>j\<in>used s. nkey (sb_name (entry s j)) \<noteq> nkey n" and x: "x \<noteq> 0"
    and s1: "s1 = s\<lparr>service_table := (service_table s)[i := b0], next_service_id := x\<rparr>"
  shows "\<exists>s'. fill_binding nk i caller n sid s1 = Inr s' \<and> name_ok s'
    \<and> registry s' = (registry s)(nkey n \<mapsto> (sid, caller))"
proof -
  let ?n = "strncpy n MAX_NAME_LEN"
  let ?b = "\<lparr>sb_service_id = sid, sb_vid = caller, sb_name = ?n, sb_in_use = True\<rparr>"
  note ok = name_okD [OF s]
  have "i \<notin> used s" "used s \<subseteq> {..<NOZA_MAX_SERVICE}" using i(2) used_less by auto
  then have "used s \<subset> {..<NOZA_MAX_SERVICE}" using i(1) by blast
  then have "card (used s) < card {..<NOZA_MAX_SERVICE}" by (intro psubset_card_mono) auto
  then have free: "0 < free_nodes (smap s)" using ok(8) by simp
  have "simap_get_value (smap s) ?n = None" using names by (auto simp: get_None_iff [OF ok(3)] ok(7))
  from simap_set_ok [OF ok(3) free this, of nk sid] obtain m where m: "simap_set_value nk (smap s) ?n sid = Inr (0, m)"
      "simap_ok m" "free_nodes m = free_nodes (smap s) - 1" "keys (map_root m) = insert (nkey n) (keys (map_root (smap s)))"
    by auto
  let ?s' = "s\<lparr>service_table := (service_table s)[i := ?b], next_service_id := x, smap := m\<rparr>"
  have "fill_binding nk i caller n sid s1 = Inr ?s'"
    using m(1) by (simp add: fill_binding_def Let_def s1 set_binding_def)
  moreover have "name_ok ?s'" "registry ?s' = (registry s)(nkey n \<mapsto> (sid, caller))"
    using name_ok_fill [OF s i, of ?b m x ?s'] sid ids names x m by simp_all
  ultimately show ?thesis by blast
qed

text \<open>When a registration is accepted, in terms of the registry.\<close>

definition may_register :: "(nat list \<rightharpoonup> u32 \<times> u32) \<Rightarrow> nat list \<Rightarrow> u32 \<Rightarrow> bool" where
  "may_register m k d =
     (case m k of
        Some (e, _) \<Rightarrow> d = 0 \<or> d = e
      | None \<Rightarrow> d \<notin> fst ` ran m \<and> card (dom m) < NOZA_MAX_SERVICE)"

text \<open>The identifier a registration ends with: the requested one, or that of the existing binding, or a new
  one that is not 0 and not in use.\<close>

definition registered :: "(nat list \<rightharpoonup> u32 \<times> u32) \<Rightarrow> nat list \<Rightarrow> u32 \<Rightarrow> u32 \<Rightarrow> bool" where
  "registered m k d d' \<longleftrightarrow> d' \<noteq> 0 \<and> (d \<noteq> 0 \<longrightarrow> d' = d)
     \<and> (case m k of Some (e, _) \<Rightarrow> d' = e | None \<Rightarrow> d' \<notin> fst ` ran m)"

lemma register_new_ok:
  assumes s: "name_ok s" and n: "validate_name (Some n)" and none: "registry s (nkey n) = None"
    and msg: "nm_name msg = Some n" and may: "may_register (registry s) (nkey n) (nm_service_id msg)"
  shows "\<exists>d s'. handle_register nk msg caller s = Inr (NAME_LOOKUP_OK, msg\<lparr>nm_service_id := d\<rparr>, s') \<and> name_ok s'
    \<and> registered (registry s) (nkey n) (nm_service_id msg) d \<and> registry s' = (registry s)(nkey n \<mapsto> (d, caller))"
proof -
  have names: "\<forall>j\<in>used s. nkey (sb_name (entry s j)) \<noteq> nkey n" using none by (simp add: registry_None)
  have bn: "binding_by_name (Some n) s = None" using names by (simp add: by_name_None [OF n])
  have d: "\<forall>j\<in>used s. sb_service_id (entry s j) \<noteq> nm_service_id msg" "card (used s) < NOZA_MAX_SERVICE"
    using may none by (auto simp: may_register_def registry_ids [OF s] card_registry [OF s] image_iff)
  from d(2) binding_alloc_None [OF s] obtain i s1 where al: "binding_alloc s = Some (i, s1)" by fastforce
  from binding_alloc_Some [OF al] obtain b where i: "i < NOZA_MAX_SERVICE" "i \<notin> used s"
      and s1: "s1 = s\<lparr>service_table := (service_table s)[i := b]\<rparr>" "sb_service_id b = 0" by blast
  note nz = name_okD(2) [OF s]
  show ?thesis
  proof (cases "nm_service_id msg = 0")
    case False
    have "s1 = s\<lparr>service_table := (service_table s)[i := b], next_service_id := next_service_id s\<rparr>" by (simp add: s1)
    from fill_binding_ok [OF s i False d(1) names nz this, of nk caller] obtain s' where
        "fill_binding nk i caller n (nm_service_id msg) s1 = Inr s'" "name_ok s'"
        "registry s' = (registry s)(nkey n \<mapsto> (nm_service_id msg, caller))" by blast
    then show ?thesis using n msg bn al False d(1) none
      by (intro exI [of _ "nm_service_id msg"] exI [of _ s'])
         (auto simp: handle_register_def by_id_None registered_def registry_ids [OF s])
  next
    case True
    from s1 nz obtain g x where g: "allocate_service_id s1 = (g, s1\<lparr>next_service_id := x\<rparr>)" "x \<noteq> 0" "g \<noteq> 0"
        "binding_by_id g s1 = None" using allocate_service_id_ok [of s1] by auto
    have ids: "\<forall>j\<in>used s. sb_service_id (entry s j) \<noteq> g"
      using by_id_alloc [OF s i s1(2) g(3)] g(4) by (simp add: s1)
    have "s1\<lparr>next_service_id := x\<rparr> = s\<lparr>service_table := (service_table s)[i := b], next_service_id := x\<rparr>" by (simp add: s1)
    from fill_binding_ok [OF s i g(3) ids names g(2) this, of nk caller] obtain s' where
        "fill_binding nk i caller n g (s1\<lparr>next_service_id := x\<rparr>) = Inr s'" "name_ok s'"
        "registry s' = (registry s)(nkey n \<mapsto> (g, caller))" by blast
    then show ?thesis using n msg bn al True g ids none
      by (intro exI [of _ g] exI [of _ s']) (auto simp: handle_register_def registered_def registry_ids [OF s])
  qed
qed

lemma register_again_ok:
  assumes s: "name_ok s" and n: "validate_name (Some n)" and old: "registry s (nkey n) = Some (d, v)"
    and msg: "nm_name msg = Some n" and may: "may_register (registry s) (nkey n) (nm_service_id msg)"
  shows "\<exists>s'. handle_register nk msg caller s = Inr (NAME_LOOKUP_OK, msg\<lparr>nm_service_id := d\<rparr>, s') \<and> name_ok s'
    \<and> registered (registry s) (nkey n) (nm_service_id msg) d \<and> registry s' = (registry s)(nkey n \<mapsto> (d, caller))"
proof -
  from old registry_Some [OF s] obtain i where i: "i \<in> used s" "nkey (sb_name (entry s i)) = nkey n"
      "sb_service_id (entry s i) = d" by blast
  then have bn: "binding_by_name (Some n) s = Some i" by (simp add: by_name_Some [OF s n])
  have "d \<noteq> 0" using name_okD(5) [OF s i(1)] i(3) by simp
  moreover have "nm_service_id msg = 0 \<or> nm_service_id msg = d" using may old by (simp add: may_register_def)
  ultimately show ?thesis
    using name_ok_vid [OF s i(1) refl, of caller] n msg bn i(2,3) old
    by (auto simp: handle_register_def registered_def Let_def)
qed

lemma register_ok:
  assumes "name_ok s" "validate_name (Some n)" "nm_name msg = Some n"
    "may_register (registry s) (nkey n) (nm_service_id msg)"
  shows "\<exists>d s'. handle_register nk msg caller s = Inr (NAME_LOOKUP_OK, msg\<lparr>nm_service_id := d\<rparr>, s') \<and> name_ok s'
    \<and> registered (registry s) (nkey n) (nm_service_id msg) d \<and> registry s' = (registry s)(nkey n \<mapsto> (d, caller))"
proof (cases "registry s (nkey n)")
  case None
  with register_new_ok [OF assms(1,2) _ assms(3,4)] show ?thesis by simp
next
  case (Some dv)
  then have "registry s (nkey n) = Some (fst dv, snd dv)" by simp
  from register_again_ok [OF assms(1,2) this assms(3,4)] show ?thesis by blast
qed

lemma register_refused:
  assumes s: "name_ok s" and no: "\<not> (validate_name (nm_name msg)
      \<and> may_register (registry s) (nkey (the (nm_name msg))) (nm_service_id msg))"
  shows "\<exists>c. handle_register nk msg caller s = Inr (c, msg, s) \<and> c \<noteq> NAME_LOOKUP_OK"
proof (cases "validate_name (nm_name msg)")
  case False
  then show ?thesis by (simp add: handle_register_def)
next
  case True
  then obtain n where n: "nm_name msg = Some n" "validate_name (Some n)" by (rule validate_SomeE)
  show ?thesis
  proof (cases "registry s (nkey n)")
    case None
    then have "\<forall>j\<in>used s. nkey (sb_name (entry s j)) \<noteq> nkey n" by (simp add: registry_None)
    then have "binding_by_name (Some n) s = None" by (simp add: by_name_None [OF n(2)])
    moreover have "nm_service_id msg \<in> (\<lambda>i. sb_service_id (entry s i)) ` used s \<or> \<not> card (used s) < NOZA_MAX_SERVICE"
      using no True n None by (simp add: may_register_def registry_ids [OF s] card_registry [OF s])
    moreover have "binding_alloc s = None" if "\<not> card (used s) < NOZA_MAX_SERVICE"
      using that name_okD(8) [OF s] by (simp add: binding_alloc_None [OF s])
    ultimately show ?thesis
      using n True name_okD(5) [OF s] by (auto simp: handle_register_def by_id_None)
  next
    case (Some dv)
    obtain d v where dv: "dv = (d, v)" by fastforce
    with Some registry_Some [OF s] obtain i where i: "i \<in> used s" "nkey (sb_name (entry s i)) = nkey n"
        "sb_service_id (entry s i) = d" by blast
    then have "binding_by_name (Some n) s = Some i" by (simp add: by_name_Some [OF s n(2)])
    moreover have "nm_service_id msg \<noteq> 0" "nm_service_id msg \<noteq> d"
      using no True n Some dv by (auto simp: may_register_def)
    ultimately show ?thesis using n True i(3) by (simp add: handle_register_def Let_def)
  qed
qed

lemma resolve_name_registry:
  assumes s: "name_ok s" and n: "validate_name (Some n)" "nm_name msg = Some n"
  shows "handle_resolve_name msg s =
    (case registry s (nkey n) of
       None \<Rightarrow> (NAME_LOOKUP_ERR_NOT_FOUND, msg)
     | Some (d, v) \<Rightarrow> (NAME_LOOKUP_OK, msg\<lparr>nm_service_id := d, nm_vid := v\<rparr>))"
  using s
proof (cases rule: registry_cases [where k = "nkey n"])
  case (Some i)
  then have "binding_by_name (Some n) s = Some i" by (simp add: by_name_Some [OF s n(1)])
  with Some n show ?thesis by (simp add: handle_resolve_name_def)
next
  case None
  then have "binding_by_name (Some n) s = None" by (simp add: by_name_None [OF n(1)])
  with None n show ?thesis by (simp add: handle_resolve_name_def)
qed

lemma unregister_binding:
  assumes s: "name_ok s" and i: "i \<in> used s"
  obtains m where "simap_clear (smap s) (sb_name (entry s i)) = Inr (0, m)"
    "name_ok (binding_release i (s\<lparr>smap := m\<rparr>))"
    "registry (binding_release i (s\<lparr>smap := m\<rparr>)) = (registry s)(nkey (sb_name (entry s i)) := None)"
proof -
  note ok = name_okD [OF s]
  have "simap_get_value (smap s) (sb_name (entry s i)) \<noteq> None"
    using i ok(7) get_None_iff [OF ok(3)] by (auto simp del: not_None_eq)
  from simap_clear_ok [OF ok(3) this] obtain m where m: "simap_clear (smap s) (sb_name (entry s i)) = Inr (0, m)"
      "simap_ok m" "free_nodes m = free_nodes (smap s) + 1"
      "keys (map_root m) = keys (map_root (smap s)) - {nkey (sb_name (entry s i))}" by blast
  from that [OF m(1)] name_ok_release [OF s i m(2,4,3) refl] show thesis by blast
qed

lemma unregister_ok:
  assumes s: "name_ok s"
  shows "\<exists>c s'. handle_unregister msg s = Inr (c, s') \<and> name_ok s'
    \<and> (if c = NAME_LOOKUP_OK then \<exists>k\<in>dom (registry s). registry s' = (registry s)(k := None) else s' = s)"
proof -
  define b where "b = (if nm_service_id msg \<noteq> 0 then binding_by_id (nm_service_id msg) s
      else if validate_name (nm_name msg) then
        (case simap_get_value (smap s) (the (nm_name msg)) of
           Some stored_id \<Rightarrow> binding_by_id stored_id s | None \<Rightarrow> None) else None)"
  have u: "handle_unregister msg s = (case b of None \<Rightarrow> Inr (NAME_LOOKUP_ERR_NOT_FOUND, s)
      | Some i \<Rightarrow> bindE (simap_clear (smap s) (sb_name (entry s i))) (\<lambda>(_, m).
          Inr (NAME_LOOKUP_OK, binding_release i (s\<lparr>smap := m\<rparr>))))"
    by (simp add: handle_unregister_def b_def Let_def)
  show ?thesis
  proof (cases b)
    case None
    then show ?thesis using s by (simp add: u)
  next
    case (Some i)
    then have i: "i \<in> used s" by (auto simp: b_def by_id_Some [OF s] split: if_splits option.splits)
    then have "nkey (sb_name (entry s i)) \<in> dom (registry s)" by (simp add: dom_registry [OF s])
    moreover obtain m where "simap_clear (smap s) (sb_name (entry s i)) = Inr (0, m)"
        "name_ok (binding_release i (s\<lparr>smap := m\<rparr>))"
        "registry (binding_release i (s\<lparr>smap := m\<rparr>)) = (registry s)(nkey (sb_name (entry s i)) := None)"
      by (rule unregister_binding [OF s i])
    ultimately show ?thesis by (intro exI [of _ 0] exI [of _ "binding_release i (s\<lparr>smap := m\<rparr>)"]) (auto simp: u Some)
  qed
qed

lemma unregister_id_ok:
  assumes s: "name_ok s" and k: "registry s k = Some (d, v)" and msg: "nm_service_id msg = d"
  shows "\<exists>s'. handle_unregister msg s = Inr (NAME_LOOKUP_OK, s') \<and> name_ok s' \<and> registry s' = (registry s)(k := None)"
proof -
  from k registry_Some [OF s] obtain i where i: "i \<in> used s" "nkey (sb_name (entry s i)) = k" "sb_service_id (entry s i) = d"
    by blast
  with name_okD(5) [OF s, of i] have "d \<noteq> 0" by simp
  have b: "binding_by_id d s = Some i" using i by (simp add: by_id_Some [OF s])
  obtain m where "simap_clear (smap s) (sb_name (entry s i)) = Inr (0, m)"
      "name_ok (binding_release i (s\<lparr>smap := m\<rparr>))"
      "registry (binding_release i (s\<lparr>smap := m\<rparr>)) = (registry s)(nkey (sb_name (entry s i)) := None)"
    by (rule unregister_binding [OF s i(1)])
  then show ?thesis using \<open>d \<noteq> 0\<close> b i(2) msg by (simp add: handle_unregister_def)
qed

section \<open>The server as a transition system\<close>

text \<open>A step serves a request, whatever it contains and whoever sent it.\<close>

definition name_step :: "string \<Rightarrow> name_server \<Rightarrow> name_server \<Rightarrow> bool" where
  "name_step nk s s' \<longleftrightarrow> (\<exists>msize caller msg msg'. do_name_server nk msize caller msg s = Inr (msg', s'))"

lemma do_name_server_ok:
  assumes s: "name_ok s"
  shows "ok (do_name_server nk msize caller msg s) (\<lambda>(msg', s'). name_ok s')"
proof -
  have "ok (handle_register nk msg caller s) (\<lambda>r. name_ok (snd (snd r)))"
  proof (cases "validate_name (nm_name msg) \<and> may_register (registry s) (nkey (the (nm_name msg))) (nm_service_id msg)")
    case True
    then obtain n where n: "nm_name msg = Some n" "validate_name (Some n)" by (blast elim: validate_SomeE)
    with True obtain d s' where "handle_register nk msg caller s = Inr (NAME_LOOKUP_OK, msg\<lparr>nm_service_id := d\<rparr>, s')" "name_ok s'"
      using register_ok [OF s n(2,1), of nk caller] by auto
    then show ?thesis by simp
  next
    case False
    from register_refused [OF s this, of nk caller] obtain c where "handle_register nk msg caller s = Inr (c, msg, s)" by blast
    then show ?thesis using s by simp
  qed
  moreover have "ok (handle_unregister msg s) (\<lambda>r. name_ok (snd r))"
  proof -
    from unregister_ok [OF s, of msg] obtain c s' where "handle_unregister msg s = Inr (c, s')" "name_ok s'" by blast
    then show ?thesis by simp
  qed
  ultimately show ?thesis using s
    by (simp add: do_name_server_def split_def Let_def)
qed

interpretation names: invariant_system "\<lambda>s. s = name_server_start" "name_step nk" name_ok
proof unfold_locales
  show "name_ok s'" if "name_ok s" "name_step nk s s'" for s s'
  proof -
    from that(2) obtain msize caller msg msg' where "do_name_server nk msize caller msg s = Inr (msg', s')"
      by (auto simp: name_step_def)
    with do_name_server_ok [OF that(1), of nk msize caller msg] show ?thesis by simp
  qed
qed (simp add: name_server_start_ok)

section \<open>Clients\<close>

text \<open>The client calls of \<^verbatim>\<open>service/name_lookup/name_lookup_client.c\<close>. \<open>call\<close> stands for \<^verbatim>\<open>noza_call\<close> to the
  name server: it gives the return value of the system call, the message after the reply, and the state of
  the server. The arguments \<open>service_id\<close> and \<open>vid\<close> that may be null pointers are optional.\<close>

definition name_lookup_register ::
  "(name_msg_t \<Rightarrow> 's \<Rightarrow> (int \<times> name_msg_t \<times> 's) res) \<Rightarrow> string option \<Rightarrow> u32 option \<Rightarrow> 's \<Rightarrow> (int \<times> u32 option \<times> 's) res" where
  "name_lookup_register call nm service_id s =
     (let requested_id = (case service_id of Some d \<Rightarrow> d | None \<Rightarrow> 0);
          msg = \<lparr>nm_cmd = NAME_LOOKUP_REGISTER, nm_name = nm, nm_service_id = requested_id, nm_vid = 0, nm_code = 0\<rparr>
      in bindE (call msg s) (\<lambda>(ret, msg', s').
         if ret \<noteq> 0 then Inr (ret, service_id, s')
         else if nm_code msg' = NAME_LOOKUP_OK \<and> service_id \<noteq> None
         then Inr (nm_code msg', Some (nm_service_id msg'), s')
         else Inr (nm_code msg', service_id, s')))"

definition name_lookup_resolve ::
  "(name_msg_t \<Rightarrow> 's \<Rightarrow> (int \<times> name_msg_t \<times> 's) res) \<Rightarrow> string option \<Rightarrow> u32 option \<Rightarrow> u32 option \<Rightarrow> 's
     \<Rightarrow> (int \<times> u32 option \<times> u32 option \<times> 's) res" where
  "name_lookup_resolve call nm service_id vid s =
     (let msg = \<lparr>nm_cmd = NAME_LOOKUP_RESOLVE_NAME, nm_name = nm,
                 nm_service_id = (case service_id of Some d \<Rightarrow> d | None \<Rightarrow> 0), nm_vid = 0, nm_code = 0\<rparr>
      in bindE (call msg s) (\<lambda>(ret, msg', s').
         if ret \<noteq> 0 then Inr (ret, service_id, vid, s')
         else if nm_code msg' = NAME_LOOKUP_OK
         then Inr (nm_code msg', map_option (\<lambda>_. nm_service_id msg') service_id, map_option (\<lambda>_. nm_vid msg') vid, s')
         else Inr (nm_code msg', service_id, vid, s')))"

definition name_lookup_resolve_id ::
  "(name_msg_t \<Rightarrow> 's \<Rightarrow> (int \<times> name_msg_t \<times> 's) res) \<Rightarrow> u32 \<Rightarrow> u32 option \<Rightarrow> 's \<Rightarrow> (int \<times> u32 option \<times> 's) res" where
  "name_lookup_resolve_id call service_id vid s =
     (let msg = \<lparr>nm_cmd = NAME_LOOKUP_RESOLVE_ID, nm_name = None, nm_service_id = service_id, nm_vid = 0, nm_code = 0\<rparr>
      in bindE (call msg s) (\<lambda>(ret, msg', s').
         if ret \<noteq> 0 then Inr (ret, vid, s')
         else if nm_code msg' = NAME_LOOKUP_OK then Inr (nm_code msg', map_option (\<lambda>_. nm_vid msg') vid, s')
         else Inr (nm_code msg', vid, s')))"

definition name_lookup_unregister ::
  "(name_msg_t \<Rightarrow> 's \<Rightarrow> (int \<times> name_msg_t \<times> 's) res) \<Rightarrow> u32 \<Rightarrow> 's \<Rightarrow> (int \<times> 's) res" where
  "name_lookup_unregister call service_id s =
     (let msg = \<lparr>nm_cmd = NAME_LOOKUP_UNREGISTER, nm_name = None, nm_service_id = service_id, nm_vid = 0, nm_code = 0\<rparr>
      in bindE (call msg s) (\<lambda>(ret, msg', s'). if ret \<noteq> 0 then Inr (ret, s') else Inr (nm_code msg', s')))"

text \<open>A call that the kernel delivers: the server receives the whole message and replies.\<close>

definition name_call :: "string \<Rightarrow> u32 \<Rightarrow> name_msg_t \<Rightarrow> name_server \<Rightarrow> (int \<times> name_msg_t \<times> name_server) res" where
  "name_call nk caller msg s = bindE (do_name_server nk 20 caller msg s) (\<lambda>(msg', s'). Inr (0, msg', s'))"

text \<open>The contract services rely on: a registration that is accepted makes the name resolve to its thread and
  changes no other name. Then all services of a list can be found once all are registered.\<close>

fun register_all :: "('n \<Rightarrow> 'v \<Rightarrow> 's \<Rightarrow> 's option) \<Rightarrow> ('n \<times> 'v) list \<Rightarrow> 's \<Rightarrow> 's option" where
  "register_all reg [] s = Some s"
| "register_all reg ((n, v) # nvs) s = Option.bind (reg n v s) (register_all reg nvs)"

locale naming =
  fixes good :: "'s \<Rightarrow> bool"
    and same :: "'n \<Rightarrow> 'n \<Rightarrow> bool"
    and register :: "'n \<Rightarrow> 'v \<Rightarrow> 's \<Rightarrow> 's option"
    and resolve :: "'n \<Rightarrow> 's \<Rightarrow> 'v option"
  assumes register_good: "good s \<Longrightarrow> register n v s = Some s' \<Longrightarrow> good s'"
    and resolve_register: "good s \<Longrightarrow> register n v s = Some s' \<Longrightarrow>
      resolve n' s' = (if same n' n then Some v else resolve n' s)"
begin

lemma register_all_good: "good s \<Longrightarrow> register_all register nvs s = Some s' \<Longrightarrow> good s'"
proof (induction nvs arbitrary: s)
  case (Cons nv nvs)
  obtain n v where nv: "nv = (n, v)" by fastforce
  with Cons.prems obtain s1 where "register n v s = Some s1" "register_all register nvs s1 = Some s'"
    by (auto simp: bind_eq_Some_conv)
  with Cons.IH Cons.prems(1) register_good show ?case by blast
qed simp

lemma register_all_other:
  assumes "good s" "register_all register nvs s = Some s'" "\<forall>(m, w)\<in>set nvs. \<not> same n m"
  shows "resolve n s' = resolve n s"
  using assms
proof (induction nvs arbitrary: s)
  case (Cons nv nvs)
  obtain m v where nv: "nv = (m, v)" by fastforce
  from Cons.prems(2) obtain s1 where s1: "register m v s = Some s1" "register_all register nvs s1 = Some s'"
    by (auto simp: nv bind_eq_Some_conv)
  show ?case
    using Cons.IH [OF register_good [OF Cons.prems(1) s1(1)] s1(2)] resolve_register [OF Cons.prems(1) s1(1), of n] Cons.prems(3)
    by (auto simp: nv)
qed simp

lemma register_all_resolves:
  assumes "good s" "register_all register nvs s = Some s'" "(n, v) \<in> set nvs"
    and "same n n" and "\<And>m w. (m, w) \<in> set nvs \<Longrightarrow> (m, w) \<noteq> (n, v) \<Longrightarrow> \<not> same n m" and "distinct nvs"
  shows "resolve n s' = Some v"
  using assms
proof (induction nvs arbitrary: s)
  case (Cons nv nvs)
  obtain m w where nv: "nv = (m, w)" by fastforce
  from Cons.prems(2) obtain s1 where s1: "register m w s = Some s1" "register_all register nvs s1 = Some s'"
    by (auto simp: nv bind_eq_Some_conv)
  note g = register_good [OF Cons.prems(1) s1(1)]
  show ?case
  proof (cases "nv = (n, v)")
    case True
    with Cons.prems(6) have "(n, v) \<notin> set nvs" by auto
    then have "\<forall>(m, w)\<in>set nvs. \<not> same n m" using Cons.prems(5) by fastforce
    from register_all_other [OF g s1(2) this] resolve_register [OF Cons.prems(1) s1(1), of n] True nv Cons.prems(4)
    show ?thesis by simp
  next
    case False
    with Cons.prems show ?thesis by (intro Cons.IH [OF g s1(2)]) auto
  qed
qed simp

end

text \<open>Registration and resolution as a client sees them: through the client calls, the server's loop and its
  tables.\<close>

definition register_name :: "string \<Rightarrow> string \<Rightarrow> u32 \<Rightarrow> name_server \<Rightarrow> name_server option" where
  "register_name nk n v s =
     (case name_lookup_register (name_call nk v) (Some n) None s of
        Inr (c, _, s') \<Rightarrow> if c = NAME_LOOKUP_OK then Some s' else None
      | Inl _ \<Rightarrow> None)"

definition resolve_name :: "string \<Rightarrow> string \<Rightarrow> name_server \<Rightarrow> u32 option" where
  "resolve_name nk n s =
     (case name_lookup_resolve (name_call nk 0) (Some n) None (Some 0) s of
        Inr (c, _, v, _) \<Rightarrow> if c = NAME_LOOKUP_OK then v else None
      | Inl _ \<Rightarrow> None)"

definition same_name :: "string \<Rightarrow> string \<Rightarrow> bool" where
  "same_name n m \<longleftrightarrow> validate_name (Some n) \<and> strncmp n m MAX_NAME_LEN = 0"

lemma resolve_name_eq:
  assumes "name_ok s"
  shows "resolve_name nk n s = (if validate_name (Some n) then map_option snd (registry s (nkey n)) else None)"
proof (cases "validate_name (Some n)")
  case True
  let ?m = "\<lparr>nm_cmd = NAME_LOOKUP_RESOLVE_NAME, nm_name = Some n, nm_service_id = 0, nm_vid = 0, nm_code = 0\<rparr>"
  have "handle_resolve_name ?m s = (case registry s (nkey n) of None \<Rightarrow> (NAME_LOOKUP_ERR_NOT_FOUND, ?m)
      | Some (d, v) \<Rightarrow> (NAME_LOOKUP_OK, ?m\<lparr>nm_service_id := d, nm_vid := v\<rparr>))"
    by (rule resolve_name_registry [OF assms True]) simp
  with True show ?thesis
    by (cases "registry s (nkey n)")
       (auto simp: resolve_name_def name_lookup_resolve_def name_call_def do_name_server_def Let_def)
next
  case False
  then show ?thesis
    by (simp add: resolve_name_def name_lookup_resolve_def name_call_def do_name_server_def handle_resolve_name_def)
qed

abbreviation reg_msg :: "string \<Rightarrow> name_msg_t" where
  "reg_msg n \<equiv> \<lparr>nm_cmd = NAME_LOOKUP_REGISTER, nm_name = Some n, nm_service_id = 0, nm_vid = 0, nm_code = 0\<rparr>"

lemma register_name_eq:
  "register_name nk n v s = (case handle_register nk (reg_msg n) v s of
     Inr (c, msg, s') \<Rightarrow> if c = NAME_LOOKUP_OK then Some s' else None | Inl _ \<Rightarrow> None)"
  by (auto simp: register_name_def name_lookup_register_def name_call_def do_name_server_def split: sum.split)

lemma register_name_ok:
  assumes s: "name_ok s" and n: "validate_name (Some n)" "may_register (registry s) (nkey n) 0"
  shows "\<exists>d s'. register_name nk n v s = Some s' \<and> name_ok s' \<and> registry s' = (registry s)(nkey n \<mapsto> (d, v))"
  using register_ok [OF s n(1), of "reg_msg n" nk v] n(2) by (fastforce simp: register_name_eq)

lemma register_name_SomeD:
  assumes s: "name_ok s" and r: "register_name nk n v s = Some s'"
  shows "validate_name (Some n) \<and> name_ok s' \<and> (\<exists>d. registry s' = (registry s)(nkey n \<mapsto> (d, v)))"
proof (cases "validate_name (Some n) \<and> may_register (registry s) (nkey n) 0")
  case True
  with register_name_ok [OF s, of n nk v] r show ?thesis by auto
next
  case False
  from register_refused [OF s, of "reg_msg n" nk v] False obtain c where
    "handle_register nk (reg_msg n) v s = Inr (c, reg_msg n, s)" "c \<noteq> NAME_LOOKUP_OK" by auto
  with r show ?thesis by (simp add: register_name_eq)
qed

interpretation name_service: naming name_ok same_name "register_name nk" "resolve_name nk"
proof unfold_locales
  fix s n v s' n'
  assume s: "name_ok s" and r: "register_name nk n v s = Some s'"
  note r = register_name_SomeD [OF s r]
  then show n: "name_ok s'" by blast
  from r show "resolve_name nk n' s' = (if same_name n' n then Some v else resolve_name nk n' s)"
    by (auto simp: resolve_name_eq [OF s] resolve_name_eq [OF n] same_name_def strncmp_eq)
qed

section \<open>Properties\<close>

text \<open>C14: Registration refines an update of the registry, the finite map from names to pairs of a service
  identifier and a thread. It is accepted exactly when the name is valid and either known with the same
  identifier (or none given), or new with an unused identifier and fewer than sixteen services; then the name
  is bound to the caller under the requested, the old or a fresh non-zero identifier. Otherwise an error is
  returned and nothing changes.\<close>

theorem register_refines:
  assumes "name_ok s" "nm_name msg = Some n"
  shows "\<exists>c msg' s'. handle_register nk msg caller s = Inr (c, msg', s') \<and> name_ok s'
    \<and> (c = NAME_LOOKUP_OK \<longleftrightarrow> validate_name (Some n) \<and> may_register (registry s) (nkey n) (nm_service_id msg))
    \<and> (if c = NAME_LOOKUP_OK
       then registered (registry s) (nkey n) (nm_service_id msg) (nm_service_id msg')
         \<and> registry s' = (registry s)(nkey n \<mapsto> (nm_service_id msg', caller))
       else msg' = msg \<and> s' = s)"
proof (cases "validate_name (Some n) \<and> may_register (registry s) (nkey n) (nm_service_id msg)")
  case True
  with register_ok [OF assms(1) _ assms(2), of nk caller] obtain d s' where
    "handle_register nk msg caller s = Inr (NAME_LOOKUP_OK, msg\<lparr>nm_service_id := d\<rparr>, s')" "name_ok s'"
    "registered (registry s) (nkey n) (nm_service_id msg) d" "registry s' = (registry s)(nkey n \<mapsto> (d, caller))" by blast
  with True show ?thesis by simp
next
  case False
  then have "\<not> (validate_name (nm_name msg) \<and> may_register (registry s) (nkey (the (nm_name msg))) (nm_service_id msg))"
    by (simp add: assms(2))
  from register_refused [OF assms(1) this, of nk caller] obtain c where
    "handle_register nk msg caller s = Inr (c, msg, s)" "c \<noteq> NAME_LOOKUP_OK" by blast
  with False assms(1) show ?thesis by simp
qed

theorem register_refines_witness:
  "\<exists>msg' s'. handle_register ''ROM'' (reg_msg ''irq.svc'') 65000 name_server_start = Inr (NAME_LOOKUP_OK, msg', s')
    \<and> registry s' (nkey ''irq.svc'') = Some (nm_service_id msg', 65000) \<and> nm_service_id msg' \<noteq> 0"
proof -
  have n: "nm_name (reg_msg ''irq.svc'') = Some ''irq.svc''" by simp
  have "validate_name (Some ''irq.svc'')" by code_simp
  moreover have "may_register (registry name_server_start) (nkey ''irq.svc'') 0"
    by (simp add: may_register_def registry_start)
  ultimately show ?thesis
    using register_refines [OF name_server_start_ok n, of "''ROM''" 65000] by (auto simp: registered_def)
qed

lemma register_all_ok:
  assumes "name_ok s" "card (dom (registry s)) + length nvs \<le> NOZA_MAX_SERVICE" "\<forall>(n, v)\<in>set nvs. validate_name (Some n)"
  shows "\<exists>s'. register_all (register_name nk) nvs s = Some s'"
  using assms
proof (induction nvs arbitrary: s)
  case (Cons nv nvs)
  obtain n v where nv: "nv = (n, v)" by fastforce
  have fin: "finite (dom (registry s))" using Cons.prems(1) by (simp add: dom_registry)
  have "0 \<notin> fst ` ran (registry s)" 
  proof
    assume "0 \<in> fst ` ran (registry s)"
    then obtain i where "i \<in> used s" "sb_service_id (entry s i) = 0" unfolding registry_ids [OF Cons.prems(1)] by auto
    then show False using name_okD(5) [OF Cons.prems(1)] by blast
  qed
  then have "may_register (registry s) (nkey n) 0"
    using Cons.prems(2) by (auto simp: may_register_def split: option.split)
  with register_name_ok [OF Cons.prems(1), of n nk v] Cons.prems(3) obtain d s' where
    s': "register_name nk n v s = Some s'" "name_ok s'" "registry s' = (registry s)(nkey n \<mapsto> (d, v))" by (auto simp: nv)
  have "card (dom (registry s')) \<le> card (dom (registry s)) + 1" using fin by (simp add: s'(3) card_insert_if)
  with Cons.IH [OF s'(2)] Cons.prems(2,3) s'(1) show ?case by (auto simp: nv)
qed simp

text \<open>C15: Up to sixteen services with valid and different names can all be registered after the start of the name
  server, and then each of them is found under its name, through the client calls and the server's loop.\<close>

theorem services_found:
  assumes "length nvs \<le> NOZA_MAX_SERVICE" "\<forall>(n, v)\<in>set nvs. validate_name (Some n)"
    and "distinct (map (\<lambda>(n, v). nkey n) nvs)"
  shows "\<exists>s. register_all (register_name nk) nvs name_server_start = Some s
    \<and> (\<forall>(n, v)\<in>set nvs. resolve_name nk n s = Some v)"
proof -
  from register_all_ok [OF name_server_start_ok, of nvs nk] assms(1,2)
  obtain s where s: "register_all (register_name nk) nvs name_server_start = Some s" by (auto simp: registry_start)
  moreover have "resolve_name nk n s = Some v" if nv: "(n, v) \<in> set nvs" for n v
  proof (rule name_service.register_all_resolves [OF name_server_start_ok s nv])
    show "same_name n n" using assms(2) nv by (auto simp: same_name_def strncmp_eq)
    show "distinct nvs" using assms(3) by (simp add: distinct_map)
    show "\<not> same_name n m" if "(m, w) \<in> set nvs" "(m, w) \<noteq> (n, v)" for m w
      using assms(3) nv that by (auto simp: same_name_def strncmp_eq distinct_map inj_on_def)
  qed
  ultimately show ?thesis by auto
qed

theorem services_found_witness:
  "\<exists>s. register_all (register_name ''ROM'') [(''noza_sync'', 5), (''irq.svc'', 65000)] name_server_start = Some s
    \<and> resolve_name ''ROM'' ''noza_sync'' s = Some 5 \<and> resolve_name ''ROM'' ''irq.svc'' s = Some 65000"
proof -
  let ?l = "[(''noza_sync'', 5), (''irq.svc'', 65000)] :: (string \<times> u32) list"
  have "length ?l \<le> NOZA_MAX_SERVICE" by simp
  moreover have "\<forall>(n, v)\<in>set ?l. validate_name (Some n)" by code_simp
  moreover have "distinct (map (\<lambda>(n, v). nkey n) ?l)" by code_simp
  ultimately show ?thesis using services_found [of ?l "''ROM''"] by auto
qed

text \<open>C16: In every state the name server can reach, identifiers and names of the services are unique, the search
  tree is ordered and balanced and holds exactly the registered names, and the next request, whatever it
  contains, is answered without a fault.\<close>

theorem name_server_invariant:
  assumes "(name_step nk)\<^sup>*\<^sup>* name_server_start s"
  shows "name_ok s \<and> (\<exists>msg' s'. do_name_server nk msize caller msg s = Inr (msg', s'))"
proof -
  have "name_ok s" by (rule names.reach_inv [OF refl assms])
  with do_name_server_ok [OF this, of nk msize caller msg] show ?thesis by (auto simp: ok_def)
qed

theorem name_server_invariant_witness:
  "\<exists>s. name_step ''ROM'' name_server_start s \<and> name_ok s
    \<and> (\<exists>msg' s'. do_name_server ''ROM'' 20 7 (reg_msg ''fs'') s = Inr (msg', s'))"
proof -
  from do_name_server_ok [OF name_server_start_ok, of "''ROM''" 20 6 "reg_msg ''fs''"] obtain m s where
    "do_name_server ''ROM'' 20 6 (reg_msg ''fs'') name_server_start = Inr (m, s)" by (auto simp: ok_def)
  then have st: "name_step ''ROM'' name_server_start s" unfolding name_step_def by blast
  then have "(name_step ''ROM'')\<^sup>*\<^sup>* name_server_start s" by blast
  from name_server_invariant [OF this, of 20 7 "reg_msg ''fs''"] st show ?thesis by blast
qed

text \<open>Removal by identifier takes exactly the service with this identifier out of the registry.\<close>

theorem unregister_by_id:
  assumes "name_ok s" "registry s k = Some (d, v)" "nm_service_id msg = d"
  shows "\<exists>s'. handle_unregister msg s = Inr (NAME_LOOKUP_OK, s') \<and> name_ok s' \<and> registry s' = (registry s)(k := None)"
  by (rule unregister_id_ok [OF assms])

text \<open>Three services, of which the first one's node has two children.\<close>

definition three_services :: name_server where
  "three_services =
     \<lparr>service_table =
        [\<lparr>sb_service_id = 1, sb_vid = 11, sb_name = ''irq'', sb_in_use = True\<rparr>,
         \<lparr>sb_service_id = 2, sb_vid = 12, sb_name = ''fs'', sb_in_use = True\<rparr>,
         \<lparr>sb_service_id = 3, sb_vid = 13, sb_name = ''sync'', sb_in_use = True\<rparr>]
        @ replicate 13 \<lparr>sb_service_id = 0, sb_vid = 0, sb_name = [], sb_in_use = False\<rparr>,
      next_service_id = 4, smap = demo_map\<rparr>"

lemma three_services_reached:
  "register_all (register_name ''ROM'') [(''irq'', 11), (''fs'', 12), (''sync'', 13)] name_server_start
    = Some three_services"
  by code_simp

lemma three_services_ok: "name_ok three_services"
  by (rule name_service.register_all_good [OF name_server_start_ok three_services_reached])

theorem unregister_by_id_witness:
  "\<exists>s'. handle_unregister ((reg_msg [])\<lparr>nm_service_id := 1\<rparr>) three_services = Inr (NAME_LOOKUP_OK, s')
    \<and> registry s' (nkey ''irq'') = None \<and> registry s' (nkey ''sync'') = Some (3, 13)"
proof -
  have r: "registry three_services (nkey ''irq'') = Some (1, 11)" "registry three_services (nkey ''sync'') = Some (3, 13)"
    "nkey ''sync'' \<noteq> nkey ''irq''" by code_simp+
  have m: "nm_service_id ((reg_msg [])\<lparr>nm_service_id := 1\<rparr>) = 1" by simp
  from unregister_by_id [OF three_services_ok r(1) m] r(2,3) show ?thesis by auto
qed


end
