(* ===== verification/Sync_Server.thy ===== *)
theory Sync_Server
  imports Kernel_State "HOL-Library.Multiset"
begin

text \<open>
  The synchronisation server (\<^verbatim>\<open>service/sync/sync_serv.c\<close>): sixteen mutexes, condition variables and
  semaphores, and a pool of sixteen nodes in which requests wait. A request is a message of words in the
  memory of the client, which the server reads and writes; a reply is recorded in \<open>replies\<close>. A node list is
  the list of its indices (theory \<open>Cdl\<close> relates the pointer operations of \<^verbatim>\<open>type/dblist.c\<close> to such lists); linking
  an object that is already linked is \<open>List_corrupt\<close>. The lemmas show which requests keep the lists
  well-formed, that mutexes and semaphores refine a fair lock and a counting semaphore, and how condition
  variables lose waiters and nodes.
\<close>

section \<open>Data\<close>

abbreviation "MAX_LOCKS \<equiv> (16 :: nat)"
abbreviation "MAX_CONDS \<equiv> (16 :: nat)"
abbreviation "MAX_SEMS \<equiv> (16 :: nat)"
abbreviation "MAX_PENDING \<equiv> (16 :: nat)"

text \<open>Commands and return codes of \<^verbatim>\<open>service/sync/sync_serv.h\<close>.\<close>

abbreviation "MUTEX_ACQUIRE \<equiv> (1 :: u32)"
abbreviation "MUTEX_RELEASE \<equiv> (2 :: u32)"
abbreviation "MUTEX_LOCK \<equiv> (3 :: u32)"
abbreviation "MUTEX_TRYLOCK \<equiv> (4 :: u32)"
abbreviation "MUTEX_UNLOCK \<equiv> (5 :: u32)"
abbreviation "MUTEX_TAIL \<equiv> (6 :: u32)"
abbreviation "COND_ACQUIRE \<equiv> (7 :: u32)"
abbreviation "COND_RELEASE \<equiv> (8 :: u32)"
abbreviation "COND_WAIT \<equiv> (9 :: u32)"
abbreviation "COND_SIGNAL \<equiv> (11 :: u32)"
abbreviation "COND_BROADCAST \<equiv> (12 :: u32)"
abbreviation "COND_TAIL \<equiv> (13 :: u32)"
abbreviation "SEM_ACQUIRE \<equiv> (14 :: u32)"
abbreviation "SEM_RELEASE \<equiv> (15 :: u32)"
abbreviation "SEM_WAIT \<equiv> (16 :: u32)"
abbreviation "SEM_TRYWAIT \<equiv> (17 :: u32)"
abbreviation "SEM_POST \<equiv> (18 :: u32)"
abbreviation "SEM_GETVALUE \<equiv> (19 :: u32)"
abbreviation "SEM_TAIL \<equiv> (20 :: u32)"
abbreviation "SUCCESS \<equiv> (0 :: u32)"

record mutex_item_t =
  m_pending :: "nat list"
  m_lock :: u32
  m_token :: u32

record cond_item_t =
  c_pending :: "nat list"
  c_signaled :: u32
  c_token :: u32

record sem_item_t =
  s_pending :: "nat list"
  s_token :: u32
  s_value :: u32

record sync_info_t =
  mutex_store :: "nat \<Rightarrow> mutex_item_t"
  mutex_head :: "nat list"
  cond_store :: "nat \<Rightarrow> cond_item_t"
  cond_head :: "nat list"
  sem_store :: "nat \<Rightarrow> sem_item_t"
  sem_head :: "nat list"
  free_pending_head :: "nat list"
  pending_store :: "nat \<Rightarrow> noza_msg_t"
  mem :: "u32 \<Rightarrow> u32"
  replies :: "noza_msg_t list"

text \<open>Words of a message: \<^verbatim>\<open>cmd\<close>, \<^verbatim>\<open>mid\<close> or \<^verbatim>\<open>sid\<close>, \<^verbatim>\<open>token\<close>, \<^verbatim>\<open>mtoken\<close> or \<^verbatim>\<open>stoken\<close>, and \<^verbatim>\<open>code\<close> of
  mutex and condition messages come first; then \<^verbatim>\<open>cid\<close> and \<^verbatim>\<open>ctoken\<close>. A semaphore message has \<^verbatim>\<open>value\<close>
  where the others have \<^verbatim>\<open>code\<close>, and its \<^verbatim>\<open>code\<close> after it.\<close>

abbreviation "F_CMD \<equiv> (0 :: u32)"
abbreviation "F_MID \<equiv> (4 :: u32)"
abbreviation "F_TOKEN \<equiv> (8 :: u32)"
abbreviation "F_CODE \<equiv> (12 :: u32)"
abbreviation "F_CID \<equiv> (16 :: u32)"
abbreviation "F_CTOKEN \<equiv> (20 :: u32)"
abbreviation "F_VALUE \<equiv> (12 :: u32)"
abbreviation "F_SCODE \<equiv> (16 :: u32)"

definition rd :: "noza_msg_t \<Rightarrow> u32 \<Rightarrow> sync_info_t \<Rightarrow> u32" where
  "rd msg f s = mem s (msg_ptr msg + f)"

definition wr :: "noza_msg_t \<Rightarrow> u32 \<Rightarrow> u32 \<Rightarrow> sync_info_t \<Rightarrow> sync_info_t" where
  "wr msg f v s = s\<lparr>mem := (mem s)(msg_ptr msg + f := v)\<rparr>"

definition noza_reply :: "noza_msg_t \<Rightarrow> sync_info_t \<Rightarrow> sync_info_t" where
  "noza_reply msg s = s\<lparr>replies := replies s @ [msg]\<rparr>"

text \<open>A return code and the reply.\<close>

definition answer :: "noza_msg_t \<Rightarrow> u32 \<Rightarrow> u32 \<Rightarrow> sync_info_t \<Rightarrow> sync_info_t" where
  "answer msg f code s = noza_reply msg (wr msg f code s)"

definition upd_mutex :: "nat \<Rightarrow> (mutex_item_t \<Rightarrow> mutex_item_t) \<Rightarrow> sync_info_t \<Rightarrow> sync_info_t" where
  "upd_mutex i f s = s\<lparr>mutex_store := (mutex_store s)(i := f (mutex_store s i))\<rparr>"

definition upd_cond :: "nat \<Rightarrow> (cond_item_t \<Rightarrow> cond_item_t) \<Rightarrow> sync_info_t \<Rightarrow> sync_info_t" where
  "upd_cond i f s = s\<lparr>cond_store := (cond_store s)(i := f (cond_store s i))\<rparr>"

definition upd_sem :: "nat \<Rightarrow> (sem_item_t \<Rightarrow> sem_item_t) \<Rightarrow> sync_info_t \<Rightarrow> sync_info_t" where
  "upd_sem i f s = s\<lparr>sem_store := (sem_store s)(i := f (sem_store s i))\<rparr>"

section \<open>Nodes\<close>

definition link_tail :: "nat \<Rightarrow> nat list \<Rightarrow> nat list res" where
  "link_tail i xs = (if i \<in> set xs then Inl List_corrupt else Inr (xs @ [i]))"

definition mutex_insert_pending_tail :: "nat \<Rightarrow> nat \<Rightarrow> sync_info_t \<Rightarrow> sync_info_t res" where
  "mutex_insert_pending_tail i pm s =
     bindE (link_tail pm (m_pending (mutex_store s i))) (\<lambda>xs. Inr (upd_mutex i (\<lambda>m. m\<lparr>m_pending := xs\<rparr>) s))"

definition sem_insert_pending_tail :: "nat \<Rightarrow> nat \<Rightarrow> sync_info_t \<Rightarrow> sync_info_t res" where
  "sem_insert_pending_tail i pm s =
     bindE (link_tail pm (s_pending (sem_store s i))) (\<lambda>xs. Inr (upd_sem i (\<lambda>m. m\<lparr>s_pending := xs\<rparr>) s))"

definition get_free_pending :: "sync_info_t \<Rightarrow> (nat \<times> sync_info_t) option" where
  "get_free_pending s =
     (case free_pending_head s of [] \<Rightarrow> None | n # ns \<Rightarrow> Some (n, s\<lparr>free_pending_head := ns\<rparr>))"

definition insert_free_padding_tail :: "nat \<Rightarrow> sync_info_t \<Rightarrow> sync_info_t res" where
  "insert_free_padding_tail pm s =
     bindE (link_tail pm (free_pending_head s)) (\<lambda>xs. Inr (s\<lparr>free_pending_head := xs\<rparr>))"

definition mutex_get_pending_head :: "nat \<Rightarrow> sync_info_t \<Rightarrow> (nat \<times> sync_info_t) option" where
  "mutex_get_pending_head i s =
     (case m_pending (mutex_store s i) of [] \<Rightarrow> None | n # ns \<Rightarrow> Some (n, upd_mutex i (\<lambda>m. m\<lparr>m_pending := ns\<rparr>) s))"

definition sem_get_pending_head :: "nat \<Rightarrow> sync_info_t \<Rightarrow> (nat \<times> sync_info_t) option" where
  "sem_get_pending_head i s =
     (case s_pending (sem_store s i) of [] \<Rightarrow> None | n # ns \<Rightarrow> Some (n, upd_sem i (\<lambda>m. m\<lparr>s_pending := ns\<rparr>) s))"

definition cond_get_pending_head :: "nat \<Rightarrow> sync_info_t \<Rightarrow> (nat \<times> sync_info_t) option" where
  "cond_get_pending_head i s =
     (case c_pending (cond_store s i) of [] \<Rightarrow> None | n # ns \<Rightarrow> Some (n, upd_cond i (\<lambda>m. m\<lparr>c_pending := ns\<rparr>) s))"

text \<open>\<^verbatim>\<open>pm->noza_msg = *msg\<close>\<close>

definition store_pending :: "nat \<Rightarrow> noza_msg_t \<Rightarrow> sync_info_t \<Rightarrow> sync_info_t" where
  "store_pending pm msg s = s\<lparr>pending_store := (pending_store s)(pm := msg)\<rparr>"

text \<open>The loops of the three release functions: every waiter is answered with \<^verbatim>\<open>ESRCH\<close>; the nodes go to no
  list.\<close>

fun release_loop :: "u32 \<Rightarrow> nat list \<Rightarrow> sync_info_t \<Rightarrow> sync_info_t" where
  "release_loop f [] s = s"
| "release_loop f (n # ns) s = release_loop f ns (answer (pending_store s n) f ESRCH s)"

section \<open>Mutexes\<close>

text \<open>\<open>tok\<close> is the value \<^verbatim>\<open>rand\<close> returns.\<close>

definition mutex_server_acquire :: "u32 \<Rightarrow> noza_msg_t \<Rightarrow> sync_info_t \<Rightarrow> sync_info_t" where
  "mutex_server_acquire tok msg s =
     (case mutex_head s of
        [] \<Rightarrow> answer msg F_CODE ENOMEM s
      | h # hs \<Rightarrow>
          (let s1 = wr msg F_CODE SUCCESS (wr msg F_TOKEN tok (wr msg F_MID (of_nat h) s));
               s2 = upd_mutex h (\<lambda>m. m\<lparr>m_token := rd msg F_TOKEN s1, m_lock := 0\<rparr>) s1
           in noza_reply msg (s2\<lparr>mutex_head := hs\<rparr>)))"

definition mutex_server_release :: "nat \<Rightarrow> noza_msg_t \<Rightarrow> sync_info_t \<Rightarrow> sync_info_t res" where
  "mutex_server_release i msg s =
     (let s1 = release_loop F_CODE (m_pending (mutex_store s i)) s;
          s2 = upd_mutex i (\<lambda>m. m\<lparr>m_pending := [], m_token := 0, m_lock := 0\<rparr>) s1
      in bindE (link_tail i (mutex_head s2)) (\<lambda>hs. Inr (answer msg F_CODE SUCCESS (s2\<lparr>mutex_head := hs\<rparr>))))"

definition mutex_server_lock :: "nat \<Rightarrow> noza_msg_t \<Rightarrow> sync_info_t \<Rightarrow> sync_info_t res" where
  "mutex_server_lock i msg s =
     (if m_lock (mutex_store s i) = 0
      then Inr (answer msg F_CODE SUCCESS (upd_mutex i (\<lambda>m. m\<lparr>m_lock := 1\<rparr>) s))
      else case get_free_pending s of
        None \<Rightarrow> Inr (answer msg F_CODE ENOMEM s)
      | Some (pm, s1) \<Rightarrow> mutex_insert_pending_tail i pm (store_pending pm msg s1))"

definition mutex_server_trylock :: "nat \<Rightarrow> noza_msg_t \<Rightarrow> sync_info_t \<Rightarrow> sync_info_t" where
  "mutex_server_trylock i msg s =
     (if m_lock (mutex_store s i) = 0
      then answer msg F_CODE SUCCESS (upd_mutex i (\<lambda>m. m\<lparr>m_lock := 1\<rparr>) s)
      else answer msg F_CODE EBUSY s)"

text \<open>The message is a null pointer when a condition variable gives the mutex back.\<close>

definition mutex_server_unlock :: "nat \<Rightarrow> noza_msg_t option \<Rightarrow> sync_info_t \<Rightarrow> sync_info_t res" where
  "mutex_server_unlock i mmsg s =
     (let done = (\<lambda>s'. case mmsg of Some msg \<Rightarrow> answer msg F_CODE SUCCESS s' | None \<Rightarrow> s')
      in case mutex_get_pending_head i s of
           Some (pm, s1) \<Rightarrow>
             bindE (insert_free_padding_tail pm (answer (pending_store s1 pm) F_CODE SUCCESS s1)) (\<lambda>s2. Inr (done s2))
         | None \<Rightarrow> Inr (done (upd_mutex i (\<lambda>m. m\<lparr>m_lock := 0\<rparr>) s)))"

definition process_mutex :: "u32 \<Rightarrow> noza_msg_t \<Rightarrow> sync_info_t \<Rightarrow> sync_info_t res" where
  "process_mutex tok msg s =
     (let cmd = rd msg F_CMD s; mid = unat (rd msg F_MID s)
      in if cmd \<noteq> MUTEX_ACQUIRE \<and> mid \<ge> MAX_LOCKS then Inr (answer msg F_CODE ESRCH s)
         else if cmd \<noteq> MUTEX_ACQUIRE \<and> m_token (mutex_store s mid) \<noteq> rd msg F_TOKEN s
         then Inr (answer msg F_CODE EINVAL s)
         else if cmd = MUTEX_ACQUIRE then Inr (mutex_server_acquire tok msg s)
         else if cmd = MUTEX_RELEASE then mutex_server_release mid msg s
         else if cmd = MUTEX_LOCK then mutex_server_lock mid msg s
         else if cmd = MUTEX_TRYLOCK then Inr (mutex_server_trylock mid msg s)
         else if cmd = MUTEX_UNLOCK then mutex_server_unlock mid (Some msg) s
         else Inr (answer msg F_CODE EINVAL s))"

section \<open>Condition variables\<close>

text \<open>The check for waiters looks at the first free mutex instead of the condition variable.\<close>

definition cond_server_acquire :: "u32 \<Rightarrow> noza_msg_t \<Rightarrow> sync_info_t \<Rightarrow> sync_info_t res" where
  "cond_server_acquire tok msg s =
     (case cond_head s of
        [] \<Rightarrow> Inr (answer msg F_CODE ENOMEM s)
      | h # hs \<Rightarrow>
          (let s1 = wr msg F_CODE SUCCESS (wr msg F_CTOKEN tok (wr msg F_CID (of_nat h) s));
               s2 = upd_cond h (\<lambda>c. c\<lparr>c_token := rd msg F_CTOKEN s1, c_signaled := 0\<rparr>) s1
           in if mutex_head s2 = [] then Inl Null_deref
              else Inr (noza_reply msg (s2\<lparr>cond_head := hs\<rparr>))))"

definition cond_server_release :: "nat \<Rightarrow> noza_msg_t \<Rightarrow> sync_info_t \<Rightarrow> sync_info_t res" where
  "cond_server_release i msg s =
     (let s1 = release_loop F_CODE (c_pending (cond_store s i)) s;
          s2 = upd_cond i (\<lambda>c. c\<lparr>c_pending := [], c_token := 0, c_signaled := 0\<rparr>) s1
      in bindE (link_tail i (cond_head s2)) (\<lambda>hs. Inr (answer msg F_CODE SUCCESS (s2\<lparr>cond_head := hs\<rparr>))))"

definition cond_server_wait :: "nat \<Rightarrow> noza_msg_t \<Rightarrow> sync_info_t \<Rightarrow> sync_info_t res" where
  "cond_server_wait i msg s =
     (if c_signaled (cond_store s i) \<noteq> 0
      then Inr (answer msg F_CODE SUCCESS (upd_cond i (\<lambda>c. c\<lparr>c_signaled := 0\<rparr>) s))
      else
        let mid = unat (rd msg F_MID s)
        in if mid \<ge> MAX_LOCKS then Inr (answer msg F_CODE ESRCH s)
           else if rd msg F_TOKEN s \<noteq> m_token (mutex_store s mid) then Inr (answer msg F_CODE EINVAL s)
           else
             bindE (mutex_server_unlock mid None s) (\<lambda>s1.
             case get_free_pending s1 of
               None \<Rightarrow> Inr (answer msg F_CODE ENOMEM s1)
             | Some (pm, s2) \<Rightarrow>
                 (let s3 = store_pending pm msg s2
                  in bindE (link_tail pm (c_pending (cond_store s3 i))) (\<lambda>xs.
                     Inr (upd_cond i (\<lambda>c. c\<lparr>c_pending := xs\<rparr>) s3)))))"

text \<open>The loop of \<^verbatim>\<open>cond_server_signal\<close> over the waiters of the condition variable. The first argument is what
  follows after the loop; both early returns leave the function.\<close>

fun signal_loop :: "(sync_info_t \<Rightarrow> sync_info_t) \<Rightarrow> nat \<Rightarrow> u32 \<Rightarrow> noza_msg_t \<Rightarrow> nat list \<Rightarrow> sync_info_t \<Rightarrow> sync_info_t res" where
  "signal_loop finish i mode msg [] s = Inr (finish s)"
| "signal_loop finish i mode msg (n # ns) s =
     (let s1 = upd_cond i (\<lambda>c. c\<lparr>c_pending := ns\<rparr>) s;
          cond_msg = pending_store s1 n;
          mid = unat (rd cond_msg F_MID s1);
          continue = (\<lambda>s'. if mode = COND_SIGNAL then Inr (finish s') else signal_loop finish i mode msg ns s')
      in if mid \<ge> MAX_LOCKS then Inl Out_of_bounds
         else if rd cond_msg F_TOKEN s1 = m_token (mutex_store s1 mid) then
           if m_lock (mutex_store s1 mid) \<noteq> 0 then
             (case get_free_pending s1 of
                None \<Rightarrow> Inr (noza_reply msg (wr cond_msg F_CODE ENOMEM s1))
              | Some (pm, s2) \<Rightarrow> mutex_insert_pending_tail mid pm (store_pending pm msg s2))
           else continue (answer cond_msg F_CODE SUCCESS (upd_mutex mid (\<lambda>m. m\<lparr>m_lock := 1\<rparr>) s1))
         else continue (answer cond_msg F_CODE EINVAL s1))"

definition cond_server_signal :: "nat \<Rightarrow> noza_msg_t \<Rightarrow> u32 \<Rightarrow> sync_info_t \<Rightarrow> sync_info_t res" where
  "cond_server_signal i msg mode s =
     (if c_signaled (cond_store s i) = 0
      then signal_loop (answer msg F_CODE SUCCESS) i mode msg (c_pending (cond_store s i))
             (upd_cond i (\<lambda>c. c\<lparr>c_signaled := 1\<rparr>) s)
      else Inr (answer msg F_CODE SUCCESS s))"

definition process_cond :: "u32 \<Rightarrow> noza_msg_t \<Rightarrow> sync_info_t \<Rightarrow> sync_info_t res" where
  "process_cond tok msg s =
     (let cmd = rd msg F_CMD s; cid = unat (rd msg F_CID s)
      in if cmd \<noteq> COND_ACQUIRE \<and> cid \<ge> MAX_CONDS then Inr (answer msg F_CODE ESRCH s)
         else if cmd \<noteq> COND_ACQUIRE \<and> c_token (cond_store s cid) \<noteq> rd msg F_CTOKEN s
         then Inr (answer msg F_CODE EINVAL s)
         else if cmd = COND_ACQUIRE then cond_server_acquire tok msg s
         else if cmd = COND_RELEASE then cond_server_release cid msg s
         else if cmd = COND_WAIT then cond_server_wait cid msg s
         else if cmd = COND_SIGNAL then cond_server_signal cid msg COND_SIGNAL s
         else if cmd = COND_BROADCAST then cond_server_signal cid msg COND_BROADCAST s
         else Inr (answer msg F_CODE EINVAL s))"

section \<open>Semaphores\<close>

definition sem_server_acquire :: "u32 \<Rightarrow> noza_msg_t \<Rightarrow> sync_info_t \<Rightarrow> sync_info_t" where
  "sem_server_acquire tok msg s =
     (case sem_head s of
        [] \<Rightarrow> answer msg F_SCODE ENOMEM s
      | h # hs \<Rightarrow>
          (let s1 = wr msg F_SCODE SUCCESS (wr msg F_TOKEN tok (wr msg F_MID (of_nat h) s));
               s2 = upd_sem h (\<lambda>m. m\<lparr>s_token := rd msg F_TOKEN s1, s_value := rd msg F_VALUE s1\<rparr>) s1
           in noza_reply msg (s2\<lparr>sem_head := hs\<rparr>)))"

definition sem_server_release :: "nat \<Rightarrow> noza_msg_t \<Rightarrow> sync_info_t \<Rightarrow> sync_info_t res" where
  "sem_server_release i msg s =
     (let s1 = release_loop F_SCODE (s_pending (sem_store s i)) s;
          s2 = upd_sem i (\<lambda>m. m\<lparr>s_pending := [], s_token := 0, s_value := 0\<rparr>) s1
      in bindE (link_tail i (sem_head s2)) (\<lambda>hs. Inr (answer msg F_SCODE SUCCESS (s2\<lparr>sem_head := hs\<rparr>))))"

text \<open>The value is an \<^verbatim>\<open>int\<close>: its sign decides.\<close>

definition sem_server_wait :: "nat \<Rightarrow> noza_msg_t \<Rightarrow> sync_info_t \<Rightarrow> sync_info_t res" where
  "sem_server_wait i msg s =
     (if sint (s_value (sem_store s i)) > 0
      then Inr (answer msg F_SCODE SUCCESS (upd_sem i (\<lambda>m. m\<lparr>s_value := s_value m - 1\<rparr>) s))
      else
        let sid = unat (rd msg F_MID s)
        in if sid \<ge> MAX_SEMS then Inr (answer msg F_SCODE ESRCH s)
           else if rd msg F_TOKEN s \<noteq> s_token (sem_store s sid) then Inr (answer msg F_SCODE EINVAL s)
           else case get_free_pending s of
             None \<Rightarrow> Inr (answer msg F_SCODE ENOMEM s)
           | Some (pm, s1) \<Rightarrow> sem_insert_pending_tail sid pm (store_pending pm msg s1))"

definition sem_server_trywait :: "nat \<Rightarrow> noza_msg_t \<Rightarrow> sync_info_t \<Rightarrow> sync_info_t" where
  "sem_server_trywait i msg s =
     (if sint (s_value (sem_store s i)) > 0
      then answer msg F_SCODE SUCCESS (upd_sem i (\<lambda>m. m\<lparr>s_value := s_value m - 1\<rparr>) s)
      else answer msg F_SCODE EAGAIN s)"

definition sem_server_post :: "nat \<Rightarrow> noza_msg_t \<Rightarrow> sync_info_t \<Rightarrow> sync_info_t res" where
  "sem_server_post i msg s =
     bindE (case sem_get_pending_head i s of
              Some (pm, s1) \<Rightarrow>
                insert_free_padding_tail pm
                  (answer (pending_store s1 pm) F_SCODE SUCCESS
                    (wr (pending_store s1 pm) F_VALUE (s_value (sem_store s1 i)) s1))
            | None \<Rightarrow> Inr (upd_sem i (\<lambda>m. m\<lparr>s_value := s_value m + 1\<rparr>) s)) (\<lambda>s2.
     Inr (answer msg F_SCODE SUCCESS s2))"

definition sem_server_getvalue :: "nat \<Rightarrow> noza_msg_t \<Rightarrow> sync_info_t \<Rightarrow> sync_info_t" where
  "sem_server_getvalue i msg s = answer msg F_SCODE SUCCESS (wr msg F_VALUE (s_value (sem_store s i)) s)"

definition process_sem :: "u32 \<Rightarrow> noza_msg_t \<Rightarrow> sync_info_t \<Rightarrow> sync_info_t res" where
  "process_sem tok msg s =
     (let cmd = rd msg F_CMD s; sid = unat (rd msg F_MID s)
      in if cmd \<noteq> SEM_ACQUIRE \<and> sid \<ge> MAX_SEMS then Inr (answer msg F_SCODE ESRCH s)
         else if cmd \<noteq> SEM_ACQUIRE \<and> s_token (sem_store s sid) \<noteq> rd msg F_TOKEN s
         then Inr (answer msg F_SCODE EINVAL s)
         else if cmd = SEM_ACQUIRE then Inr (sem_server_acquire tok msg s)
         else if cmd = SEM_RELEASE then sem_server_release sid msg s
         else if cmd = SEM_WAIT then sem_server_wait sid msg s
         else if cmd = SEM_TRYWAIT then Inr (sem_server_trywait sid msg s)
         else if cmd = SEM_POST then sem_server_post sid msg s
         else if cmd = SEM_GETVALUE then Inr (sem_server_getvalue sid msg s)
         else Inr (answer msg F_SCODE EINVAL s))"

section \<open>The server\<close>

text \<open>\<open>m\<close> is the memory of the clients.\<close>

definition sync_init :: "(u32 \<Rightarrow> u32) \<Rightarrow> sync_info_t" where
  "sync_init m =
     \<lparr>mutex_store = (\<lambda>_. \<lparr>m_pending = [], m_lock = 0, m_token = 0\<rparr>), mutex_head = [0..<MAX_LOCKS],
      cond_store = (\<lambda>_. \<lparr>c_pending = [], c_signaled = 0, c_token = 0\<rparr>), cond_head = [0..<MAX_CONDS],
      sem_store = (\<lambda>_. \<lparr>s_pending = [], s_token = 0, s_value = 0\<rparr>), sem_head = [0..<MAX_SEMS],
      free_pending_head = [0..<MAX_PENDING],
      pending_store = (\<lambda>_. \<lparr>to_vid = 0, msg_ptr = 0, msg_size = 0, msg_identity = \<lparr>uid = 0, gid = 0, umask = 0\<rparr>\<rparr>),
      mem = m, replies = []\<rparr>"

text \<open>One turn of the loop of \<^verbatim>\<open>do_synchorization_server\<close> with a received message.\<close>

definition do_synchorization_server :: "u32 \<Rightarrow> noza_msg_t \<Rightarrow> sync_info_t \<Rightarrow> sync_info_t res" where
  "do_synchorization_server tok msg s =
     (let cmd = rd msg F_CMD s
      in if cmd < MUTEX_TAIL then process_mutex tok msg s
         else if cmd < COND_TAIL then process_cond tok msg s
         else if cmd < SEM_TAIL then process_sem tok msg s
         else Inr (answer msg F_CODE EINVAL s))"

section \<open>Where the nodes are\<close>

lemmas sync_updates = answer_def noza_reply_def wr_def upd_mutex_def upd_cond_def upd_sem_def store_pending_def

definition mpend :: "sync_info_t \<Rightarrow> nat \<Rightarrow> nat list" where
  "mpend s i = m_pending (mutex_store s i)"

definition cpend :: "sync_info_t \<Rightarrow> nat \<Rightarrow> nat list" where
  "cpend s i = c_pending (cond_store s i)"

definition spend :: "sync_info_t \<Rightarrow> nat \<Rightarrow> nat list" where
  "spend s i = s_pending (sem_store s i)"

definition in_queues :: "(nat \<Rightarrow> nat list) \<Rightarrow> nat multiset" where
  "in_queues f = (\<Sum>i<16. mset (f i))"

text \<open>All nodes that are in some list.\<close>

definition pool :: "sync_info_t \<Rightarrow> nat multiset" where
  "pool s = mset (free_pending_head s) + in_queues (mpend s) + in_queues (cpend s) + in_queues (spend s)"

text \<open>The lists are well-formed: no node is in two places, and a free object is not handed out, so its token
  is 0.\<close>

definition heads_ok :: "sync_info_t \<Rightarrow> bool" where
  "heads_ok s \<longleftrightarrow>
     distinct (mutex_head s) \<and> (\<forall>i\<in>set (mutex_head s). i < MAX_LOCKS \<and> m_token (mutex_store s i) = 0)
     \<and> distinct (cond_head s) \<and> (\<forall>i\<in>set (cond_head s). i < MAX_CONDS \<and> c_token (cond_store s i) = 0)
     \<and> distinct (sem_head s) \<and> (\<forall>i\<in>set (sem_head s). i < MAX_SEMS \<and> s_token (sem_store s i) = 0)"

definition sync_ok :: "sync_info_t \<Rightarrow> bool" where
  "sync_ok s \<longleftrightarrow> pool s \<subseteq># mset_set {..<MAX_PENDING} \<and> heads_ok s"

lemma pend_simps [simp]:
  "mpend (wr g f v s) = mpend s" "cpend (wr g f v s) = cpend s" "spend (wr g f v s) = spend s"
  "mpend (noza_reply g s) = mpend s" "cpend (noza_reply g s) = cpend s" "spend (noza_reply g s) = spend s"
  "mpend (store_pending n g s) = mpend s" "cpend (store_pending n g s) = cpend s" "spend (store_pending n g s) = spend s"
  "mpend (upd_mutex i h s) = (mpend s)(i := m_pending (h (mutex_store s i)))"
  "cpend (upd_mutex i h s) = cpend s" "spend (upd_mutex i h s) = spend s"
  "cpend (upd_cond i k s) = (cpend s)(i := c_pending (k (cond_store s i)))"
  "mpend (upd_cond i k s) = mpend s" "spend (upd_cond i k s) = spend s"
  "spend (upd_sem i l s) = (spend s)(i := s_pending (l (sem_store s i)))"
  "mpend (upd_sem i l s) = mpend s" "cpend (upd_sem i l s) = cpend s"
  "mpend (s\<lparr>free_pending_head := xs\<rparr>) = mpend s" "cpend (s\<lparr>free_pending_head := xs\<rparr>) = cpend s"
  "spend (s\<lparr>free_pending_head := xs\<rparr>) = spend s"
  "mpend (s\<lparr>mutex_head := xs\<rparr>) = mpend s" "cpend (s\<lparr>mutex_head := xs\<rparr>) = cpend s"
  "spend (s\<lparr>mutex_head := xs\<rparr>) = spend s"
  "mpend (s\<lparr>cond_head := xs\<rparr>) = mpend s" "cpend (s\<lparr>cond_head := xs\<rparr>) = cpend s"
  "spend (s\<lparr>cond_head := xs\<rparr>) = spend s"
  "mpend (s\<lparr>sem_head := xs\<rparr>) = mpend s" "cpend (s\<lparr>sem_head := xs\<rparr>) = cpend s"
  "spend (s\<lparr>sem_head := xs\<rparr>) = spend s"
  "mpend (s\<lparr>mem := m\<rparr>) = mpend s" "cpend (s\<lparr>mem := m\<rparr>) = cpend s" "spend (s\<lparr>mem := m\<rparr>) = spend s"
  by (auto simp: mpend_def cpend_def spend_def sync_updates fun_eq_iff)

lemma free_simps [simp]:
  "free_pending_head (wr g f v s) = free_pending_head s" "free_pending_head (noza_reply g s) = free_pending_head s"
  "free_pending_head (store_pending n g s) = free_pending_head s" "free_pending_head (upd_mutex i h s) = free_pending_head s"
  "free_pending_head (upd_cond i k s) = free_pending_head s" "free_pending_head (upd_sem i l s) = free_pending_head s"
  by (simp_all add: sync_updates)

lemma item_simps [simp]:
  "mutex_store (wr g f v s) = mutex_store s" "mutex_store (noza_reply g s) = mutex_store s"
  "mutex_store (store_pending n g s) = mutex_store s" "mutex_store (upd_cond i k s) = mutex_store s"
  "mutex_store (upd_sem i l s) = mutex_store s"
  "mutex_store (upd_mutex i h s) = (mutex_store s)(i := h (mutex_store s i))"
  "cond_store (wr g f v s) = cond_store s" "cond_store (noza_reply g s) = cond_store s"
  "cond_store (store_pending n g s) = cond_store s" "cond_store (upd_mutex i h s) = cond_store s"
  "cond_store (upd_sem i l s) = cond_store s"
  "cond_store (upd_cond i k s) = (cond_store s)(i := k (cond_store s i))"
  "sem_store (wr g f v s) = sem_store s" "sem_store (noza_reply g s) = sem_store s"
  "sem_store (store_pending n g s) = sem_store s" "sem_store (upd_mutex i h s) = sem_store s"
  "sem_store (upd_cond i k s) = sem_store s"
  "sem_store (upd_sem i l s) = (sem_store s)(i := l (sem_store s i))"
  by (simp_all add: sync_updates)

lemma head_simps [simp]:
  "mutex_head (wr g f v s) = mutex_head s" "mutex_head (noza_reply g s) = mutex_head s"
  "mutex_head (store_pending n g s) = mutex_head s" "mutex_head (upd_mutex i h s) = mutex_head s"
  "mutex_head (upd_cond i k s) = mutex_head s" "mutex_head (upd_sem i l s) = mutex_head s"
  "cond_head (wr g f v s) = cond_head s" "cond_head (noza_reply g s) = cond_head s"
  "cond_head (store_pending n g s) = cond_head s" "cond_head (upd_mutex i h s) = cond_head s"
  "cond_head (upd_cond i k s) = cond_head s" "cond_head (upd_sem i l s) = cond_head s"
  "sem_head (wr g f v s) = sem_head s" "sem_head (noza_reply g s) = sem_head s"
  "sem_head (store_pending n g s) = sem_head s" "sem_head (upd_mutex i h s) = sem_head s"
  "sem_head (upd_cond i k s) = sem_head s" "sem_head (upd_sem i l s) = sem_head s"
  by (simp_all add: sync_updates)

lemma msg_simps [simp]:
  "pending_store (wr g f v s) = pending_store s" "pending_store (noza_reply g s) = pending_store s"
  "pending_store (store_pending n g s) = (pending_store s)(n := g)" "pending_store (upd_mutex i h s) = pending_store s"
  "pending_store (upd_cond i k s) = pending_store s" "pending_store (upd_sem i l s) = pending_store s"
  "replies (wr g f v s) = replies s" "replies (noza_reply g s) = replies s @ [g]"
  "replies (store_pending n g s) = replies s" "replies (upd_mutex i h s) = replies s"
  "replies (upd_cond i k s) = replies s" "replies (upd_sem i l s) = replies s"
  "mem (noza_reply g s) = mem s" "mem (store_pending n g s) = mem s" "mem (upd_mutex i h s) = mem s"
  "mem (upd_cond i k s) = mem s" "mem (upd_sem i l s) = mem s" "mem (wr g f v s) = (mem s)(msg_ptr g + f := v)"
  by (simp_all add: sync_updates)

lemma in_queues_upd: "i < 16 \<Longrightarrow> in_queues (f(i := xs)) + mset (f i) = in_queues f + mset xs"
  by (simp add: in_queues_def sum.remove [of "{..<16}" i])

lemma in_queues_drop: "i < 16 \<Longrightarrow> in_queues (f(i := [])) \<subseteq># in_queues f"
  using in_queues_upd [of i f "[]"] by (metis add_0_right mset.simps(1) mset_subset_eq_add_left)

lemma in_queues_same [simp]: "f i = xs \<Longrightarrow> in_queues (f(i := xs)) = in_queues f"
  by (simp add: fun_upd_idem)

lemma pool_count:
  assumes "sync_ok s"
  shows "count (pool s) n \<le> 1"
proof -
  have "count (pool s) n \<le> count (mset_set {..<MAX_PENDING}) n"
    using assms by (auto simp: sync_ok_def intro: mset_subset_eq_count)
  also have "\<dots> \<le> 1" by (simp add: count_mset_set')
  finally show ?thesis .
qed

lemma in_queues_count: "i < 16 \<Longrightarrow> count (mset (f i)) n \<le> count (in_queues f) n"
  by (simp add: in_queues_def sum.remove [of "{..<16}" i])

text \<open>A node of the free list is in no queue, and the first node of a queue not in the free list.\<close>

lemma free_not_in_queue:
  assumes "sync_ok s" "n \<in> set (free_pending_head s)" "i < 16"
  shows "n \<notin> set (mpend s i)" "n \<notin> set (cpend s i)" "n \<notin> set (spend s i)"
proof -
  have "count (mset (free_pending_head s)) n \<ge> 1" using assms(2) by (simp add: Suc_le_eq)
  with pool_count [OF assms(1), of n] have "count (in_queues (mpend s)) n = 0" "count (in_queues (cpend s)) n = 0"
      "count (in_queues (spend s)) n = 0" unfolding pool_def count_union by linarith+
  then show "n \<notin> set (mpend s i)" "n \<notin> set (cpend s i)" "n \<notin> set (spend s i)"
    using in_queues_count [OF assms(3), of "mpend s" n] in_queues_count [OF assms(3), of "cpend s" n]
      in_queues_count [OF assms(3), of "spend s" n] by simp_all
qed

lemma free_distinct: "sync_ok s \<Longrightarrow> distinct (free_pending_head s)"
  using pool_count [of s] by (auto simp: distinct_count_atmost_1 pool_def)
    (metis One_nat_def add_leD1 count_mset_0_iff le_antisym less_one not_less)

lemma queue_not_free:
  assumes "sync_ok s" "i < 16" "n \<in> set (mpend s i) \<or> n \<in> set (spend s i)"
  shows "n \<notin> set (free_pending_head s)"
  using assms free_not_in_queue by blast

lemma sync_ok_frame [simp]:
  "pool (wr g f v s) = pool s" "pool (noza_reply g s) = pool s" "pool (answer g f v s) = pool s"
  "heads_ok (wr g f v s) = heads_ok s" "heads_ok (noza_reply g s) = heads_ok s" "heads_ok (answer g f v s) = heads_ok s"
  "sync_ok (answer g f v s) = sync_ok s"
  by (simp_all add: pool_def heads_ok_def answer_def sync_ok_def)

lemma release_loop_frame [simp]:
  "mutex_store (release_loop f ns s) = mutex_store s" "cond_store (release_loop f ns s) = cond_store s"
  "sem_store (release_loop f ns s) = sem_store s" "mutex_head (release_loop f ns s) = mutex_head s"
  "cond_head (release_loop f ns s) = cond_head s" "sem_head (release_loop f ns s) = sem_head s"
  "free_pending_head (release_loop f ns s) = free_pending_head s" "pending_store (release_loop f ns s) = pending_store s"
  "mpend (release_loop f ns s) = mpend s" "cpend (release_loop f ns s) = cpend s" "spend (release_loop f ns s) = spend s"
  "replies (release_loop f ns s) = replies s @ map (pending_store s) ns"
  by (induction ns arbitrary: s) (simp_all add: answer_def)

section \<open>Every request keeps the lists well-formed\<close>

text \<open>A node from the free list is put at the end of a queue.\<close>

lemma enqueue_pool:
  assumes "free_pending_head s = n # ns" "i < 16"
  shows "pool (upd_mutex i (\<lambda>m. m\<lparr>m_pending := m_pending m @ [n]\<rparr>) (store_pending n g (s\<lparr>free_pending_head := ns\<rparr>))) = pool s"
    "pool (upd_cond i (\<lambda>m. m\<lparr>c_pending := c_pending m @ [n]\<rparr>) (store_pending n g (s\<lparr>free_pending_head := ns\<rparr>))) = pool s"
    "pool (upd_sem i (\<lambda>m. m\<lparr>s_pending := s_pending m @ [n]\<rparr>) (store_pending n g (s\<lparr>free_pending_head := ns\<rparr>))) = pool s"
  using in_queues_upd [OF assms(2), of "mpend s" "mpend s i @ [n]"] in_queues_upd [OF assms(2), of "cpend s" "cpend s i @ [n]"]
    in_queues_upd [OF assms(2), of "spend s" "spend s i @ [n]"] assms(1)
  by (simp_all add: pool_def mpend_def [symmetric] cpend_def [symmetric] spend_def [symmetric])

lemma enqueue_ok:
  assumes s: "sync_ok s" and n: "free_pending_head s = n # ns" and i: "i < 16"
  shows "ok (mutex_insert_pending_tail i n (store_pending n g (s\<lparr>free_pending_head := ns\<rparr>))) sync_ok"
    "ok (sem_insert_pending_tail i n (store_pending n g (s\<lparr>free_pending_head := ns\<rparr>))) sync_ok"
    "ok (link_tail n (c_pending (cond_store (store_pending n g (s\<lparr>free_pending_head := ns\<rparr>)) i))) (\<lambda>xs.
       sync_ok (upd_cond i (\<lambda>c. c\<lparr>c_pending := xs\<rparr>) (store_pending n g (s\<lparr>free_pending_head := ns\<rparr>))))"
proof -
  have "n \<in> set (free_pending_head s)" using n by simp
  note q = free_not_in_queue [OF s this i]
  have h: "heads_ok (upd_mutex i (\<lambda>m. m\<lparr>m_pending := xs m\<rparr>) (store_pending n g (s\<lparr>free_pending_head := ns\<rparr>)))"
    "heads_ok (upd_cond i (\<lambda>m. m\<lparr>c_pending := ys m\<rparr>) (store_pending n g (s\<lparr>free_pending_head := ns\<rparr>)))"
    "heads_ok (upd_sem i (\<lambda>m. m\<lparr>s_pending := zs m\<rparr>) (store_pending n g (s\<lparr>free_pending_head := ns\<rparr>)))" for xs ys zs
    using s by (auto simp: sync_ok_def heads_ok_def)
  note p = enqueue_pool [OF n i, of g]
  show "ok (mutex_insert_pending_tail i n (store_pending n g (s\<lparr>free_pending_head := ns\<rparr>))) sync_ok"
    using q(1) h(1) [of "\<lambda>m. m_pending m @ [n]"] p(1) s
    by (simp add: mutex_insert_pending_tail_def link_tail_def mpend_def sync_ok_def upd_mutex_def)
  show "ok (sem_insert_pending_tail i n (store_pending n g (s\<lparr>free_pending_head := ns\<rparr>))) sync_ok"
    using q(3) h(3) [of "\<lambda>m. s_pending m @ [n]"] p(3) s
    by (simp add: sem_insert_pending_tail_def link_tail_def spend_def sync_ok_def upd_sem_def)
  show "ok (link_tail n (c_pending (cond_store (store_pending n g (s\<lparr>free_pending_head := ns\<rparr>)) i))) (\<lambda>xs.
       sync_ok (upd_cond i (\<lambda>c. c\<lparr>c_pending := xs\<rparr>) (store_pending n g (s\<lparr>free_pending_head := ns\<rparr>))))"
    using q(2) h(2) [of "\<lambda>m. c_pending m @ [n]"] p(2) s
    by (simp add: link_tail_def cpend_def sync_ok_def upd_cond_def)
qed

lemma mutex_acquire_ok: "sync_ok s \<Longrightarrow> sync_ok (mutex_server_acquire tok msg s)"
  by (auto simp: mutex_server_acquire_def Let_def sync_ok_def heads_ok_def pool_def mpend_def answer_def split: list.split)

lemma cond_acquire_ok:
  "sync_ok s \<Longrightarrow> cond_server_acquire tok msg s = Inl Null_deref \<and> mutex_head s = [] \<or> ok (cond_server_acquire tok msg s) sync_ok"
  by (auto simp: cond_server_acquire_def Let_def sync_ok_def heads_ok_def pool_def cpend_def answer_def split: list.split)

lemma sem_acquire_ok: "sync_ok s \<Longrightarrow> sync_ok (sem_server_acquire tok msg s)"
  by (auto simp: sem_server_acquire_def Let_def sync_ok_def heads_ok_def pool_def spend_def answer_def split: list.split)

lemma pool_drop:
  assumes "i < 16"
  shows "mset (free_pending_head s) + in_queues ((mpend s)(i := [])) + in_queues (cpend s) + in_queues (spend s) \<subseteq># pool s"
    "mset (free_pending_head s) + in_queues (mpend s) + in_queues ((cpend s)(i := [])) + in_queues (spend s) \<subseteq># pool s"
    "mset (free_pending_head s) + in_queues (mpend s) + in_queues (cpend s) + in_queues ((spend s)(i := [])) \<subseteq># pool s"
  using in_queues_drop [OF assms] by (simp_all add: pool_def subset_mset.add_mono)

lemma release_ok:
  assumes s: "sync_ok s" and i: "i < 16"
  shows "i \<notin> set (mutex_head s) \<Longrightarrow> ok (mutex_server_release i msg s) sync_ok"
    and "i \<notin> set (cond_head s) \<Longrightarrow> ok (cond_server_release i msg s) sync_ok"
    and "i \<notin> set (sem_head s) \<Longrightarrow> ok (sem_server_release i msg s) sync_ok"
proof -
  note d = pool_drop [OF i, of s]
  have p: "pool s \<subseteq># mset_set {..<MAX_PENDING}" and h: "heads_ok s" using s by (simp_all add: sync_ok_def)
  show "ok (mutex_server_release i msg s) sync_ok" if "i \<notin> set (mutex_head s)"
    using that h i subset_mset.order_trans [OF d(1) p]
    by (simp add: mutex_server_release_def Let_def link_tail_def) (auto simp: sync_ok_def heads_ok_def pool_def)
  show "ok (cond_server_release i msg s) sync_ok" if "i \<notin> set (cond_head s)"
    using that h i subset_mset.order_trans [OF d(2) p]
    by (simp add: cond_server_release_def Let_def link_tail_def) (auto simp: sync_ok_def heads_ok_def pool_def)
  show "ok (sem_server_release i msg s) sync_ok" if "i \<notin> set (sem_head s)"
    using that h i subset_mset.order_trans [OF d(3) p]
    by (simp add: sem_server_release_def Let_def link_tail_def) (auto simp: sync_ok_def heads_ok_def pool_def)
qed

lemma sync_ok_upd [simp]:
  "sync_ok (upd_mutex i (\<lambda>m. m\<lparr>m_lock := v\<rparr>) s) = sync_ok s"
  "sync_ok (upd_cond i (\<lambda>m. m\<lparr>c_signaled := v\<rparr>) s) = sync_ok s"
  "sync_ok (upd_sem i (\<lambda>m. m\<lparr>s_value := w m\<rparr>) s) = sync_ok s"
  "sync_ok (wr g f v s) = sync_ok s" "sync_ok (noza_reply g s) = sync_ok s"
  by (auto simp: sync_ok_def heads_ok_def pool_def mpend_def cpend_def spend_def)

lemma free_cases:
  obtains (none) "free_pending_head s = []" "get_free_pending s = None"
  | (some) n ns where "free_pending_head s = n # ns" "get_free_pending s = Some (n, s\<lparr>free_pending_head := ns\<rparr>)"
  by (cases "free_pending_head s") (auto simp: get_free_pending_def)

lemma mutex_lock_ok: "sync_ok s \<Longrightarrow> i < 16 \<Longrightarrow> ok (mutex_server_lock i msg s) sync_ok"
  by (cases s rule: free_cases) (auto simp: mutex_server_lock_def enqueue_ok)

text \<open>The first waiter of a mutex or semaphore is taken out, answered, and its node freed.\<close>

lemma dequeue_pool:
  assumes "i < 16"
  shows "mpend s i = n # ns \<Longrightarrow> mset (free_pending_head s @ [n]) + in_queues ((mpend s)(i := ns)) + in_queues (cpend s) + in_queues (spend s) = pool s"
    "spend s i = n # ns \<Longrightarrow> mset (free_pending_head s @ [n]) + in_queues (mpend s) + in_queues (cpend s) + in_queues ((spend s)(i := ns)) = pool s"
  using in_queues_upd [OF assms, of "mpend s" ns] in_queues_upd [OF assms, of "spend s" ns] by (simp_all add: pool_def)

lemma mutex_unlock_ok:
  assumes s: "sync_ok s" and i: "i < 16"
  shows "ok (mutex_server_unlock i mmsg s) sync_ok"
proof (cases "mpend s i")
  case Nil
  then show ?thesis using s by (simp add: mutex_server_unlock_def mutex_get_pending_head_def mpend_def split: option.split)
next
  case (Cons n ns)
  then have "n \<notin> set (free_pending_head s)" using queue_not_free [OF s i, of n] by simp
  moreover have p: "m_pending (mutex_store s i) = n # ns" using Cons by (simp add: mpend_def)
  moreover have "heads_ok s" using s by (simp add: sync_ok_def)
  moreover have "pool s \<subseteq># mset_set {..<MAX_PENDING}" using s by (simp add: sync_ok_def)
  note this [folded dequeue_pool(1) [OF i Cons]]
  ultimately show ?thesis
    by (auto simp: mutex_server_unlock_def mutex_get_pending_head_def insert_free_padding_tail_def link_tail_def
        Let_def sync_ok_def answer_def heads_ok_def pool_def split: option.split)
qed

lemma cond_wait_ok:
  assumes s: "sync_ok s" and i: "i < 16"
  shows "ok (cond_server_wait i msg s) sync_ok"
proof -
  have w: "ok (case get_free_pending s1 of None \<Rightarrow> Inr (answer msg F_CODE ENOMEM s1)
      | Some (pm, s2) \<Rightarrow> (let s3 = store_pending pm msg s2 in bindE (link_tail pm (c_pending (cond_store s3 i))) (\<lambda>xs.
          Inr (upd_cond i (\<lambda>c. c\<lparr>c_pending := xs\<rparr>) s3)))) sync_ok" if "sync_ok s1" for s1
    using that enqueue_ok(3) [OF that _ i, of _ _ msg] by (cases s1 rule: free_cases) (auto simp: Let_def)
  show ?thesis
  proof (cases "unat (rd msg F_MID s) < 16")
    case True
    note ok_mono [OF mutex_unlock_ok [OF s True, of None] w]
    then show ?thesis using s True by (simp add: cond_server_wait_def Let_def)
  qed (use s in \<open>simp add: cond_server_wait_def Let_def\<close>)
qed

lemma signal_loop_ok:
  assumes "sync_ok s" "i < 16" "cpend s i = ns" "\<And>s'. sync_ok s' \<Longrightarrow> sync_ok (finish s')"
  shows "signal_loop finish i mode msg ns s = Inl Out_of_bounds \<or> ok (signal_loop finish i mode msg ns s) sync_ok"
  using assms
proof (induction ns arbitrary: s)
  case Nil
  then show ?case by simp
next
  case (Cons n ns)
  let ?s1 = "upd_cond i (\<lambda>c. c\<lparr>c_pending := ns\<rparr>) s"
  have "in_queues ((cpend s)(i := ns)) \<subseteq># in_queues (cpend s)"
    using in_queues_upd [OF Cons.prems(2), of "cpend s" ns] Cons.prems(3) by (simp add: mset_subset_eq_exists_conv)
      (metis add_mset_add_single union_ac(2))
  then have "pool ?s1 \<subseteq># pool s" by (simp add: pool_def subset_mset.add_mono)
  then have s1: "sync_ok ?s1"
    using Cons.prems(1) subset_mset.order_trans by (auto simp: sync_ok_def heads_ok_def)
  let ?m = "unat (rd (pending_store s n) F_MID ?s1)"
  define E where "E = (case get_free_pending ?s1 of None \<Rightarrow> Inr (noza_reply msg (wr (pending_store s n) F_CODE ENOMEM ?s1))
      | Some (pm, s2) \<Rightarrow> mutex_insert_pending_tail ?m pm (store_pending pm msg s2))"
  define C where "C = (\<lambda>s'. if mode = COND_SIGNAL then Inr (finish s') else signal_loop finish i mode msg ns s')"
  have eq: "signal_loop finish i mode msg (n # ns) s =
      (if 16 \<le> ?m then Inl Out_of_bounds
       else if rd (pending_store s n) F_TOKEN ?s1 = m_token (mutex_store s ?m) then
         if m_lock (mutex_store s ?m) \<noteq> 0 then E
         else C (answer (pending_store s n) F_CODE SUCCESS (upd_mutex ?m (\<lambda>m. m\<lparr>m_lock := 1\<rparr>) ?s1))
       else C (answer (pending_store s n) F_CODE EINVAL ?s1))"
    unfolding E_def C_def signal_loop.simps(2) by (simp only: Let_def msg_simps item_simps)
  have "C s' = Inl Out_of_bounds \<or> ok (C s') sync_ok" if "sync_ok s'" "cpend s' i = ns" for s'
    using Cons.IH [of s'] Cons.prems(2,4) that by (simp add: C_def)
  from this [of "answer (pending_store s n) F_CODE SUCCESS (upd_mutex ?m (\<lambda>m. m\<lparr>m_lock := 1\<rparr>) ?s1)"]
    this [of "answer (pending_store s n) F_CODE EINVAL ?s1"] s1
  have c: "C (answer (pending_store s n) F_CODE SUCCESS (upd_mutex ?m (\<lambda>m. m\<lparr>m_lock := 1\<rparr>) ?s1)) = Inl Out_of_bounds
      \<or> ok (C (answer (pending_store s n) F_CODE SUCCESS (upd_mutex ?m (\<lambda>m. m\<lparr>m_lock := 1\<rparr>) ?s1))) sync_ok"
    "C (answer (pending_store s n) F_CODE EINVAL ?s1) = Inl Out_of_bounds
      \<or> ok (C (answer (pending_store s n) F_CODE EINVAL ?s1)) sync_ok"
    by (simp_all add: answer_def)
  have e: "ok E sync_ok" if "?m < 16"
    unfolding E_def using s1 enqueue_ok(1) [OF s1 _ that, of _ _ msg] by (cases ?s1 rule: free_cases) auto
  show ?case unfolding eq using c e by (simp split: if_split) 
qed

lemma cond_signal_ok:
  assumes "sync_ok s" "i < 16"
  shows "cond_server_signal i msg mode s = Inl Out_of_bounds \<or> ok (cond_server_signal i msg mode s) sync_ok"
  using signal_loop_ok [of "upd_cond i (\<lambda>c. c\<lparr>c_signaled := 1\<rparr>) s" i "c_pending (cond_store s i)"] assms
  by (simp add: cond_server_signal_def cpend_def)

lemma sem_wait_ok: "sync_ok s \<Longrightarrow> i < 16 \<Longrightarrow> ok (sem_server_wait i msg s) sync_ok"
  by (cases s rule: free_cases) (auto simp: sem_server_wait_def Let_def enqueue_ok)

lemma sem_post_ok:
  assumes s: "sync_ok s" and i: "i < 16"
  shows "ok (sem_server_post i msg s) sync_ok"
proof (cases "spend s i")
  case Nil
  then show ?thesis using s by (simp add: sem_server_post_def sem_get_pending_head_def spend_def)
next
  case (Cons n ns)
  then have "n \<notin> set (free_pending_head s)" using queue_not_free [OF s i, of n] by simp
  moreover have p: "s_pending (sem_store s i) = n # ns" using Cons by (simp add: spend_def)
  moreover have "heads_ok s" using s by (simp add: sync_ok_def)
  moreover have "pool s \<subseteq># mset_set {..<MAX_PENDING}" using s by (simp add: sync_ok_def)
  note this [folded dequeue_pool(2) [OF i Cons]]
  ultimately show ?thesis
    by (auto simp: sem_server_post_def sem_get_pending_head_def insert_free_padding_tail_def link_tail_def
        sync_ok_def answer_def heads_ok_def pool_def)
qed

text \<open>A request to release an object carries the token of an object in use.\<close>

definition release_ok_msg :: "noza_msg_t \<Rightarrow> sync_info_t \<Rightarrow> bool" where
  "release_ok_msg msg s \<longleftrightarrow>
     (rd msg F_CMD s \<in> {MUTEX_RELEASE, SEM_RELEASE} \<longrightarrow> rd msg F_TOKEN s \<noteq> 0)
     \<and> (rd msg F_CMD s = COND_RELEASE \<longrightarrow> rd msg F_CTOKEN s \<noteq> 0)"

definition served :: "u32 \<Rightarrow> sync_info_t \<Rightarrow> sync_info_t res \<Rightarrow> bool" where
  "served cmd s r \<longleftrightarrow> ok r sync_ok \<or> r = Inl Out_of_bounds \<and> cmd \<in> {COND_SIGNAL, COND_BROADCAST}
     \<or> r = Inl Null_deref \<and> cmd = COND_ACQUIRE \<and> mutex_head s = []"

lemma process_mutex_ok:
  assumes s: "sync_ok s" and r: "release_ok_msg msg s"
  shows "ok (process_mutex tok msg s) sync_ok"
proof (cases "rd msg F_CMD s \<noteq> MUTEX_ACQUIRE \<and>
    (unat (rd msg F_MID s) \<ge> MAX_LOCKS \<or> m_token (mutex_store s (unat (rd msg F_MID s))) \<noteq> rd msg F_TOKEN s)")
  case True
  then show ?thesis using s by (auto simp: process_mutex_def Let_def)
next
  case False
  let ?i = "unat (rd msg F_MID s)"
  consider (a) "rd msg F_CMD s = MUTEX_ACQUIRE" | (n) "rd msg F_CMD s \<noteq> MUTEX_ACQUIRE" "?i < 16"
      "m_token (mutex_store s ?i) = rd msg F_TOKEN s" using False unfolding not_le [symmetric] by blast
  then show ?thesis
  proof cases
    case a
    then show ?thesis using mutex_acquire_ok [OF s] by (simp add: process_mutex_def Let_def)
  next
    case n
    have "?i \<notin> set (mutex_head s)" if "rd msg F_CMD s = MUTEX_RELEASE"
      using that r n(3) s by (auto simp: release_ok_msg_def sync_ok_def heads_ok_def)
    then show ?thesis
      using n s release_ok(1) [OF s n(2), of msg] mutex_lock_ok [OF s n(2), of msg] mutex_unlock_ok [OF s n(2), of "Some msg"]
      by (simp add: process_mutex_def Let_def mutex_server_trylock_def)
  qed
qed

lemma process_cond_ok:
  assumes s: "sync_ok s" and r: "release_ok_msg msg s"
  shows "served (rd msg F_CMD s) s (process_cond tok msg s)"
proof (cases "rd msg F_CMD s \<noteq> COND_ACQUIRE \<and>
    (unat (rd msg F_CID s) \<ge> MAX_CONDS \<or> c_token (cond_store s (unat (rd msg F_CID s))) \<noteq> rd msg F_CTOKEN s)")
  case True
  then show ?thesis using s by (auto simp: process_cond_def Let_def served_def)
next
  case False
  let ?i = "unat (rd msg F_CID s)"
  consider (a) "rd msg F_CMD s = COND_ACQUIRE" | (n) "rd msg F_CMD s \<noteq> COND_ACQUIRE" "?i < 16"
      "c_token (cond_store s ?i) = rd msg F_CTOKEN s" using False unfolding not_le [symmetric] by blast
  then show ?thesis
  proof cases
    case a
    then show ?thesis using cond_acquire_ok [OF s] by (auto simp: process_cond_def Let_def served_def)
  next
    case n
    have "?i \<notin> set (cond_head s)" if "rd msg F_CMD s = COND_RELEASE"
      using that r n(3) s by (auto simp: release_ok_msg_def sync_ok_def heads_ok_def)
    then show ?thesis
      using n s release_ok(2) [OF s n(2), of msg] cond_wait_ok [OF s n(2), of msg] 
        cond_signal_ok [OF s n(2), of msg COND_SIGNAL] cond_signal_ok [OF s n(2), of msg COND_BROADCAST]
      by (auto simp: process_cond_def Let_def served_def)
  qed
qed

lemma process_sem_ok:
  assumes s: "sync_ok s" and r: "release_ok_msg msg s"
  shows "ok (process_sem tok msg s) sync_ok"
proof (cases "rd msg F_CMD s \<noteq> SEM_ACQUIRE \<and>
    (unat (rd msg F_MID s) \<ge> MAX_SEMS \<or> s_token (sem_store s (unat (rd msg F_MID s))) \<noteq> rd msg F_TOKEN s)")
  case True
  then show ?thesis using s by (auto simp: process_sem_def Let_def)
next
  case False
  let ?i = "unat (rd msg F_MID s)"
  consider (a) "rd msg F_CMD s = SEM_ACQUIRE" | (n) "rd msg F_CMD s \<noteq> SEM_ACQUIRE" "?i < 16"
      "s_token (sem_store s ?i) = rd msg F_TOKEN s" using False unfolding not_le [symmetric] by blast
  then show ?thesis
  proof cases
    case a
    then show ?thesis using sem_acquire_ok [OF s] by (simp add: process_sem_def Let_def)
  next
    case n
    have "?i \<notin> set (sem_head s)" if "rd msg F_CMD s = SEM_RELEASE"
      using that r n(3) s by (auto simp: release_ok_msg_def sync_ok_def heads_ok_def)
    then show ?thesis
      using n s release_ok(3) [OF s n(2), of msg] sem_wait_ok [OF s n(2), of msg] sem_post_ok [OF s n(2), of msg]
      by (simp add: process_sem_def Let_def sem_server_trywait_def sem_server_getvalue_def)
  qed
qed

lemma server_served:
  assumes "sync_ok s" "release_ok_msg msg s"
  shows "served (rd msg F_CMD s) s (do_synchorization_server tok msg s)"
  using process_mutex_ok [OF assms, of tok] process_cond_ok [OF assms, of tok] process_sem_ok [OF assms, of tok] assms(1)
  by (auto simp: do_synchorization_server_def Let_def served_def)

lemma in_queues_Nil [simp]: "in_queues (\<lambda>_. []) = {#}"
  by (simp add: in_queues_def)

lemma sync_init_ok: "sync_ok (sync_init m)"
proof -
  have "mset [0..<16] = mset_set {..<16 :: nat}" by (simp add: mset_set_upto_eq_mset_upto lessThan_atLeast0 flip: mset_upt)
  moreover have "mpend (sync_init m) = (\<lambda>_. [])" "cpend (sync_init m) = (\<lambda>_. [])" "spend (sync_init m) = (\<lambda>_. [])"
    by (simp_all add: mpend_def cpend_def spend_def sync_init_def fun_eq_iff)
  ultimately show ?thesis
    by (simp add: sync_ok_def pool_def heads_ok_def) (simp add: sync_init_def)
qed

text \<open>The server between two requests: a request is served, or the clients change their memory.\<close>

inductive sync_step :: "sync_info_t \<Rightarrow> sync_info_t \<Rightarrow> bool" where
  request: "release_ok_msg msg s \<Longrightarrow> do_synchorization_server tok msg s = Inr s' \<Longrightarrow> sync_step s s'"
| memory: "sync_step s (s\<lparr>mem := m\<rparr>)"

lemma sync_step_ok:
  assumes "sync_ok s" "sync_step s s'"
  shows "sync_ok s'"
  using assms(2)
proof cases
  case (request msg tok)
  with server_served [OF assms(1) request(1), of tok] show ?thesis by (simp add: served_def)
next
  case (memory m)
  with assms(1) show ?thesis by (simp add: sync_ok_def pool_def heads_ok_def)
qed

interpretation sync: invariant_system "\<lambda>s. \<exists>m. s = sync_init m" sync_step sync_ok
  by unfold_locales (auto simp: sync_init_ok intro: sync_step_ok)

section \<open>Mutexes and semaphores\<close>

text \<open>A mutex as a lock with a queue of waiting requests: the new lock, and the requests that are answered.\<close>

definition lock_view :: "nat \<Rightarrow> sync_info_t \<Rightarrow> bool \<times> noza_msg_t list" where
  "lock_view i s = (m_lock (mutex_store s i) \<noteq> 0, map (pending_store s) (mpend s i))"

fun fifo_lock :: "u32 \<Rightarrow> noza_msg_t \<Rightarrow> bool \<times> noza_msg_t list \<Rightarrow> (bool \<times> noza_msg_t list) \<times> noza_msg_t list" where
  "fifo_lock cmd msg (l, q) =
     (if cmd = MUTEX_LOCK then if l then ((l, q @ [msg]), []) else ((True, q), [msg])
      else if cmd = MUTEX_TRYLOCK then ((True, q), [msg])
      else case q of [] \<Rightarrow> ((False, []), [msg]) | w # ws \<Rightarrow> ((l, ws), [w, msg]))"

text \<open>A semaphore as a number with a queue.\<close>

definition sem_view :: "nat \<Rightarrow> sync_info_t \<Rightarrow> u32 \<times> noza_msg_t list" where
  "sem_view i s = (s_value (sem_store s i), map (pending_store s) (spend s i))"

fun counting_sem :: "u32 \<Rightarrow> noza_msg_t \<Rightarrow> u32 \<times> noza_msg_t list \<Rightarrow> (u32 \<times> noza_msg_t list) \<times> noza_msg_t list" where
  "counting_sem cmd msg (v, q) =
     (if cmd = SEM_WAIT then if sint v > 0 then ((v - 1, q), [msg]) else ((v, q @ [msg]), [])
      else if cmd = SEM_TRYWAIT then if sint v > 0 then ((v - 1, q), [msg]) else ((v, q), [msg])
      else case q of [] \<Rightarrow> ((v + 1, []), [msg]) | w # ws \<Rightarrow> ((v, ws), [w, msg]))"

lemma view_simps [simp]:
  "lock_view i (answer g f v s) = lock_view i s" "sem_view i (answer g f v s) = sem_view i s"
  "lock_view i (wr g f v s) = lock_view i s" "sem_view i (wr g f v s) = sem_view i s"
  "lock_view i (s\<lparr>free_pending_head := xs\<rparr>) = lock_view i s" "sem_view i (s\<lparr>free_pending_head := xs\<rparr>) = sem_view i s"
  by (simp_all add: lock_view_def sem_view_def answer_def)

lemma answer_simps [simp]:
  "replies (answer g f v s) = replies s @ [g]" "mutex_store (answer g f v s) = mutex_store s"
  "cond_store (answer g f v s) = cond_store s" "sem_store (answer g f v s) = sem_store s"
  "pending_store (answer g f v s) = pending_store s" "free_pending_head (answer g f v s) = free_pending_head s"
  "mpend (answer g f v s) = mpend s" "cpend (answer g f v s) = cpend s" "spend (answer g f v s) = spend s"
  "mem (answer g f v s) = (mem s)(msg_ptr g + f := v)"
  by (simp_all add: answer_def)

text \<open>What a lock request does when it cannot be granted, and an unlock with and without a waiter.\<close>

lemma lock_queue:
  assumes s: "sync_ok s" and i: "i < 16" and l: "m_lock (mutex_store s i) \<noteq> 0" and n: "free_pending_head s = n # ns"
  obtains s' where "mutex_server_lock i msg s = Inr s'" "replies s' = replies s"
    "lock_view i s' = (True, snd (lock_view i s) @ [msg])" "\<And>j. j < 16 \<Longrightarrow> j \<noteq> i \<Longrightarrow> lock_view j s' = lock_view j s"
proof -
  let ?s = "store_pending n msg (s\<lparr>free_pending_head := ns\<rparr>)"
  have q: "n \<notin> set (mpend s j)" if "j < 16" for j using free_not_in_queue(1) [OF s _ that, of n] n by simp
  let ?s' = "upd_mutex i (\<lambda>m. m\<lparr>m_pending := mpend s i @ [n]\<rparr>) ?s"
  have "mutex_server_lock i msg s = Inr ?s'"
    using l n q [OF i] by (simp add: mutex_server_lock_def get_free_pending_def mutex_insert_pending_tail_def link_tail_def mpend_def)
  moreover have "lock_view i ?s' = (True, snd (lock_view i s) @ [msg])" using l q [OF i] by (simp add: lock_view_def)
  moreover have "lock_view j ?s' = lock_view j s" if "j < 16" "j \<noteq> i" for j
    using q [OF that(1)] that(2) by (simp add: lock_view_def)
  ultimately show thesis using that by simp
qed

lemma unlock_view:
  assumes s: "sync_ok s" and i: "i < 16"
  obtains s' where "mutex_server_unlock i (Some msg) s = Inr s'"
    "replies s' = replies s @ snd (fifo_lock MUTEX_UNLOCK msg (lock_view i s))"
    "lock_view i s' = fst (fifo_lock MUTEX_UNLOCK msg (lock_view i s))" "\<And>j. j \<noteq> i \<Longrightarrow> lock_view j s' = lock_view j s"
proof (cases "mpend s i")
  case Nil
  then show thesis
    by (intro that [of "answer msg F_CODE SUCCESS (upd_mutex i (\<lambda>m. m\<lparr>m_lock := 0\<rparr>) s)"])
       (simp_all add: mutex_server_unlock_def mutex_get_pending_head_def mpend_def lock_view_def answer_def)
next
  case (Cons n ns)
  let ?s1 = "upd_mutex i (\<lambda>m. m\<lparr>m_pending := ns\<rparr>) s"
  let ?s2 = "answer (pending_store s n) F_CODE SUCCESS ?s1"
  have "n \<notin> set (free_pending_head s)" using queue_not_free [OF s i, of n] Cons by simp
  then show thesis using Cons
    by (intro that [of "answer msg F_CODE SUCCESS (?s2\<lparr>free_pending_head := free_pending_head s @ [n]\<rparr>)"])
       (simp_all add: mutex_server_unlock_def mutex_get_pending_head_def insert_free_padding_tail_def link_tail_def
         mpend_def lock_view_def answer_def)
qed

lemma sem_queue:
  assumes s: "sync_ok s" and i: "i < 16" and n: "free_pending_head s = n # ns"
  obtains s' where "sem_insert_pending_tail i n (store_pending n msg (s\<lparr>free_pending_head := ns\<rparr>)) = Inr s'"
    "replies s' = replies s" "sem_view i s' = (fst (sem_view i s), snd (sem_view i s) @ [msg])"
    "\<And>j. j < 16 \<Longrightarrow> j \<noteq> i \<Longrightarrow> sem_view j s' = sem_view j s"
proof -
  let ?s = "store_pending n msg (s\<lparr>free_pending_head := ns\<rparr>)"
  have q: "n \<notin> set (spend s j)" if "j < 16" for j using free_not_in_queue(3) [OF s _ that, of n] n by simp
  let ?s' = "upd_sem i (\<lambda>m. m\<lparr>s_pending := spend s i @ [n]\<rparr>) ?s"
  have "sem_insert_pending_tail i n ?s = Inr ?s'"
    using q [OF i] by (simp add: sem_insert_pending_tail_def link_tail_def spend_def)
  moreover have "sem_view i ?s' = (fst (sem_view i s), snd (sem_view i s) @ [msg])" using q [OF i] by (simp add: sem_view_def)
  moreover have "sem_view j ?s' = sem_view j s" if "j < 16" "j \<noteq> i" for j using q [OF that(1)] that(2) by (simp add: sem_view_def)
  ultimately show thesis using that by simp
qed

lemma post_view:
  assumes s: "sync_ok s" and i: "i < 16"
  obtains s' where "sem_server_post i msg s = Inr s'"
    "replies s' = replies s @ snd (counting_sem SEM_POST msg (sem_view i s))"
    "sem_view i s' = fst (counting_sem SEM_POST msg (sem_view i s))" "\<And>j. j \<noteq> i \<Longrightarrow> sem_view j s' = sem_view j s"
proof (cases "spend s i")
  case Nil
  then show thesis
    by (intro that [of "answer msg F_SCODE SUCCESS (upd_sem i (\<lambda>m. m\<lparr>s_value := s_value m + 1\<rparr>) s)"])
       (simp_all add: sem_server_post_def sem_get_pending_head_def spend_def sem_view_def answer_def)
next
  case (Cons n ns)
  let ?s1 = "upd_sem i (\<lambda>m. m\<lparr>s_pending := ns\<rparr>) s"
  let ?s2 = "answer (pending_store s n) F_SCODE SUCCESS (wr (pending_store s n) F_VALUE (s_value (sem_store s i)) ?s1)"
  have "n \<notin> set (free_pending_head s)" using queue_not_free [OF s i, of n] Cons by simp
  then show thesis using Cons
    by (intro that [of "answer msg F_SCODE SUCCESS (?s2\<lparr>free_pending_head := free_pending_head s @ [n]\<rparr>)"])
       (simp_all add: sem_server_post_def sem_get_pending_head_def insert_free_padding_tail_def link_tail_def
         spend_def sem_view_def answer_def)
qed

text \<open>A server with one mutex (token 7, free), one condition variable (token 9) on which the requests at
  addresses \<^verbatim>\<open>0x1000\<close> and \<^verbatim>\<open>0x2000\<close> wait with that mutex, and one semaphore (token 5, value 1).\<close>

definition demo_msg :: "u32 \<Rightarrow> u32 \<Rightarrow> noza_msg_t" where
  "demo_msg v a = \<lparr>to_vid = v, msg_ptr = a, msg_size = 24, msg_identity = k_default_identity\<rparr>"

definition demo_words :: "(u32 \<times> u32) list" where
  "demo_words =
     [(0x1008, 7), (0x2008, 7), (0x3000, MUTEX_LOCK), (0x3008, 7), (0x4000, COND_SIGNAL), (0x4014, 9),
      (0x5000, SEM_WAIT), (0x5008, 5)]"

definition demo_mem :: "u32 \<Rightarrow> u32" where
  "demo_mem a = (case map_of demo_words a of Some v \<Rightarrow> v | None \<Rightarrow> 0)"

definition demo_sync :: sync_info_t where
  "demo_sync =
     (sync_init demo_mem)\<lparr>
       mutex_store := (\<lambda>_. \<lparr>m_pending = [], m_lock = 0, m_token = 0\<rparr>)(0 := \<lparr>m_pending = [], m_lock = 0, m_token = 7\<rparr>),
       mutex_head := [1..<16],
       cond_store := (\<lambda>_. \<lparr>c_pending = [], c_signaled = 0, c_token = 0\<rparr>)(0 := \<lparr>c_pending = [0, 1], c_signaled = 0, c_token = 9\<rparr>),
       cond_head := [1..<16],
       sem_store := (\<lambda>_. \<lparr>s_pending = [], s_token = 0, s_value = 0\<rparr>)(0 := \<lparr>s_pending = [], s_token = 5, s_value = 1\<rparr>),
       sem_head := [1..<16], free_pending_head := [2..<16],
       pending_store := (pending_store (sync_init demo_mem))(0 := demo_msg 21 0x1000, 1 := demo_msg 22 0x2000)\<rparr>"

lemma demo_sync_pend:
  "mpend demo_sync = (\<lambda>_. [])" "cpend demo_sync = (\<lambda>_. [])(0 := [0, 1])" "spend demo_sync = (\<lambda>_. [])"
  by (simp_all add: mpend_def cpend_def spend_def demo_sync_def fun_eq_iff)

lemma demo_sync_sel [simp]:
  "mutex_store demo_sync 0 = \<lparr>m_pending = [], m_lock = 0, m_token = 7\<rparr>"
  "cond_store demo_sync 0 = \<lparr>c_pending = [0, 1], c_signaled = 0, c_token = 9\<rparr>"
  "sem_store demo_sync 0 = \<lparr>s_pending = [], s_token = 5, s_value = 1\<rparr>"
  "free_pending_head demo_sync = [2..<16]" "mem demo_sync = demo_mem" "replies demo_sync = []"
  "pending_store demo_sync 0 = demo_msg 21 0x1000" "pending_store demo_sync (Suc 0) = demo_msg 22 0x2000"
  by (simp_all add: demo_sync_def sync_init_def)

lemma demo_rd [simp]: "rd (demo_msg v a) f demo_sync = demo_mem (a + f)"
  by (simp add: rd_def demo_msg_def)

lemma demo_sync_ok: "sync_ok demo_sync"
proof -
  have "mset [0..<16] = mset_set {..<16 :: nat}" by (simp add: mset_set_upto_eq_mset_upto lessThan_atLeast0 flip: mset_upt)
  moreover have "[0..<16] = [0, 1] @ [2..<16 :: nat]" by (simp add: upt_conv_Cons)
  moreover have "in_queues ((\<lambda>_. [])(0 := [0, 1])) = mset [0, 1 :: nat]"
    using in_queues_upd [of 0 "\<lambda>_. []" "[0, 1]"] by simp
  ultimately have "pool demo_sync = mset_set {..<16}"
    unfolding pool_def demo_sync_pend by (simp del: upt_rec_numeral)
  then show ?thesis by (auto simp: sync_ok_def heads_ok_def demo_sync_def sync_init_def)
qed







text \<open>How many clients hold mutex \<open>i\<close>: a lock request that is answered with success adds one, an unlock by a
  holder takes one away and may at the same time answer a waiting lock request. In between anything may happen
  that leaves the record of the mutex alone.\<close>

definition granted :: "sync_info_t \<Rightarrow> sync_info_t \<Rightarrow> nat" where
  "granted s s' = length (filter (\<lambda>m. rd m F_CODE s' = SUCCESS) (drop (length (replies s)) (replies s')))"

inductive holders :: "nat \<Rightarrow> sync_info_t \<Rightarrow> nat \<Rightarrow> bool" for i where
  fresh: "m_lock (mutex_store s i) = 0 \<Longrightarrow> holders i s 0"
| lock: "holders i s h \<Longrightarrow> rd msg F_CMD s \<in> {MUTEX_LOCK, MUTEX_TRYLOCK} \<Longrightarrow> unat (rd msg F_MID s) = i
    \<Longrightarrow> process_mutex tok msg s = Inr s' \<Longrightarrow> holders i s' (h + granted s s')"
| unlock: "holders i s h \<Longrightarrow> 0 < h \<Longrightarrow> rd msg F_CMD s = MUTEX_UNLOCK \<Longrightarrow> unat (rd msg F_MID s) = i
    \<Longrightarrow> i < MAX_LOCKS \<Longrightarrow> m_token (mutex_store s i) = rd msg F_TOKEN s
    \<Longrightarrow> process_mutex tok msg s = Inr s' \<Longrightarrow> holders i s' (h - 1 + (granted s s' - 1))"
| other: "holders i s h \<Longrightarrow> mutex_store s' i = mutex_store s i \<Longrightarrow> holders i s' h"

lemma granted_answer: "replies s1 = replies s \<Longrightarrow> granted s (answer g F_CODE v s1) = (if v = 0 then 1 else 0)"
  by (simp add: granted_def answer_def rd_def)

lemma granted_none: "replies s1 = replies s \<Longrightarrow> granted s s1 = 0"
  by (simp add: granted_def)

lemma lock_grants:
  assumes "rd msg F_CMD s \<in> {MUTEX_LOCK, MUTEX_TRYLOCK}" "process_mutex tok msg s = Inr s'" "unat (rd msg F_MID s) = i"
  shows "granted s s' = 1 \<and> m_lock (mutex_store s i) = 0 \<and> m_lock (mutex_store s' i) \<noteq> 0
    \<or> granted s s' = 0 \<and> m_lock (mutex_store s' i) = m_lock (mutex_store s i)"
  using assms
  by (auto simp: process_mutex_def Let_def mutex_server_lock_def mutex_server_trylock_def granted_answer granted_none
      get_free_pending_def mutex_insert_pending_tail_def link_tail_def
      split: if_splits list.splits)

lemma unlock_grants:
  assumes "rd msg F_CMD s = MUTEX_UNLOCK" "process_mutex tok msg s = Inr s'" "unat (rd msg F_MID s) = i" "i < MAX_LOCKS"
    "m_token (mutex_store s i) = rd msg F_TOKEN s"
  shows "granted s s' = 2 \<and> m_lock (mutex_store s' i) = m_lock (mutex_store s i)
    \<or> granted s s' = 1 \<and> m_lock (mutex_store s' i) = 0"
  using assms
  by (auto simp: process_mutex_def Let_def mutex_server_unlock_def mutex_get_pending_head_def insert_free_padding_tail_def
      link_tail_def granted_def rd_def split: if_splits list.splits)



section \<open>Condition variables\<close>

text \<open>One waiter whose mutex is free is let go by a signal; the condition stays signalled.\<close>

lemma signal_wakes:
  assumes c: "c_signaled (cond_store s i) = 0" "cpend s i = n # ns"
    and w: "unat (rd (pending_store s n) F_MID s) = j" "j < MAX_LOCKS" "m_token (mutex_store s j) = rd (pending_store s n) F_TOKEN s"
      "m_lock (mutex_store s j) = 0"
  obtains s' where "cond_server_signal i a COND_SIGNAL s = Inr s'" "cpend s' i = ns"
    "c_signaled (cond_store s' i) = 1" "replies s' = replies s @ [pending_store s n, a]"
    "m_lock (mutex_store s' j) = 1" "free_pending_head s' = free_pending_head s"
proof -
  let ?s1 = "upd_cond i (\<lambda>c. c\<lparr>c_pending := ns\<rparr>) (upd_cond i (\<lambda>c. c\<lparr>c_signaled := 1\<rparr>) s)"
  let ?s' = "answer a F_CODE SUCCESS (answer (pending_store s n) F_CODE SUCCESS (upd_mutex j (\<lambda>m. m\<lparr>m_lock := 1\<rparr>) ?s1))"
  have "rd g f ?s1 = rd g f s" for g f by (simp add: rd_def)
  then have "cond_server_signal i a COND_SIGNAL s = Inr ?s'"
    using c w by (simp add: cond_server_signal_def cpend_def Let_def)
  then show thesis by (rule that) simp_all
qed



text \<open>C25: A waiter is lost when its mutex is locked at the time of the signal. The request that waits first is
  taken out of the queue of the condition variable, is not answered, and is in no list afterwards; instead the
  signalling request waits for the mutex.\<close>

theorem signal_loses_waiter:
  assumes s: "sync_ok s" and i: "i < MAX_CONDS" and c: "c_signaled (cond_store s i) = 0" "cpend s i = n # ns"
    and w: "unat (rd (pending_store s n) F_MID s) = j" "j < MAX_LOCKS" "m_token (mutex_store s j) = rd (pending_store s n) F_TOKEN s"
      "m_lock (mutex_store s j) \<noteq> 0" and free: "free_pending_head s \<noteq> []"
  shows "\<exists>s'. cond_server_signal i a mode s = Inr s' \<and> replies s' = replies s \<and> n \<notin># pool s'
    \<and> lock_view j s' = (True, snd (lock_view j s) @ [a])"
proof -
  from free obtain k ks where k: "free_pending_head s = k # ks" by (cases "free_pending_head s") auto
  have q: "k \<notin> set (mpend s j)" using free_not_in_queue(1) [OF s _ w(2), of k] k by simp
  let ?s1 = "upd_cond i (\<lambda>c. c\<lparr>c_pending := ns\<rparr>) (upd_cond i (\<lambda>c. c\<lparr>c_signaled := 1\<rparr>) s)"
  let ?s' = "upd_mutex j (\<lambda>m. m\<lparr>m_pending := m_pending m @ [k]\<rparr>) (store_pending k a (?s1\<lparr>free_pending_head := ks\<rparr>))"
  have "rd g f ?s1 = rd g f s" for g f by (simp add: rd_def)
  then have "cond_server_signal i a mode s = Inr ?s'"
    using c w k q by (simp add: cond_server_signal_def cpend_def Let_def get_free_pending_def mutex_insert_pending_tail_def
        link_tail_def mpend_def)
  moreover have "n \<notin># pool ?s'"
  proof -
    have "pool ?s' = pool ?s1" by (rule enqueue_pool(1)) (use k w(2) in simp_all)
    moreover have "in_queues (cpend s) = add_mset n (in_queues ((cpend s)(i := ns)))"
      using in_queues_upd [OF i, of "cpend s" ns] c(2) by simp
    then have "count (pool ?s1) n + 1 = count (pool s) n" by (simp add: pool_def)
    ultimately have "count (pool ?s') n = 0" using pool_count [OF s, of n] by simp
    then show ?thesis by (simp add: count_eq_zero_iff)
  qed
  moreover have "lock_view j ?s' = (True, snd (lock_view j s) @ [a])" using w(4) q by (simp add: lock_view_def mpend_def)
  ultimately show ?thesis by (intro exI [of _ ?s']) simp
qed

theorem signal_loses_waiter_witness:
  "\<exists>s'. cond_server_signal 0 (demo_msg 23 0x4000) COND_SIGNAL (upd_mutex 0 (\<lambda>m. m\<lparr>m_lock := 1\<rparr>) demo_sync) = Inr s'
    \<and> replies s' = [] \<and> 0 \<notin># pool s'"
proof -
  let ?s = "upd_mutex 0 (\<lambda>m. m\<lparr>m_lock := 1\<rparr>) demo_sync"
  have r: "rd g f ?s = rd g f demo_sync" for g f by (simp add: rd_def)
  have c: "sync_ok ?s" "(0 :: nat) < MAX_CONDS" "c_signaled (cond_store ?s 0) = 0" "cpend ?s 0 = 0 # [1]"
    using demo_sync_ok by (simp_all add: demo_sync_pend)
  have w: "unat (rd (pending_store ?s 0) F_MID ?s) = 0" "(0 :: nat) < MAX_LOCKS"
    "m_token (mutex_store ?s 0) = rd (pending_store ?s 0) F_TOKEN ?s" "m_lock (mutex_store ?s 0) \<noteq> 0" "free_pending_head ?s \<noteq> []"
    by (simp_all add: demo_mem_def demo_words_def r)
  from signal_loses_waiter [OF c w, of "demo_msg 23 0x4000" COND_SIGNAL] show ?thesis by auto
qed

text \<open>Releasing a mutex loses waiting nodes: every waiting request is answered with \<^verbatim>\<open>ESRCH\<close>, but its node
  goes to no list, so that as many nodes are missing from the server's pool afterwards as requests waited.\<close>

theorem release_leaks:
  assumes s: "sync_ok s" and i: "i < MAX_LOCKS" "i \<notin> set (mutex_head s)"
  shows "\<exists>s'. mutex_server_release i msg s = Inr s' \<and> sync_ok s' \<and> pool s = pool s' + mset (mpend s i)
    \<and> replies s' = replies s @ map (pending_store s) (mpend s i) @ [msg]"
proof -
  from release_ok(1) [OF s i(1,2), of msg] obtain s' where s': "mutex_server_release i msg s = Inr s'" "sync_ok s'"
    by (auto simp: ok_def)
  have "mpend s' = (mpend s)(i := [])" "cpend s' = cpend s" "spend s' = spend s" "free_pending_head s' = free_pending_head s"
    "replies s' = replies s @ map (pending_store s) (mpend s i) @ [msg]"
    using s'(1) i by (auto simp: mutex_server_release_def Let_def link_tail_def mpend_def)
  then show ?thesis using in_queues_upd [OF i(1), of "mpend s" "[]"] s'
    by (intro exI [of _ s']) (simp add: pool_def)
qed

theorem release_leaks_witness:
  "\<exists>s s'. mutex_server_release 0 (demo_msg 20 0x3000) s = Inr s' \<and> pool s = pool s' + {#2#}
    \<and> replies s' = [demo_msg 22 0x2000, demo_msg 20 0x3000]"
proof -
  let ?t = "demo_sync\<lparr>free_pending_head := [3..<16]\<rparr>"
  let ?s = "upd_mutex 0 (\<lambda>m. m\<lparr>m_pending := m_pending m @ [2]\<rparr>) (store_pending 2 (demo_msg 22 0x2000) ?t)"
  have f: "free_pending_head demo_sync = 2 # [3..<16]" by simp
  have "pool ?s = pool demo_sync" by (rule enqueue_pool(1) [OF f]) simp
  moreover have m: "mutex_head demo_sync = [1..<16]" by (simp add: demo_sync_def)
  ultimately have s: "sync_ok ?s" using demo_sync_ok by (auto simp: sync_ok_def heads_ok_def)
  have "(0 :: nat) < MAX_LOCKS" "0 \<notin> set (mutex_head ?s)" using m by simp_all
  from release_leaks [OF s this, of "demo_msg 20 0x3000"] obtain s' where
    "mutex_server_release 0 (demo_msg 20 0x3000) ?s = Inr s'" "pool ?s = pool s' + mset (mpend ?s 0)"
    "replies s' = replies ?s @ map (pending_store ?s) (mpend ?s 0) @ [demo_msg 20 0x3000]" by blast
  then show ?thesis by (intro exI [of _ ?s] exI [of _ s']) (simp add: demo_sync_pend)
qed

end
