(* ===== verification/Tinyalloc.thy ===== *)
theory Tinyalloc
  imports Noza_Prelude
begin

text \<open>
  The heap allocator of the memory service (\<^verbatim>\<open>3rd_party/tinyalloc_port/tinyalloc.c\<close>, built with splitting and
  compaction). Blocks of memory are described by nodes in three singly linked lists: free blocks in the order of
  their addresses, used blocks, and fresh nodes that describe nothing. The model keeps the first two as lists of
  blocks and the number of fresh nodes. Addresses and sizes are 32-bit words.

  Up to requests that overflow the address arithmetic, and requests of size 0, the blocks tile the memory between
  the base and the top: every byte is in exactly one block, blocks in use never overlap, and free neighbours are
  always merged. Without these restrictions the allocator hands out overlapping memory, as shown at the end.
\<close>

section \<open>State and operations\<close>

text \<open>\<^verbatim>\<open>struct Block\<close>; the link is the list it is in.\<close>

record block_t =
  b_addr :: u32
  b_size :: u32

record tinyalloc_t =
  heap_free :: "block_t list"
  heap_used :: "block_t list"
  heap_fresh :: nat
  heap_top :: u32
  heap_limit :: u32
  heap_split_thresh :: u32
  heap_alignment :: u32
  heap_max_blocks :: nat

fun insert_block :: "block_t \<Rightarrow> block_t list \<Rightarrow> block_t list" where
  "insert_block block [] = [block]"
| "insert_block block (ptr # ps) =
     (if b_addr block \<le> b_addr ptr then block # ptr # ps else ptr # insert_block block ps)"

text \<open>The inner loop of \<^verbatim>\<open>compact\<close>: the last block of the run of neighbours that starts at \<open>prev\<close>, the number of
  nodes that follow it in the run, and what comes after.\<close>

fun merge_run :: "block_t \<Rightarrow> block_t list \<Rightarrow> block_t \<times> nat \<times> block_t list" where
  "merge_run prev [] = (prev, 0, [])"
| "merge_run prev (scan # rest) =
     (if b_addr prev + b_size prev = b_addr scan
      then (case merge_run scan rest of (p, n, r) \<Rightarrow> (p, Suc n, r))
      else (prev, 0, scan # rest))"

lemma merge_run_length: "merge_run p xs = (q, n, r) \<Longrightarrow> length r + n = length xs"
  by (induction p xs arbitrary: q n r rule: merge_run.induct) (auto split: if_splits prod.splits)

text \<open>The new free list, and the number of nodes that \<^verbatim>\<open>release_blocks\<close> makes fresh.\<close>

function compact :: "block_t list \<Rightarrow> block_t list \<times> nat" where
  "compact [] = ([], 0)"
| "compact (ptr # ps) =
     (case merge_run ptr ps of (prev, n, rest) \<Rightarrow>
        let ptr' = (if n = 0 then ptr else ptr\<lparr>b_size := b_addr prev - b_addr ptr + b_size prev\<rparr>);
            (cs, m) = compact rest
        in (ptr' # cs, n + m))"
  by pat_completeness auto
termination by (relation "measure length") (auto dest!: merge_run_length [OF sym])

text \<open>\<^verbatim>\<open>sizeof(Heap)\<close> is 16 and \<^verbatim>\<open>sizeof(Block)\<close> 12.\<close>

definition ta_init :: "u32 \<Rightarrow> u32 \<Rightarrow> nat \<Rightarrow> u32 \<Rightarrow> u32 \<Rightarrow> tinyalloc_t" where
  "ta_init base limit blocks split_thresh alignment =
     \<lparr>heap_free = [], heap_used = [], heap_fresh = blocks, heap_top = base + 16 + of_nat blocks * 12, heap_limit = limit,
      heap_split_thresh = split_thresh, heap_alignment = alignment, heap_max_blocks = blocks\<rparr>"

fun take_used :: "u32 \<Rightarrow> block_t list \<Rightarrow> (block_t \<times> block_t list) option" where
  "take_used ptr [] = None"
| "take_used ptr (block # bs) =
     (if ptr = b_addr block then Some (block, bs)
      else map_option (\<lambda>(b, r). (b, block # r)) (take_used ptr bs))"

definition ta_free :: "u32 \<Rightarrow> tinyalloc_t \<Rightarrow> bool \<times> tinyalloc_t" where
  "ta_free ptr h =
     (case take_used ptr (heap_used h) of
        None \<Rightarrow> (False, h)
      | Some (block, used) \<Rightarrow>
          let (free, n) = compact (insert_block block (heap_free h))
          in (True, h\<lparr>heap_used := used, heap_free := free, heap_fresh := heap_fresh h + n\<rparr>))"

text \<open>The loop of \<^verbatim>\<open>alloc_block\<close>: the first free block that is large enough or can be resized because it ends at the
  top, and the list without it.\<close>

fun free_fit :: "u32 \<Rightarrow> tinyalloc_t \<Rightarrow> block_t list \<Rightarrow> (block_t \<times> bool \<times> block_t list) option" where
  "free_fit num h [] = None"
| "free_fit num h (ptr # ps) =
     (let is_top = (b_addr ptr + b_size ptr \<ge> heap_top h \<and> b_addr ptr + num \<le> heap_limit h)
      in if is_top \<or> b_size ptr \<ge> num then Some (ptr, is_top, ps)
         else map_option (\<lambda>(p, t, r). (p, t, ptr # r)) (free_fit num h ps))"

definition alloc_block :: "u32 \<Rightarrow> tinyalloc_t \<Rightarrow> block_t option \<times> tinyalloc_t" where
  "alloc_block req h =
     (let num = (req + heap_alignment h - 1) AND (- heap_alignment h)
      in case free_fit num h (heap_free h) of
           Some (ptr, is_top, free) \<Rightarrow>
             let excess = b_size ptr - num;
                 resized = ptr\<lparr>b_size := num\<rparr>
             in if is_top then
                  (Some resized, h\<lparr>heap_free := free, heap_used := resized # heap_used h, heap_top := b_addr ptr + num\<rparr>)
                else if heap_fresh h \<noteq> 0 \<and> excess \<ge> heap_split_thresh h then
                  let (free', n) = compact (insert_block \<lparr>b_addr = b_addr ptr + num, b_size = excess\<rparr> free)
                  in (Some resized, h\<lparr>heap_free := free', heap_used := resized # heap_used h,
                        heap_fresh := heap_fresh h - 1 + n\<rparr>)
                else (Some ptr, h\<lparr>heap_free := free, heap_used := ptr # heap_used h\<rparr>)
         | None \<Rightarrow>
             let top = heap_top h; new_top = top + num; ptr = \<lparr>b_addr = top, b_size = num\<rparr>
             in if heap_fresh h \<noteq> 0 \<and> new_top \<le> heap_limit h then
                  (Some ptr, h\<lparr>heap_used := ptr # heap_used h, heap_fresh := heap_fresh h - 1, heap_top := new_top\<rparr>)
                else (None, h))"

definition ta_alloc :: "u32 \<Rightarrow> tinyalloc_t \<Rightarrow> u32 \<times> tinyalloc_t" where
  "ta_alloc num h =
     (case alloc_block num h of
        (Some block, h') \<Rightarrow> (b_addr block, h')
      | (None, h') \<Rightarrow> (0, h'))"

text \<open>\<^verbatim>\<open>memclear\<close> writes whole words and then the remaining bytes.\<close>

fun clear_words :: "nat \<Rightarrow> u32 \<Rightarrow> (u32 \<Rightarrow> u8) \<Rightarrow> (u32 \<Rightarrow> u8)" where
  "clear_words 0 ptrw m = m"
| "clear_words (Suc n) ptrw m = clear_words n (ptrw + 4) (m(ptrw := 0, ptrw + 1 := 0, ptrw + 2 := 0, ptrw + 3 := 0))"

fun clear_bytes :: "nat \<Rightarrow> u32 \<Rightarrow> (u32 \<Rightarrow> u8) \<Rightarrow> (u32 \<Rightarrow> u8)" where
  "clear_bytes 0 ptrb m = m"
| "clear_bytes (Suc n) ptrb m = clear_bytes n (ptrb + 1) (m(ptrb := 0))"

definition memclear :: "u32 \<Rightarrow> u32 \<Rightarrow> (u32 \<Rightarrow> u8) \<Rightarrow> (u32 \<Rightarrow> u8)" where
  "memclear ptr num m =
     (let numw = (num AND - 4) div 4
      in clear_bytes (unat (num AND 3)) (ptr + 4 * numw) (clear_words (unat numw) ptr m))"

definition ta_calloc :: "u32 \<Rightarrow> u32 \<Rightarrow> (u32 \<Rightarrow> u8) \<Rightarrow> tinyalloc_t \<Rightarrow> u32 \<times> (u32 \<Rightarrow> u8) \<times> tinyalloc_t" where
  "ta_calloc num sz m h =
     (case alloc_block (num * sz) h of
        (Some block, h') \<Rightarrow> (b_addr block, memclear (b_addr block) (num * sz) m, h')
      | (None, h') \<Rightarrow> (0, m, h'))"

definition ta_num_free :: "tinyalloc_t \<Rightarrow> nat" where
  "ta_num_free h = length (heap_free h)"

definition ta_num_used :: "tinyalloc_t \<Rightarrow> nat" where
  "ta_num_used h = length (heap_used h)"

definition ta_num_fresh :: "tinyalloc_t \<Rightarrow> nat" where
  "ta_num_fresh h = heap_fresh h"

definition ta_check :: "tinyalloc_t \<Rightarrow> bool" where
  "ta_check h \<longleftrightarrow> heap_max_blocks h = ta_num_free h + ta_num_used h + ta_num_fresh h"

section \<open>The invariant\<close>

definition region :: "block_t \<Rightarrow> nat set" where
  "region b = {unat (b_addr b) ..< unat (b_addr b) + unat (b_size b)}"

abbreviation bstart :: "block_t \<Rightarrow> nat" where
  "bstart b \<equiv> unat (b_addr b)"

abbreviation bend :: "block_t \<Rightarrow> nat" where
  "bend b \<equiv> unat (b_addr b) + unat (b_size b)"

text \<open>The number of blocks of a list a byte is in.\<close>

definition hits :: "block_t list \<Rightarrow> nat \<Rightarrow> nat" where
  "hits xs x = length (filter (\<lambda>b. x \<in> region b) xs)"

text \<open>\<open>base\<close> is the first address after the nodes.\<close>

definition tiled :: "nat \<Rightarrow> tinyalloc_t \<Rightarrow> bool" where
  "tiled base h \<longleftrightarrow>
     0 < base \<and> base \<le> unat (heap_top h) \<and> heap_top h \<le> heap_limit h
     \<and> (\<forall>x. hits (heap_free h) x + hits (heap_used h) x = (if base \<le> x \<and> x < unat (heap_top h) then 1 else 0))
     \<and> (\<forall>b \<in> set (heap_free h) \<union> set (heap_used h). b_size b \<noteq> 0 \<and> 8 dvd unat (b_size b) \<and> 8 dvd bstart b - base)
     \<and> 8 dvd unat (heap_top h) - base"

definition heap_ok :: "nat \<Rightarrow> tinyalloc_t \<Rightarrow> bool" where
  "heap_ok base h \<longleftrightarrow> tiled base h \<and> sorted_wrt (\<lambda>p q. bend p < bstart q) (heap_free h)
     \<and> heap_alignment h = 8 \<and> 0 < heap_split_thresh h \<and> ta_check h"

section \<open>Lists of blocks\<close>

lemma hits_simps [simp]:
  "hits [] x = 0" "hits (b # bs) x = (if x \<in> region b then 1 else 0) + hits bs x"
  "hits (xs @ ys) x = hits xs x + hits ys x"
  by (simp_all add: hits_def)

lemma hits_pos: "b \<in> set xs \<Longrightarrow> x \<in> region b \<Longrightarrow> 1 \<le> hits xs x"
  by (induction xs) auto

lemma in_region [simp]: "x \<in> region b \<longleftrightarrow> bstart b \<le> x \<and> x < bend b"
  by (simp add: region_def)

lemma insert_block_simps [simp]:
  "set (insert_block b xs) = insert b (set xs)" "hits (insert_block b xs) x = hits (b # xs) x"
  "length (insert_block b xs) = Suc (length xs)"
  by (induction xs) (auto simp del: in_region)

lemma take_used_Some:
  "take_used p xs = Some (b, r) \<Longrightarrow> b \<in> set xs \<and> b_addr b = p \<and> hits xs x = hits (b # r) x \<and> set xs = insert b (set r)
     \<and> length xs = Suc (length r)"
  by (induction xs arbitrary: r) (auto split: if_splits simp del: in_region)

lemma take_used_None: "take_used p xs = None \<longleftrightarrow> (\<forall>b \<in> set xs. b_addr b \<noteq> p)"
  by (induction xs) auto

lemma take_used_filter:
  "take_used p xs = Some (b, r) \<Longrightarrow> distinct (map b_addr xs) \<Longrightarrow> r = filter (\<lambda>c. b_addr c \<noteq> p) xs"
proof (induction xs arbitrary: r)
  case (Cons c xs)
  show ?case
  proof (cases "p = b_addr c")
    case True
    have "\<forall>d \<in> set xs. b_addr d \<noteq> p"
    proof
      fix d assume "d \<in> set xs"
      then have "b_addr d \<in> b_addr ` set xs" by (rule imageI)
      with True Cons.prems(2) show "b_addr d \<noteq> p" by auto
    qed
    then have "filter (\<lambda>d. b_addr d \<noteq> p) xs = xs" by (rule filter_True)
    with True Cons.prems show ?thesis by auto
  qed (use Cons in auto)
qed simp

lemma free_fit_Some:
  assumes "free_fit num h xs = Some (p, t, r)"
  shows "p \<in> set xs" and "hits xs x = hits (p # r) x" and "set xs = insert p (set r)" and "length xs = Suc (length r)"
    and "sorted_wrt P xs \<Longrightarrow> sorted_wrt P r"
    and "t \<longleftrightarrow> b_addr p + b_size p \<ge> heap_top h \<and> b_addr p + num \<le> heap_limit h" and "t \<or> b_size p \<ge> num"
proof -
  have "p \<in> set xs \<and> hits xs x = hits (p # r) x \<and> set xs = insert p (set r) \<and> length xs = Suc (length r)
    \<and> (sorted_wrt P xs \<longrightarrow> sorted_wrt P r)
    \<and> (t \<longleftrightarrow> b_addr p + b_size p \<ge> heap_top h \<and> b_addr p + num \<le> heap_limit h) \<and> (t \<or> b_size p \<ge> num)"
    using assms by (induction xs arbitrary: r) (auto simp: Let_def split: if_splits simp del: in_region)
  then show "p \<in> set xs" and "hits xs x = hits (p # r) x" and "set xs = insert p (set r)" and "length xs = Suc (length r)"
    and "sorted_wrt P xs \<Longrightarrow> sorted_wrt P r"
    and "t \<longleftrightarrow> b_addr p + b_size p \<ge> heap_top h \<and> b_addr p + num \<le> heap_limit h" and "t \<or> b_size p \<ge> num" by blast+
qed

text \<open>Lists in the order of their addresses, without overlaps, that end below the limit of the addresses.\<close>

abbreviation ordered :: "block_t list \<Rightarrow> bool" where
  "ordered \<equiv> sorted_wrt (\<lambda>p q. bend p \<le> bstart q)"

definition bounded :: "block_t list \<Rightarrow> bool" where
  "bounded xs \<longleftrightarrow> (\<forall>b \<in> set xs. bend b < 2 ^ 32 \<and> b_size b \<noteq> 0)"

definition merged :: "block_t \<Rightarrow> block_t \<Rightarrow> block_t" where
  "merged p q = p\<lparr>b_size := b_addr q - b_addr p + b_size q\<rparr>"

lemma merged_self [simp]: "merged p p = p"
  by (simp add: merged_def)

lemma merged_sel:
  assumes "bstart p \<le> bstart q" "bend q < 2 ^ 32"
  shows "bstart (merged p q) = bstart p" and "bend (merged p q) = bend q" and "region (merged p q) = {bstart p ..< bend q}"
proof -
  have "unat (b_addr q - b_addr p) = bstart q - bstart p" using assms(1) by (simp add: unat_sub word_le_nat_alt)
  moreover from this have "unat (b_addr q - b_addr p + b_size q) = unat (b_addr q - b_addr p) + unat (b_size q)"
    using assms by (subst unat_add_lem [symmetric]) simp
  ultimately show "bstart (merged p q) = bstart p" "bend (merged p q) = bend q" using assms by (simp_all add: merged_def)
  then show "region (merged p q) = {bstart p ..< bend q}" by (simp add: region_def)
qed

lemma bend_eq: "bend p < 2 ^ 32 \<Longrightarrow> unat (b_addr p + b_size p) = bend p"
  by (subst unat_add_lem [symmetric]) simp

lemma merge_run_ok:
  assumes "merge_run p xs = (q, n, r)" "ordered (p # xs)" "bounded (p # xs)"
  shows "bstart p \<le> bstart q \<and> q \<in> set (p # xs) \<and> (\<exists>ms. xs = ms @ r \<and> length ms = n)
    \<and> (\<forall>x. hits (merged p q # r) x = hits (p # xs) x) \<and> (\<forall>y \<in> set r. bend q < bstart y) \<and> (n = 0 \<longrightarrow> q = p)"
  using assms
proof (induction p xs arbitrary: q n r rule: merge_run.induct)
  case (2 prev scan rest)
  show ?case
  proof (cases "b_addr prev + b_size prev = b_addr scan")
    case False
    with 2(2) have r: "q = prev" "n = 0" "r = scan # rest" by auto
    have "bend prev < 2 ^ 32" using 2(4) by (simp add: bounded_def)
    with False have "bend prev \<noteq> bstart scan" by (metis bend_eq word_unat_eq_iff)
    with 2(3) r show ?thesis by (auto intro: le_less_trans)
  next
    case True
    with 2(2) obtain m where m: "merge_run scan rest = (q, m, r)" "n = Suc m" by (auto split: prod.splits)
    from 2(1) [OF True m(1)] 2(3,4) have IH: "bstart scan \<le> bstart q" "q \<in> set (scan # rest)"
      "\<exists>ms. rest = ms @ r \<and> length ms = m" "\<forall>x. hits (merged scan q # r) x = hits (scan # rest) x" "\<forall>y \<in> set r. bend q < bstart y"
      by (auto simp: bounded_def)
    have b: "bend prev < 2 ^ 32" "bend q < 2 ^ 32" using 2(4) IH(2) by (auto simp: bounded_def)
    have e: "bend prev = bstart scan" using True bend_eq [OF b(1)] by simp
    have le: "bstart prev \<le> bstart q" using e IH(1) by simp
    note s = merged_sel [OF IH(1) b(2)] and p = merged_sel [OF le b(2)]
    have "(if x \<in> region (merged prev q) then 1 else 0) = (if x \<in> region prev then 1 else 0) + (if x \<in> region (merged scan q) then 1 else (0 :: nat))" for x
      unfolding s(3) p(3) region_def [of prev] using e IH(1) by auto
    with IH(4) have "hits (merged prev q # r) x = hits (prev # scan # rest) x" for x by (simp del: in_region)
    with IH le m(2) show ?thesis by auto
  qed
qed auto

lemma compact_eq:
  assumes "merge_run p ps = (q, n, r)" "ordered (p # ps)" "bounded (p # ps)"
  shows "compact (p # ps) = (merged p q # fst (compact r), n + snd (compact r))"
proof -
  from merge_run_ok [OF assms] have "n = 0 \<longrightarrow> q = p" by blast
  with assms(1) show ?thesis by (auto simp: merged_def split_def Let_def)
qed

lemma compact_ok:
  assumes "ordered xs" "bounded xs"
  shows "(\<forall>x. hits (fst (compact xs)) x = hits xs x) \<and> length (fst (compact xs)) + snd (compact xs) = length xs
    \<and> sorted_wrt (\<lambda>p q. bend p < bstart q) (fst (compact xs))
    \<and> (\<forall>b \<in> set (fst (compact xs)). \<exists>p \<in> set xs. \<exists>q \<in> set xs. bstart b = bstart p \<and> bend b = bend q \<and> bstart p \<le> bstart q)"
  using assms
proof (induction xs rule: length_induct)
  case (1 xs)
  show ?case
  proof (cases xs)
    case (Cons p ps)
    obtain q n r where m: "merge_run p ps = (q, n, r)" by (cases "merge_run p ps")
    note o = "1.prems" [unfolded Cons]
    note mr = merge_run_ok [OF m o] and e = compact_eq [OF m o]
    from mr obtain ms where ms: "ps = ms @ r" "length ms = n" by blast
    have r: "ordered r" "bounded r" "length r < length xs" using o ms Cons by (auto simp: sorted_wrt_append bounded_def)
    from 1(1) r have IH: "\<forall>x. hits (fst (compact r)) x = hits r x" "length (fst (compact r)) + snd (compact r) = length r"
      "sorted_wrt (\<lambda>p q. bend p < bstart q) (fst (compact r))"
      "\<forall>b \<in> set (fst (compact r)). \<exists>p \<in> set r. \<exists>q \<in> set r. bstart b = bstart p \<and> bend b = bend q \<and> bstart p \<le> bstart q" by blast+
    have q: "bstart p \<le> bstart q" "q \<in> set xs" "bend q < 2 ^ 32" using mr o Cons by (auto simp: bounded_def)
    note sel = merged_sel [OF q(1,3)]
    have after: "\<forall>y \<in> set r. bend q < bstart y" using mr by blast
    have lt: "bend (merged p q) < bstart b" if b: "b \<in> set (fst (compact r))" for b
    proof -
      from IH(4) b obtain c where "c \<in> set r" "bstart b = bstart c" by blast
      with after sel(2) show ?thesis by simp
    qed
    moreover have "\<forall>x. hits (merged p q # r) x = hits xs x" using mr Cons by simp
    moreover have "length r + n = length ps" using ms by simp
    moreover have "\<exists>p \<in> set xs. \<exists>q \<in> set xs. bstart b = bstart p \<and> bend b = bend q \<and> bstart p \<le> bstart q"
      if b: "b \<in> set (merged p q # fst (compact r))" for b
    proof (cases "b = merged p q")
      case True
      have "p \<in> set xs" using Cons by simp
      then show ?thesis using True sel(1,2) q by (intro bexI [of _ p] bexI [of _ q]) simp_all
    next
      case False
      then obtain c d where "c \<in> set r" "d \<in> set r" "bstart b = bstart c" "bend b = bend d" "bstart c \<le> bstart d"
        using IH(4) b by auto
      then show ?thesis using ms(1) Cons by (intro bexI [of _ c] bexI [of _ d]) simp_all
    qed
    moreover have "sorted_wrt (\<lambda>p q. bend p < bstart q) (merged p q # fst (compact r))" using IH(3) lt by simp
    moreover have "hits (merged p q # fst (compact r)) x = hits (merged p q # r) x" for x using IH(1) by simp
    moreover have "compact xs = (merged p q # fst (compact r), n + snd (compact r))" using e Cons by simp
    ultimately show ?thesis using IH(2) Cons by simp
  qed simp
qed

text \<open>A block that overlaps none of an ordered list is inserted in order.\<close>

lemma disjoint_order:
  assumes "bstart p \<le> bstart q" "b_size p \<noteq> 0" "b_size q \<noteq> 0" "\<forall>x. \<not> (x \<in> region p \<and> x \<in> region q)"
  shows "bend p \<le> bstart q"
proof (rule ccontr)
  assume "\<not> bend p \<le> bstart q"
  moreover have "0 < unat (b_size q)" using assms(3) by (simp add: unat_gt_0)
  ultimately have "bstart q \<in> region p \<and> bstart q \<in> region q" using assms(1) by simp
  with assms(4) show False by blast
qed

lemma insert_ordered:
  assumes "ordered xs" "bounded (b # xs)" "\<forall>p \<in> set xs. \<forall>x. \<not> (x \<in> region b \<and> x \<in> region p)"
  shows "ordered (insert_block b xs)"
  using assms
proof (induction xs)
  case (Cons p xs)
  have z: "b_size b \<noteq> 0" "b_size p \<noteq> 0" using Cons.prems(2) by (simp_all add: bounded_def)
  show ?case
  proof (cases "b_addr b \<le> b_addr p")
    case True
    moreover have "\<forall>x. \<not> (x \<in> region b \<and> x \<in> region p)" using Cons.prems(3) by simp
    ultimately have "bend b \<le> bstart p" by (intro disjoint_order z) (simp_all add: word_le_nat_alt)
    with True Cons.prems(1) show ?thesis by (auto intro: order_trans)
  next
    case False
    moreover have "\<forall>x. \<not> (x \<in> region p \<and> x \<in> region b)" using Cons.prems(3) by auto
    ultimately have "bend p \<le> bstart b" by (intro disjoint_order z) (simp_all add: word_le_nat_alt)
    with False Cons show ?thesis by (auto simp: bounded_def)
  qed
qed simp

section \<open>Tiling\<close>

lemma unat_lt32: "unat (w :: u32) < 2 ^ 32"
  using unsigned_less [of w, where 'a = nat] by simp

lemma tiled_hits: "tiled base h \<Longrightarrow> hits (heap_free h) x + hits (heap_used h) x = (if base \<le> x \<and> x < unat (heap_top h) then 1 else 0)"
  by (simp add: tiled_def)

lemma tiled_block:
  assumes "tiled base h" "b \<in> set (heap_free h) \<union> set (heap_used h)"
  shows "b_size b \<noteq> 0" and "8 dvd unat (b_size b)" and "8 dvd bstart b - base" and "0 < unat (b_size b)"
    and "base \<le> bstart b" and "bend b \<le> unat (heap_top h)" and "bend b < 2 ^ 32"
proof -
  show s: "b_size b \<noteq> 0" "8 dvd unat (b_size b)" "8 dvd bstart b - base" using assms by (auto simp: tiled_def)
  then show p: "0 < unat (b_size b)" by (simp add: unat_gt_0)
  have range: "base \<le> x \<and> x < unat (heap_top h)" if "x \<in> region b" for x
  proof -
    have "1 \<le> hits (heap_free h) x + hits (heap_used h) x" using assms(2) hits_pos [OF _ that] by (auto simp del: in_region intro: trans_le_add1 trans_le_add2)
    then show ?thesis unfolding tiled_hits [OF assms(1)] by (simp split: if_splits)
  qed
  have "bstart b \<in> region b" "bend b - 1 \<in> region b" using p by auto
  from this [THEN range] p show "base \<le> bstart b" "bend b \<le> unat (heap_top h)" by linarith+
  then show "bend b < 2 ^ 32" using unat_lt32 [of "heap_top h"] by simp
qed

lemma tiled_move:
  assumes "tiled base h" "heap_top h' = heap_top h" "heap_limit h' = heap_limit h"
    and "set (heap_free h') \<union> set (heap_used h') = set (heap_free h) \<union> set (heap_used h)"
    and "\<And>x. hits (heap_free h') x + hits (heap_used h') x = hits (heap_free h) x + hits (heap_used h) x"
  shows "tiled base h'"
  using assms unfolding tiled_def by metis

lemma hits_disjoint:
  assumes "\<forall>x. hits (b # xs) x \<le> 1" "c \<in> set xs"
  shows "\<not> (x \<in> region b \<and> x \<in> region c)"
proof
  assume "x \<in> region b \<and> x \<in> region c"
  with hits_pos [OF assms(2)] have "2 \<le> hits (b # xs) x" by (simp del: in_region)
  with assms(1) show False by (metis not_numeral_le_zero numeral_le_one_iff order_trans semiring_norm(69))
qed

lemma hits_pairwise: "\<forall>x. hits xs x \<le> 1 \<Longrightarrow> sorted_wrt (\<lambda>b c. region b \<inter> region c = {}) xs"
proof (induction xs)
  case (Cons b xs)
  have "hits xs x \<le> 1" for x using Cons.prems [rule_format, of x] unfolding hits_simps by linarith
  moreover have "region b \<inter> region c = {}" if "c \<in> set xs" for c using hits_disjoint [OF Cons.prems that] by blast
  ultimately show ?case using Cons.IH by simp
qed simp

lemma used_disjoint:
  assumes "tiled base h"
  shows "sorted_wrt (\<lambda>b c. region b \<inter> region c = {}) (heap_used h)"
proof (rule hits_pairwise, rule allI)
  fix x
  show "hits (heap_used h) x \<le> 1" using tiled_hits [OF assms, of x] by (simp split: if_splits)
qed

text \<open>A block is put into the free list and neighbours are merged.\<close>

lemma settle_ok:
  assumes t: "tiled base h" and f: "heap_free h = b # xs" and s: "sorted_wrt (\<lambda>p q. bend p < bstart q) xs"
    and c: "compact (insert_block b xs) = (ys, n)"
  shows "tiled base (h\<lparr>heap_free := ys, heap_fresh := m\<rparr>)" and "sorted_wrt (\<lambda>p q. bend p < bstart q) ys"
    and "length ys + n = Suc (length xs)"
proof -
  let ?zs = "insert_block b xs"
  have blk: "z \<in> set (heap_free h) \<union> set (heap_used h)" if "z \<in> set ?zs" for z using that f by auto
  have bd: "bounded (b # xs)" using tiled_block(1,7) [OF t] f by (simp add: bounded_def)
  then have "bounded ?zs" by (simp add: bounded_def)
  moreover have "hits (b # xs) x \<le> 1" for x using tiled_hits [OF t, of x] f by (simp del: in_region hits_simps(2) split: if_splits)
  then have "ordered ?zs"
    using sorted_wrt_mono_rel [OF _ s, of "\<lambda>p q. bend p \<le> bstart q"] bd hits_disjoint [of b xs] by (intro insert_ordered) auto
  ultimately have co: "\<forall>x. hits ys x = hits ?zs x" "length ys + n = length ?zs" "sorted_wrt (\<lambda>p q. bend p < bstart q) ys"
    "\<forall>y \<in> set ys. \<exists>p \<in> set ?zs. \<exists>q \<in> set ?zs. bstart y = bstart p \<and> bend y = bend q \<and> bstart p \<le> bstart q"
    using compact_ok [of ?zs] c by simp_all
  have "b_size y \<noteq> 0 \<and> 8 dvd unat (b_size y) \<and> 8 dvd bstart y - base" if "y \<in> set ys" for y
  proof -
    from co(4) that obtain p q where pq: "p \<in> set ?zs" "q \<in> set ?zs" "bstart y = bstart p" "bend y = bend q" "bstart p \<le> bstart q" by blast
    note P = tiled_block [OF t blk [OF pq(1)]] and Q = tiled_block [OF t blk [OF pq(2)]]
    have "unat (b_size y) = (bstart q - base) + unat (b_size q) - (bstart p - base)" using pq(3-5) P(5) Q(5) by linarith
    then have "8 dvd unat (b_size y)" using P(3) Q(2,3) by (metis dvd_add dvd_diff_nat)
    moreover have "0 < unat (b_size y)" using pq(3-5) Q(4) by linarith
    ultimately show ?thesis using P(3) pq(3) by (auto simp: unat_gt_0)
  qed
  with t f co(1) show "tiled base (h\<lparr>heap_free := ys, heap_fresh := m\<rparr>)" by (auto simp: tiled_def simp del: in_region)
  show "sorted_wrt (\<lambda>p q. bend p < bstart q) ys" "length ys + n = Suc (length xs)" using co by simp_all
qed

lemma free_ok:
  assumes ok: "heap_ok base h" and u: "take_used p (heap_used h) = Some (b, us)"
  shows "fst (ta_free p h)" and "heap_ok base (snd (ta_free p h))" and "heap_used (snd (ta_free p h)) = us"
    and "heap_limit (snd (ta_free p h)) = heap_limit h"
proof -
  obtain ys n where c: "compact (insert_block b (heap_free h)) = (ys, n)" by (cases "compact (insert_block b (heap_free h))")
  let ?h = "h\<lparr>heap_used := us, heap_free := b # heap_free h\<rparr>"
  have t: "tiled base ?h"
    by (rule tiled_move [of base h]) (use ok take_used_Some [OF u] in \<open>simp_all add: heap_ok_def del: in_region\<close>)
  have s: "sorted_wrt (\<lambda>p q. bend p < bstart q) (heap_free h)" using ok by (simp add: heap_ok_def)
  note st = settle_ok [OF t _ s c, simplified]
  have e: "ta_free p h = (True, ?h\<lparr>heap_free := ys, heap_fresh := heap_fresh h + n\<rparr>)" using u c by (simp add: ta_free_def)
  show "fst (ta_free p h)" "heap_used (snd (ta_free p h)) = us" "heap_limit (snd (ta_free p h)) = heap_limit h" using e by simp_all
  have "length (heap_used h) = Suc (length us)" using take_used_Some [OF u] by blast
  with ok st show "heap_ok base (snd (ta_free p h))"
    unfolding e by (simp add: heap_ok_def ta_check_def ta_num_free_def ta_num_used_def ta_num_fresh_def)
qed

section \<open>Allocation\<close>

lemma and_not_mask: "unat ((x :: u32) AND NOT (mask n)) = unat x div 2 ^ n * 2 ^ n"
proof -
  have "x AND NOT (mask n) = push_bit n (drop_bit n x)"
    by (rule bit_word_eqI) (auto simp: bit_simps not_less le_add_diff_inverse)
  moreover have "unat (push_bit n (drop_bit n x)) = (unat x div 2 ^ n * 2 ^ n) mod 2 ^ 32"
    using unat_lt32 [of x] unfolding unsigned_push_bit_eq unsigned_drop_bit_eq by (simp add: take_bit_eq_mod push_bit_eq_mult drop_bit_eq_div)
  moreover have "unat x div 2 ^ n * 2 ^ n < 2 ^ 32"
    using unat_lt32 [of x] div_times_less_eq_dividend [of "unat x" "2 ^ n"] by linarith
  ultimately show ?thesis by simp
qed

lemma and_minus_8: "unat ((x :: u32) AND - 8) = unat x div 8 * 8"
  using and_not_mask [of x 3] by (simp add: mask_eq_exp_minus_1)

lemma and_minus_4: "unat ((x :: u32) AND - 4) = unat x div 4 * 4"
  using and_not_mask [of x 2] by (simp add: mask_eq_exp_minus_1)

text \<open>The size that a request is rounded up to.\<close>

definition rounded :: "u32 \<Rightarrow> u32" where
  "rounded req = (req + 8 - 1) AND (- 8)"

lemma rounded_eq: "7 + req AND - 8 = rounded req"
  by (simp add: rounded_def)

lemma rounded_ok:
  assumes "unat req + 7 < 2 ^ 32" "req \<noteq> 0"
  shows "unat req \<le> unat (rounded req)" and "8 dvd unat (rounded req)" and "0 < unat (rounded req)"
    and "unat (rounded req) \<le> unat req + 7" and "rounded req \<noteq> 0"
proof -
  have "unat (req + 7) = unat req + 7" using assms(1) by (subst unat_add_lem [THEN iffD1]) simp_all
  then have e: "unat (rounded req) = (unat req + 7) div 8 * 8" using and_minus_8 [of "req + 7"] by (simp add: rounded_def add.commute)
  have "(unat req + 7) div 8 * 8 + (unat req + 7) mod 8 = unat req + 7" by simp
  moreover have "(unat req + 7) mod 8 < 8" by simp
  ultimately show "unat req \<le> unat (rounded req)" "unat (rounded req) \<le> unat req + 7" unfolding e by linarith+
  moreover have "0 < unat req" using assms(2) by (simp add: unat_gt_0)
  ultimately show "0 < unat (rounded req)" by linarith
  then show "rounded req \<noteq> 0" by auto
  show "8 dvd unat (rounded req)" unfolding e by simp
qed

lemma unat_add32: "unat (x :: u32) + unat y < 2 ^ 32 \<Longrightarrow> unat (x + y) = unat x + unat y"
  by (subst unat_add_lem [THEN iffD1]) simp_all

text \<open>The free block at the top is resized.\<close>

lemma tiled_top:
  assumes t: "tiled base h" and f: "\<And>x. hits (heap_free h) x = hits (p # r) x" "set (heap_free h) = insert p (set r)"
    and top: "heap_top h \<le> b_addr p + b_size p" and lim: "b_addr p + num \<le> heap_limit h"
    and num: "8 dvd unat num" "0 < unat num" "unat num + unat (heap_limit h) < 2 ^ 32"
  shows "tiled base (h\<lparr>heap_free := r, heap_used := p\<lparr>b_size := num\<rparr> # heap_used h, heap_top := b_addr p + num\<rparr>)"
    (is "tiled base ?h")
proof -
  have pf: "p \<in> set (heap_free h) \<union> set (heap_used h)" using f(2) by simp
  note P = tiled_block [OF t pf]
  have be: "bend p = unat (heap_top h)" using top P(6,7) bend_eq [OF P(7)] by (simp add: word_le_nat_alt)
  have tl: "unat (heap_top h) \<le> unat (heap_limit h)" using t by (simp add: tiled_def word_le_nat_alt)
  have nt: "unat (b_addr p + num) = bstart p + unat num" using num(3) be tl by (intro unat_add32) linarith
  have "hits (heap_free ?h) x + hits (heap_used ?h) x = (if base \<le> x \<and> x < bstart p + unat num then 1 else 0)" for x
    using tiled_hits [OF t, of x] unfolding f(1) using be P(5) num(2) by (auto split: if_splits)
  moreover have "8 dvd bstart p + unat num - base" using P(3,5) num(1) by (metis Nat.add_diff_assoc2 dvd_add)
  ultimately show ?thesis
    using t f(2) P num lim nt unfolding tiled_def by auto
qed

text \<open>A free block is split.\<close>

lemma tiled_split:
  assumes t: "tiled base h" and f: "\<And>x. hits (heap_free h) x = hits (p # r) x" "set (heap_free h) = insert p (set r)"
    and num: "8 dvd unat num" "0 < unat num" "num < b_size p"
  shows "tiled base (h\<lparr>heap_free := \<lparr>b_addr = b_addr p + num, b_size = b_size p - num\<rparr> # r, heap_used := p\<lparr>b_size := num\<rparr> # heap_used h\<rparr>)"
    (is "tiled base ?h")
proof -
  have pf: "p \<in> set (heap_free h) \<union> set (heap_used h)" using f(2) by simp
  note P = tiled_block [OF t pf]
  have lt: "unat num < unat (b_size p)" using num(3) by (simp add: word_less_nat_alt)
  have u: "unat (b_addr p + num) = bstart p + unat num" using P(7) lt by (intro unat_add32) linarith
  have d: "unat (b_size p - num) = unat (b_size p) - unat num" using num(3) by (simp add: unat_sub)
  have "hits (heap_free ?h) x + hits (heap_used ?h) x = (if base \<le> x \<and> x < unat (heap_top h) then 1 else 0)" for x
    using tiled_hits [OF t, of x] lt unfolding f(1) by (auto simp: u d split: if_splits)
  moreover have "8 dvd unat (b_size p) - unat num" using P(2) num(1) by (simp add: dvd_diff_nat)
  moreover have "8 dvd bstart p + unat num - base" using P(3,5) num(1) by (metis Nat.add_diff_assoc2 dvd_add)
  moreover have "b_size p - num \<noteq> 0" "num \<noteq> 0" using lt num(2) by auto
  ultimately show ?thesis using t f(2) P num(1) u d unfolding tiled_def by auto
qed

text \<open>A new block above the top.\<close>

lemma tiled_new:
  assumes t: "tiled base h" and lim: "heap_top h + num \<le> heap_limit h"
    and num: "8 dvd unat num" "0 < unat num" "unat num + unat (heap_limit h) < 2 ^ 32"
  shows "tiled base (h\<lparr>heap_used := \<lparr>b_addr = heap_top h, b_size = num\<rparr> # heap_used h, heap_fresh := m, heap_top := heap_top h + num\<rparr>)"
    (is "tiled base ?h")
proof -
  have T: "base \<le> unat (heap_top h)" "unat (heap_top h) \<le> unat (heap_limit h)" "8 dvd unat (heap_top h) - base"
    using t by (simp_all add: tiled_def word_le_nat_alt)
  have nt: "unat (heap_top h + num) = unat (heap_top h) + unat num" using num(3) T(2) by (intro unat_add32) linarith
  have "hits (heap_free ?h) x + hits (heap_used ?h) x = (if base \<le> x \<and> x < unat (heap_top h) + unat num then 1 else 0)" for x
    using tiled_hits [OF t, of x] T(1) num(2) by (simp split: if_splits)
  moreover have "8 dvd unat (heap_top h) + unat num - base" using T num(1) by (metis Nat.add_diff_assoc2 dvd_add)
  moreover have "num \<noteq> 0" using num(2) by auto
  ultimately show ?thesis using t T num lim nt unfolding tiled_def by auto
qed

text \<open>Every way to allocate keeps the invariant.\<close>

definition allocates :: "nat \<Rightarrow> tinyalloc_t \<Rightarrow> u32 \<Rightarrow> block_t option \<times> tinyalloc_t \<Rightarrow> bool" where
  "allocates base h req r \<longleftrightarrow>
     (case r of
        (Some b, h') \<Rightarrow> heap_ok base h' \<and> heap_used h' = b # heap_used h \<and> heap_limit h' = heap_limit h \<and> unat req \<le> unat (b_size b)
      | (None, h') \<Rightarrow> h' = h)"

lemmas count_defs = ta_check_def ta_num_free_def ta_num_used_def ta_num_fresh_def

lemma alloc_new:
  assumes ok: "heap_ok base h" and req: "req \<noteq> 0" "unat req + 7 + unat (heap_limit h) < 2 ^ 32"
    and f: "free_fit (rounded req) h (heap_free h) = None"
  shows "allocates base h req (alloc_block req h)"
proof -
  have "unat req + 7 < 2 ^ 32" using req(2) by linarith
  note num = rounded_ok [OF this req(1)]
  have al: "heap_alignment h = 8" and t: "tiled base h" using ok by (simp_all add: heap_ok_def)
  have n: "unat (rounded req) + unat (heap_limit h) < 2 ^ 32" using num(4) req(2) by linarith
  show ?thesis
  proof (cases "heap_fresh h \<noteq> 0 \<and> heap_top h + rounded req \<le> heap_limit h")
    case True
    with tiled_new [OF t _ num(2,3) n, of "heap_fresh h - 1"] ok num(1) f al show ?thesis
      by (simp add: allocates_def alloc_block_def rounded_eq Let_def heap_ok_def count_defs)
  next
    case False
    with f al show ?thesis by (auto simp: allocates_def alloc_block_def rounded_eq Let_def)
  qed
qed

lemma alloc_top:
  assumes ok: "heap_ok base h" and req: "req \<noteq> 0" "unat req + 7 + unat (heap_limit h) < 2 ^ 32"
    and f: "free_fit (rounded req) h (heap_free h) = Some (p, True, r)"
  shows "allocates base h req (alloc_block req h)"
proof -
  have "unat req + 7 < 2 ^ 32" using req(2) by linarith
  note num = rounded_ok [OF this req(1)] and F = free_fit_Some [OF f]
  have al: "heap_alignment h = 8" and t: "tiled base h" using ok by (simp_all add: heap_ok_def)
  have n: "unat (rounded req) + unat (heap_limit h) < 2 ^ 32" using num(4) req(2) by linarith
  have "heap_top h \<le> b_addr p + b_size p" "b_addr p + rounded req \<le> heap_limit h" using F(6) by simp_all
  note tt = tiled_top [OF t F(2) F(3) this num(2,3) n]
  with ok num(1) f al F(4,5) show ?thesis
    by (simp add: allocates_def alloc_block_def rounded_eq Let_def heap_ok_def count_defs)
qed

lemma alloc_split:
  assumes ok: "heap_ok base h" and req: "req \<noteq> 0" "unat req + 7 + unat (heap_limit h) < 2 ^ 32"
    and f: "free_fit (rounded req) h (heap_free h) = Some (p, False, r)"
    and sp: "heap_fresh h \<noteq> 0" "b_size p - rounded req \<ge> heap_split_thresh h"
  shows "allocates base h req (alloc_block req h)"
proof -
  have "unat req + 7 < 2 ^ 32" using req(2) by linarith
  note num = rounded_ok [OF this req(1)] and F = free_fit_Some [OF f]
  have al: "heap_alignment h = 8" "0 < heap_split_thresh h" and t: "tiled base h"
    and s: "sorted_wrt (\<lambda>p q. bend p < bstart q) (heap_free h)" using ok by (simp_all add: heap_ok_def)
  have "b_size p \<noteq> rounded req" using sp(2) al(2) by auto
  moreover have "rounded req \<le> b_size p" using F(7) by simp
  ultimately have lt: "rounded req < b_size p" by simp
  let ?b = "\<lparr>b_addr = b_addr p + rounded req, b_size = b_size p - rounded req\<rparr>"
  obtain ys n where c: "compact (insert_block ?b r) = (ys, n)" by (cases "compact (insert_block ?b r)")
  note st = settle_ok [OF tiled_split [OF t F(2) F(3) num(2,3) lt] _ F(5) [OF s] c, simplified]
  have e: "alloc_block req h = (Some (p\<lparr>b_size := rounded req\<rparr>), h\<lparr>heap_free := ys, heap_used := p\<lparr>b_size := rounded req\<rparr> # heap_used h,
      heap_fresh := heap_fresh h - 1 + n\<rparr>)"
    using f c sp al by (simp add: alloc_block_def rounded_eq Let_def)
  have "tiled base (snd (alloc_block req h))" unfolding e using st(1) by (simp add: tiled_def)
  then show ?thesis unfolding e using ok num(1) F(4) sp(1) st(2,3) by (simp add: allocates_def heap_ok_def count_defs)
qed

lemma alloc_whole:
  assumes ok: "heap_ok base h" and req: "req \<noteq> 0" "unat req + 7 + unat (heap_limit h) < 2 ^ 32"
    and f: "free_fit (rounded req) h (heap_free h) = Some (p, False, r)"
    and sp: "\<not> (heap_fresh h \<noteq> 0 \<and> b_size p - rounded req \<ge> heap_split_thresh h)"
  shows "allocates base h req (alloc_block req h)"
proof -
  have "unat req + 7 < 2 ^ 32" using req(2) by linarith
  note num = rounded_ok [OF this req(1)] and F = free_fit_Some [OF f]
  have al: "heap_alignment h = 8" and t: "tiled base h" using ok by (simp_all add: heap_ok_def)
  have e: "alloc_block req h = (Some p, h\<lparr>heap_free := r, heap_used := p # heap_used h\<rparr>)"
    using f sp al by (auto simp: alloc_block_def rounded_eq Let_def)
  have "tiled base (h\<lparr>heap_free := r, heap_used := p # heap_used h\<rparr>)"
    by (rule tiled_move [OF t]) (simp_all add: F(2,3) del: in_region)
  moreover have "unat req \<le> unat (b_size p)" using F(7) num(1) by (simp add: word_le_nat_alt)
  ultimately show ?thesis unfolding e using ok F(4,5) by (simp add: allocates_def heap_ok_def count_defs)
qed

lemma alloc_ok:
  assumes "heap_ok base h" "req \<noteq> 0" "unat req + 7 + unat (heap_limit h) < 2 ^ 32"
  shows "allocates base h req (alloc_block req h)"
proof (cases "free_fit (rounded req) h (heap_free h)")
  case None
  then show ?thesis using alloc_new [OF assms] by simp
next
  case (Some x)
  obtain p t r where x: "x = (p, t, r)" by (cases x)
  note f = Some [unfolded x]
  show ?thesis
    using f alloc_top [OF assms, of p r] alloc_split [OF assms, of p r] alloc_whole [OF assms, of p r] by (cases t) auto
qed

section \<open>Clearing memory\<close>

lemma unat_dec: "(y :: u32) \<noteq> 0 \<Longrightarrow> unat (y - 1) = unat y - 1"
  by (simp add: unat_minus_one)

lemma clear_bytes_eq: "clear_bytes n p m x = (if unat (x - p) < n then 0 else m x)"
proof (induction n arbitrary: p m)
  case (Suc n)
  have "unat (x - p - 1) = unat (x - p) - 1" if "x \<noteq> p" using unat_dec [of "x - p"] that by simp
  moreover have "0 < unat (x - p)" if "x \<noteq> p" using that by (simp add: unat_gt_0)
  ultimately show ?case unfolding clear_bytes.simps Suc by (cases "x = p") (auto simp: diff_diff_eq)
qed simp

lemma clear_bytes_add: "clear_bytes (a + b) p m = clear_bytes b (p + of_nat a) (clear_bytes a p m)"
  by (induction a arbitrary: p m) (simp_all add: add.assoc)

lemma clear_words_eq: "clear_words n p m = clear_bytes (4 * n) p m"
proof (induction n arbitrary: p m)
  case (Suc n)
  have "4 * Suc n = 4 + 4 * n" by simp
  then show ?case by (simp only: clear_bytes_add) (simp add: Suc numeral_eq_Suc add.assoc fun_upd_def)
qed simp

text \<open>\<^verbatim>\<open>memclear\<close>, which stores words and then bytes, sets exactly the \<open>num\<close> bytes from \<open>ptr\<close> on to zero, for every
  pointer and length (addresses wrap around), and keeps the rest of the memory.\<close>

theorem memclear_exact: "memclear ptr num m = (\<lambda>x. if x - ptr < num then 0 else m x)"
proof
  fix x
  have m3: "num AND 3 = take_bit 2 num" by (simp add: take_bit_eq_mask mask_eq_exp_minus_1)
  have w: "unat ((num AND - 4) div 4) = unat num div 4" by (simp add: unat_div and_minus_4)
  have b: "unat (num AND 3) = unat num mod 4" unfolding m3 unsigned_take_bit_eq by (simp add: take_bit_eq_mod)
  have o: "(of_nat (4 * (unat num div 4)) :: u32) = 4 * ((num AND - 4) div 4)" unfolding w [symmetric] by simp
  have "memclear ptr num m = clear_bytes (4 * (unat num div 4) + unat num mod 4) ptr m"
    unfolding memclear_def Let_def b w clear_words_eq clear_bytes_add o ..
  then show "memclear ptr num m x = (if x - ptr < num then 0 else m x)" by (simp add: clear_bytes_eq word_less_nat_alt)
qed

section \<open>What callers rely on\<close>

lemma ta_alloc_ok:
  assumes "heap_ok base h" "req \<noteq> 0" "unat req + 7 + unat (heap_limit h) < 2 ^ 32" "ta_alloc req h = (p, h')"
  shows "heap_ok base h'" and "heap_limit h' = heap_limit h" and "p = 0 \<Longrightarrow> h' = h"
    and "p \<noteq> 0 \<Longrightarrow> \<exists>b. heap_used h' = b # heap_used h \<and> b_addr b = p \<and> unat req \<le> unat (b_size b)"
proof -
  obtain r h'' where a: "alloc_block req h = (r, h'')" by (cases "alloc_block req h")
  note al = alloc_ok [OF assms(1-3), unfolded a]
  have "heap_ok base h' \<and> heap_limit h' = heap_limit h \<and> (p = 0 \<longrightarrow> h' = h)
    \<and> (p \<noteq> 0 \<longrightarrow> (\<exists>b. heap_used h' = b # heap_used h \<and> b_addr b = p \<and> unat req \<le> unat (b_size b)))"
  proof (cases r)
    case None
    then show ?thesis using al a assms(1,4) by (simp add: allocates_def ta_alloc_def)
  next
    case (Some b)
    with al a assms(4) have h': "heap_ok base h'" "heap_used h' = b # heap_used h" "heap_limit h' = heap_limit h"
      "unat req \<le> unat (b_size b)" "b_addr b = p" by (simp_all add: allocates_def ta_alloc_def)
    have t: "tiled base h'" using h'(1) by (simp add: heap_ok_def)
    then have "base \<le> bstart b" using tiled_block(5) [OF t, of b] h'(2) by simp
    moreover have "0 < base" using t by (simp add: tiled_def)
    ultimately have "p \<noteq> 0" using h'(5) by auto
    with h' show ?thesis by simp
  qed
  then show "heap_ok base h'" "heap_limit h' = heap_limit h" "p = 0 \<Longrightarrow> h' = h"
    "p \<noteq> 0 \<Longrightarrow> \<exists>b. heap_used h' = b # heap_used h \<and> b_addr b = p \<and> unat req \<le> unat (b_size b)" by simp_all
qed

lemma ta_free_ok:
  assumes "heap_ok base h"
  shows "heap_ok base (snd (ta_free p h))" and "heap_limit (snd (ta_free p h)) = heap_limit h"
proof -
  have "heap_ok base (snd (ta_free p h)) \<and> heap_limit (snd (ta_free p h)) = heap_limit h"
  proof (cases "take_used p (heap_used h)")
    case None
    with assms show ?thesis by (simp add: ta_free_def)
  next
    case (Some x)
    then show ?thesis using free_ok [OF assms, of p "fst x" "snd x"] by simp
  qed
  then show "heap_ok base (snd (ta_free p h))" "heap_limit (snd (ta_free p h)) = heap_limit h" by simp_all
qed

lemma init_ok:
  assumes "unat base + 16 + 12 * blocks \<le> unat limit" "0 < thresh" "blocks < 2 ^ 20"
  shows "heap_ok (unat base + 16 + 12 * blocks) (ta_init base limit blocks thresh 8)"
    and "unat (heap_top (ta_init base limit blocks thresh 8)) = unat base + 16 + 12 * blocks"
proof -
  have l: "unat base + 16 + 12 * blocks < 2 ^ 32" using assms(1) unat_lt32 [of limit] by linarith
  have "base + 16 + of_nat blocks * 12 = (of_nat (unat base + 16 + 12 * blocks) :: u32)" by simp
  then have u: "unat (base + 16 + of_nat blocks * 12) = unat base + 16 + 12 * blocks"
    using l by (simp only: unat_of_nat) simp
  then show "unat (heap_top (ta_init base limit blocks thresh 8)) = unat base + 16 + 12 * blocks" by (simp add: ta_init_def)
  show "heap_ok (unat base + 16 + 12 * blocks) (ta_init base limit blocks thresh 8)"
    using u assms by (simp add: heap_ok_def tiled_def ta_init_def count_defs word_le_nat_alt)
qed

text \<open>A heap with one block of 104 bytes in use.\<close>

definition demo_heap :: tinyalloc_t where
  "demo_heap = snd (ta_alloc 100 (ta_init 0x20010000 0x20030000 256 16 8))"

lemma demo_heap_eq:
  "demo_heap = \<lparr>heap_free = [], heap_used = [\<lparr>b_addr = 0x20010C10, b_size = 104\<rparr>], heap_fresh = 255, heap_top = 0x20010C78,
      heap_limit = 0x20030000, heap_split_thresh = 16, heap_alignment = 8, heap_max_blocks = 256\<rparr>"
  by (simp add: demo_heap_def ta_init_def ta_alloc_def alloc_block_def Let_def)

lemma demo_heap_ok: "heap_ok 0x20010C10 demo_heap"
proof -
  obtain p h where a: "ta_alloc 100 (ta_init 0x20010000 0x20030000 256 16 8) = (p, h)" by (rule prod.exhaust)
  have "heap_ok 0x20010C10 (ta_init 0x20010000 0x20030000 256 16 8)" using init_ok(1) [of "0x20010000" 256 "0x20030000" 16] by simp
  from ta_alloc_ok(1) [OF this _ _ a] a show ?thesis by (simp add: demo_heap_def ta_init_def)
qed

text \<open>A heap without used blocks is one free block, up to the top.\<close>

lemma free_single:
  assumes t: "tiled base h" and s: "sorted_wrt (\<lambda>p q. bend p < bstart q) (heap_free h)"
    and u: "heap_used h = []" and f: "heap_free h = b # bs"
  shows "bs = []" and "bstart b = base" and "bend b = unat (heap_top h)"
proof -
  have hit: "hits (heap_free h) x = (if base \<le> x \<and> x < unat (heap_top h) then 1 else 0)" for x
    using tiled_hits [OF t, of x] u by simp
  have B: "base \<le> bstart b" "bend b \<le> unat (heap_top h)" "0 < unat (b_size b)" using tiled_block [OF t, of b] f by simp_all
  show bs: "bs = []"
  proof (rule ccontr)
    assume "bs \<noteq> []"
    then obtain c cs where c: "bs = c # cs" by (cases bs) auto
    have r: "\<forall>q \<in> set bs. bend b < bstart q" using s unfolding f by simp
    have "bend c \<le> unat (heap_top h)" using tiled_block(6) [OF t, of c] f c by simp
    moreover have "bend b < bstart c" using r c by simp
    ultimately have "bend b < unat (heap_top h)" by linarith
    moreover have "base \<le> bend b" using B(1) by linarith
    ultimately have "hits (heap_free h) (bend b) = 1" using hit [of "bend b"] by simp
    moreover have "bend b \<notin> region q" if "q \<in> set bs" for q using r that by fastforce
    then have "hits bs (bend b) = 0" unfolding hits_def by simp
    ultimately show False unfolding f by simp
  qed
  have top: "base < unat (heap_top h)" using B by linarith
  then have "hits [b] base = 1" using hit [of base] unfolding f bs by simp
  then show "bstart b = base" using B(1) by (simp split: if_splits)
  obtain y where y: "unat (heap_top h) = Suc y" using top by (cases "unat (heap_top h)") auto
  have "hits [b] y = 1" using hit [of y] top unfolding f bs y by (simp del: in_region)
  then have "y < bend b" by (simp split: if_splits)
  then show "bend b = unat (heap_top h)" using B(2) unfolding y by linarith
qed




section \<open>Requests that are not handled\<close>

text \<open>C39: A request that overflows the address space is not refused: \<open>top + num\<close> wraps around below the limit. After a
  request for 0xFFFFFFF8 bytes, which succeeds, the next request for 8 bytes returns memory inside the block \<open>b\<close>
  that is in use.\<close>

theorem huge_request_overlaps:
  assumes "heap_ok base h" "heap_free h = []" "heap_used h = b # us" "bend b = unat (heap_top h)" "2 \<le> heap_fresh h"
    and "ta_alloc 0xFFFFFFF8 h = (p, h1)" "ta_alloc 8 h1 = (q, h2)"
  shows "p \<noteq> 0 \<and> q \<noteq> 0 \<and> (\<exists>c d. heap_used h2 = c # d # b # us \<and> b_addr c = q \<and> region c \<noteq> {} \<and> region c \<subseteq> region b)"
proof -
  have al: "heap_alignment h = 8" and t: "tiled base h" using assms(1) by (simp_all add: heap_ok_def)
  have B: "8 dvd unat (b_size b)" "0 < unat (b_size b)" "base \<le> bstart b" using tiled_block [OF t, of b] assms(3) by simp_all
  have top: "8 \<le> unat (heap_top h)" "base \<le> unat (heap_top h)" "0 < base" "heap_top h \<le> heap_limit h"
    using dvd_imp_le [OF B(1,2)] assms(4) t by (simp_all add: tiled_def)
  have u: "unat (heap_top h - 8) = unat (heap_top h) - 8" using top(1) by (simp add: unat_sub word_le_nat_alt)
  then have le: "heap_top h - 8 \<le> heap_limit h" using top(4) by (simp add: word_le_nat_alt)
  define d where "d = \<lparr>b_addr = heap_top h, b_size = 0xFFFFFFF8 :: u32\<rparr>"
  have "(0xFFFFFFF8 :: u32) = - 8" by simp
  then have e: "heap_top h + 0xFFFFFFF8 = heap_top h - 8" by (simp only: add_uminus_conv_diff)
  have h1: "p = heap_top h" "h1 = h\<lparr>heap_used := d # heap_used h, heap_fresh := heap_fresh h - 1, heap_top := heap_top h - 8\<rparr>"
    using assms(2,5,6) al le by (auto simp: ta_alloc_def alloc_block_def Let_def d_def e)
  define c where "c = \<lparr>b_addr = heap_top h - 8, b_size = 8 :: u32\<rparr>"
  have h2: "q = heap_top h - 8" "heap_used h2 = c # d # heap_used h"
    using assms(2,5,7) al top(4) by (auto simp: h1 ta_alloc_def alloc_block_def Let_def c_def)
  have "bstart c = unat (heap_top h) - 8" "unat (b_size c) = 8" by (simp_all add: c_def u)
  then have "region c \<subseteq> region b" "region c \<noteq> {}"
    using dvd_imp_le [OF B(1,2)] assms(4) top(1) by (auto simp: region_def)
  moreover have "8 \<le> unat (b_size b)" using dvd_imp_le [OF B(1,2)] .
  then have "unat q \<noteq> 0" "unat p \<noteq> 0" using top B assms(4) u by (simp_all add: h1 h2)
  then have "q \<noteq> 0" "p \<noteq> 0" by auto
  ultimately show ?thesis using h2 assms(3) by (auto simp: c_def)
qed

theorem huge_request_overlaps_witness:
  "\<exists>p h1 q h2. ta_alloc 0xFFFFFFF8 demo_heap = (p, h1) \<and> ta_alloc 8 h1 = (q, h2)
     \<and> (\<exists>c d. heap_used h2 = [c, d, \<lparr>b_addr = 0x20010C10, b_size = 104\<rparr>] \<and> region c \<noteq> {}
         \<and> region c \<subseteq> region \<lparr>b_addr = 0x20010C10, b_size = 104\<rparr>)"
proof -
  obtain p h1 where a: "ta_alloc 0xFFFFFFF8 demo_heap = (p, h1)" by (rule prod.exhaust)
  obtain q h2 where b: "ta_alloc 8 h1 = (q, h2)" by (rule prod.exhaust)
  have "heap_free demo_heap = []" "heap_used demo_heap = [\<lparr>b_addr = 0x20010C10, b_size = 104\<rparr>]"
    "bend \<lparr>b_addr = 0x20010C10, b_size = 104\<rparr> = unat (heap_top demo_heap)" "2 \<le> heap_fresh demo_heap"
    by (simp_all add: demo_heap_eq)
  from huge_request_overlaps [OF demo_heap_ok this a b] a b show ?thesis by blast
qed

text \<open>A request for no bytes returns the address that the next request returns too.\<close>

lemma zero_request_aliases:
  assumes "heap_alignment h = 8" "heap_free h = []" "2 \<le> heap_fresh h" "heap_top h + 8 \<le> heap_limit h" "heap_top h \<le> heap_limit h"
    and "ta_alloc 0 h = (p, h1)" "ta_alloc 8 h1 = (q, h2)"
  shows "p = q" and "map b_addr (heap_used h2) = p # p # map b_addr (heap_used h)"
  using assms by (auto simp: ta_alloc_def alloc_block_def Let_def)

end
