(* ===== verification/Memory_Server.thy ===== *)
theory Memory_Server
  imports Tinyalloc
begin

text \<open>
  The memory service (\<^verbatim>\<open>service/memory/mem_serv.c\<close>) and its client (\<^verbatim>\<open>service/memory/mem_client.c\<close>). The server takes
  the lower part of the memory after the program for its own heap, and leaves the upper part to the C library, which
  gets it through \<^verbatim>\<open>_sbrk\<close>. It is shown that the two parts never overlap and that the blocks handed out to clients
  are disjoint, as long as the requests are neither empty nor overflow the address space.
\<close>

section \<open>The server\<close>

record mem_msg_t =
  mm_cmd :: u32
  mm_size :: u32
  mm_ptr :: u32
  mm_code :: u32

text \<open>The variables of the server; \<open>mem_end\<close> and \<open>libc_limit\<close> are the symbols \<^verbatim>\<open>__end__\<close> and \<^verbatim>\<open>__StackLimit\<close> of the linker.\<close>

record mem_serv_t =
  mem_end :: u32
  heap_end :: u32
  libc_limit :: u32
  tinyalloc :: tinyalloc_t

definition MEMORY_SUCCESS :: u32 where "MEMORY_SUCCESS = 0"
definition MEMORY_INVALID_OP :: u32 where "MEMORY_INVALID_OP = 1"
definition MEMORY_MALLOC :: u32 where "MEMORY_MALLOC = 1"
definition MEMORY_FREE :: u32 where "MEMORY_FREE = 2"

lemmas mem_codes = MEMORY_SUCCESS_def MEMORY_INVALID_OP_def MEMORY_MALLOC_def MEMORY_FREE_def

definition sbrk :: "u32 \<Rightarrow> mem_serv_t \<Rightarrow> u32 \<times> mem_serv_t" where
  "sbrk increment s =
     (let new_heap_end = heap_end s + increment
      in if new_heap_end > libc_limit s then (- 1, s) else (heap_end s, s\<lparr>heap_end := new_heap_end\<rparr>))"

definition memory_service_heap_limit :: "mem_serv_t \<Rightarrow> u32" where
  "memory_service_heap_limit s =
     (let limit = libc_limit s;
          heap_bytes = limit - heap_end s;
          libc_reserve = (if heap_bytes \<le> 0x10000 * 2 then heap_bytes div 4 else 0x10000)
      in if libc_reserve = 0 \<or> libc_reserve \<ge> heap_bytes then limit else limit - libc_reserve)"

text \<open>\<^verbatim>\<open>do_memory_server\<close> up to its loop, and one round of the loop.\<close>

definition mem_server_start :: "mem_serv_t \<Rightarrow> mem_serv_t" where
  "mem_server_start s =
     (let service_heap_limit = memory_service_heap_limit s
      in s\<lparr>tinyalloc := ta_init (heap_end s) service_heap_limit 256 16 8, heap_end := service_heap_limit\<rparr>)"

definition mem_server_request :: "mem_msg_t \<Rightarrow> mem_serv_t \<Rightarrow> mem_msg_t \<times> mem_serv_t" where
  "mem_server_request m s =
     (if mm_cmd m = MEMORY_MALLOC then
        let (ptr, ta) = ta_alloc (mm_size m) (tinyalloc s)
        in (m\<lparr>mm_ptr := ptr, mm_code := if ptr = 0 then ENOMEM else MEMORY_SUCCESS\<rparr>, s\<lparr>tinyalloc := ta\<rparr>)
      else if mm_cmd m = MEMORY_FREE then
        let (_, ta) = ta_free (mm_ptr m) (tinyalloc s)
        in (m\<lparr>mm_ptr := 0, mm_code := MEMORY_SUCCESS\<rparr>, s\<lparr>tinyalloc := ta\<rparr>)
      else (m\<lparr>mm_ptr := 0, mm_size := 0, mm_code := MEMORY_INVALID_OP\<rparr>, s))"

text \<open>The program is loaded below \<^verbatim>\<open>__end__\<close>, and the addresses of the memory are below 0x80000000.\<close>

definition mem_boot :: "mem_serv_t \<Rightarrow> bool" where
  "mem_boot s0 \<longleftrightarrow> heap_end s0 = mem_end s0 \<and> libc_limit s0 < 0x80000000 \<and> unat (mem_end s0) + 0x1100 \<le> unat (libc_limit s0)"

text \<open>Requests that the allocator handles.\<close>

definition mem_msg_ok :: "mem_serv_t \<Rightarrow> mem_msg_t \<Rightarrow> bool" where
  "mem_msg_ok s m \<longleftrightarrow> (mm_cmd m = MEMORY_MALLOC \<longrightarrow> mm_size m \<noteq> 0 \<and> mm_size m < 0x7FFFFFF0)"

text \<open>Requests of clients and, in between, calls of \<^verbatim>\<open>_sbrk\<close> by the C library that do not give memory back.\<close>

inductive mem_step :: "mem_serv_t \<Rightarrow> mem_serv_t \<Rightarrow> bool" where
  mem_request: "mem_msg_ok s m \<Longrightarrow> mem_step s (snd (mem_server_request m s))"
| mem_sbrk: "increment < 0x80000000 \<Longrightarrow> mem_step s (snd (sbrk increment s))"

section \<open>The client\<close>

record mem_client_t =
  memory_service_id :: u32
  memory_vid :: u32

text \<open>\<open>resolve\<close> is the lookup of the service by its name: the result, the id of the service and its thread.\<close>

definition ensure_memory_vid :: "(u32 \<Rightarrow> int \<times> u32 \<times> u32) \<Rightarrow> mem_client_t \<Rightarrow> (int \<times> u32) \<times> mem_client_t" where
  "ensure_memory_vid resolve c =
     (if memory_vid c \<noteq> 0 then ((0, memory_vid c), c)
      else let (ret, sid, vid) = resolve (memory_service_id c);
               c' = c\<lparr>memory_service_id := sid\<rparr>
           in if ret = 0 then ((0, vid), c'\<lparr>memory_vid := vid\<rparr>) else ((ret, 0), c'))"

text \<open>\<open>call\<close> sends a message to a thread and returns the result of \<^verbatim>\<open>noza_call\<close> and the message as the receiver left it;
  \<open>malloc\<close> and \<open>free\<close> are those of the C library. They act on the rest of the system, \<open>w\<close>.\<close>

definition noza_malloc ::
    "(u32 \<Rightarrow> int \<times> u32 \<times> u32) \<Rightarrow> (u32 \<Rightarrow> mem_msg_t \<Rightarrow> 'w \<Rightarrow> (int \<times> mem_msg_t) \<times> 'w) \<Rightarrow> (u32 \<Rightarrow> 'w \<Rightarrow> u32 \<times> 'w)
     \<Rightarrow> u32 \<Rightarrow> mem_client_t \<Rightarrow> 'w \<Rightarrow> u32 \<times> mem_client_t \<times> 'w" where
  "noza_malloc resolve call malloc sz c w =
     (let ((ret, vid), c') = ensure_memory_vid resolve c
      in if ret \<noteq> 0 then (let (p, w') = malloc sz w in (p, c', w'))
         else let ((ret, msg), w') = call vid \<lparr>mm_cmd = MEMORY_MALLOC, mm_size = sz, mm_ptr = 0, mm_code = 0\<rparr> w
              in if ret \<noteq> 0 then (let (p, w'') = malloc sz w' in (p, c'\<lparr>memory_vid := 0\<rparr>, w''))
                 else if mm_code msg = MEMORY_SUCCESS then (mm_ptr msg, c', w')
                 else (0, c', w'))"

definition noza_free ::
    "(u32 \<Rightarrow> int \<times> u32 \<times> u32) \<Rightarrow> (u32 \<Rightarrow> mem_msg_t \<Rightarrow> 'w \<Rightarrow> (int \<times> mem_msg_t) \<times> 'w) \<Rightarrow> (u32 \<Rightarrow> 'w \<Rightarrow> 'w)
     \<Rightarrow> u32 \<Rightarrow> mem_client_t \<Rightarrow> 'w \<Rightarrow> mem_client_t \<times> 'w" where
  "noza_free resolve call free ptr c w =
     (let ((ret, vid), c') = ensure_memory_vid resolve c
      in if ret \<noteq> 0 then (c', free ptr w)
         else let ((ret, _), w') = call vid \<lparr>mm_cmd = MEMORY_FREE, mm_size = 0, mm_ptr = ptr, mm_code = 0\<rparr> w
              in if ret \<noteq> 0 then (c'\<lparr>memory_vid := 0\<rparr>, free ptr w') else (c', w'))"

section \<open>The invariant\<close>

definition mem_base :: "mem_serv_t \<Rightarrow> nat" where
  "mem_base s = unat (mem_end s) + 16 + 12 * 256"

definition mem_inv :: "mem_serv_t \<Rightarrow> bool" where
  "mem_inv s \<longleftrightarrow> heap_ok (mem_base s) (tinyalloc s) \<and> heap_limit (tinyalloc s) \<le> heap_end s \<and> heap_end s \<le> libc_limit s
     \<and> libc_limit s < 0x80000000"

lemma service_limit:
  assumes "heap_end s = mem_end s" "unat (mem_end s) + 0x1100 \<le> unat (libc_limit s)"
  shows "unat (mem_end s) + 16 + 12 * 256 \<le> unat (memory_service_heap_limit s)"
    and "memory_service_heap_limit s \<le> libc_limit s"
proof -
  let ?n = "libc_limit s - heap_end s"
  have n: "unat ?n = unat (libc_limit s) - unat (mem_end s)" using assms by (simp add: unat_sub word_le_nat_alt)
  define r where "r = (if ?n \<le> 0x10000 * 2 then ?n div 4 else 0x10000)"
  have r: "unat r = (if unat ?n \<le> 0x20000 then unat ?n div 4 else 0x10000)"
    by (simp add: r_def word_le_nat_alt unat_div)
  have "0x1100 \<le> unat ?n" using n assms(2) by linarith
  then have "unat ?n div 4 + 3088 \<le> unat ?n" using div_times_less_eq_dividend [of "unat ?n" 4] by linarith
  then have le: "unat r + 3088 \<le> unat ?n" unfolding r by simp
  have e: "memory_service_heap_limit s = (if r = 0 \<or> r \<ge> ?n then libc_limit s else libc_limit s - r)"
    by (simp add: memory_service_heap_limit_def Let_def r_def)
  have u: "unat (libc_limit s - r) = unat (libc_limit s) - unat r" using le n by (simp add: unat_sub word_le_nat_alt)
  have "unat (memory_service_heap_limit s) = unat (libc_limit s) \<or> unat (memory_service_heap_limit s) = unat (libc_limit s) - unat r"
    unfolding e using u by simp
  then show "unat (mem_end s) + 16 + 12 * 256 \<le> unat (memory_service_heap_limit s)" "memory_service_heap_limit s \<le> libc_limit s"
    unfolding word_le_nat_alt using le n assms(2) by linarith+
qed

lemma mem_start_inv: "mem_boot s0 \<Longrightarrow> mem_inv (mem_server_start s0)"
  using init_ok(1) [of "mem_end s0" 256 "memory_service_heap_limit s0" 16] service_limit [of s0]
  by (simp add: mem_boot_def mem_inv_def mem_server_start_def mem_base_def ta_init_def Let_def)

lemma request_inv:
  assumes "mem_inv s" "mem_msg_ok s m"
  shows "mem_inv (snd (mem_server_request m s))"
proof -
  have ok: "heap_ok (mem_base s) (tinyalloc s)" using assms(1) by (simp add: mem_inv_def)
  consider "mm_cmd m = MEMORY_MALLOC" | "mm_cmd m = MEMORY_FREE" | "mm_cmd m \<noteq> MEMORY_MALLOC" "mm_cmd m \<noteq> MEMORY_FREE" by blast
  then show ?thesis
  proof cases
    case 1
    obtain p ta where a: "ta_alloc (mm_size m) (tinyalloc s) = (p, ta)" by (cases "ta_alloc (mm_size m) (tinyalloc s)")
    have sz: "mm_size m \<noteq> 0" "unat (mm_size m) + 7 + unat (heap_limit (tinyalloc s)) < 2 ^ 32"
      using 1 assms by (simp_all add: mem_msg_ok_def mem_inv_def word_le_nat_alt word_less_nat_alt)
    show ?thesis using ta_alloc_ok [OF ok sz a] 1 a assms(1) by (simp add: mem_server_request_def mem_inv_def mem_base_def)
  next
    case 2
    obtain r ta where a: "ta_free (mm_ptr m) (tinyalloc s) = (r, ta)" by (cases "ta_free (mm_ptr m) (tinyalloc s)")
    show ?thesis using ta_free_ok [OF ok, of "mm_ptr m"] 2 a assms(1)
      by (simp add: mem_server_request_def mem_inv_def mem_base_def mem_codes)
  next
    case 3
    then show ?thesis using assms(1) by (simp add: mem_server_request_def)
  qed
qed

lemma sbrk_inv:
  assumes "mem_inv s" "increment < 0x80000000"
  shows "mem_inv (snd (sbrk increment s))"
proof -
  have "unat (heap_end s + increment) = unat (heap_end s) + unat increment"
    by (rule unat_add32) (use assms in \<open>simp add: mem_inv_def word_le_nat_alt word_less_nat_alt\<close>)
  then show ?thesis using assms by (auto simp: sbrk_def mem_inv_def mem_base_def Let_def word_le_nat_alt word_less_nat_alt)
qed

lemma mem_step_inv: "mem_step s s' \<Longrightarrow> mem_inv s \<Longrightarrow> mem_inv s'"
  by (induction rule: mem_step.induct) (simp_all add: request_inv sbrk_inv)

interpretation memory: invariant_system "\<lambda>s. \<exists>s0. mem_boot s0 \<and> s = mem_server_start s0" mem_step mem_inv
  by unfold_locales (auto intro: mem_start_inv mem_step_inv)

section \<open>What clients rely on\<close>

text \<open>The service of a program that ends at 0x20010000, with memory up to 0x20040000; before it starts, its heap is not
  initialised.\<close>

definition demo_boot :: mem_serv_t where
  "demo_boot = \<lparr>mem_end = 0x20010000, heap_end = 0x20010000, libc_limit = 0x20040000, tinyalloc = ta_init 0 0 0 0 0\<rparr>"

definition demo_mem :: mem_serv_t where
  "demo_mem = snd (mem_server_request \<lparr>mm_cmd = MEMORY_MALLOC, mm_size = 100, mm_ptr = 0, mm_code = 0\<rparr> (mem_server_start demo_boot))"

lemma demo_boot_ok: "mem_boot demo_boot"
  by (simp add: mem_boot_def demo_boot_def)

lemma demo_mem_reachable: "mem_step\<^sup>*\<^sup>* (mem_server_start demo_boot) demo_mem"
  unfolding demo_mem_def by (rule r_into_rtranclp, rule mem_request) (simp add: mem_msg_ok_def)

lemma demo_mem_inv: "mem_inv demo_mem"
  by (rule memory.reach_inv [OF _ demo_mem_reachable]) (use demo_boot_ok in auto)

lemma demo_mem_eq:
  "demo_mem = \<lparr>mem_end = 0x20010000, heap_end = 0x20030000, libc_limit = 0x20040000, tinyalloc =
     \<lparr>heap_free = [], heap_used = [\<lparr>b_addr = 0x20010C10, b_size = 104\<rparr>], heap_fresh = 255, heap_top = 0x20010C78,
      heap_limit = 0x20030000, heap_split_thresh = 16, heap_alignment = 8, heap_max_blocks = 256\<rparr>\<rparr>"
  by (simp add: demo_mem_def demo_boot_def mem_server_start_def memory_service_heap_limit_def mem_server_request_def
      ta_init_def ta_alloc_def alloc_block_def mem_codes Let_def)




text \<open>A call that reaches the server, next to which \<open>w\<close> holds the state of the C library.\<close>

definition serves :: "u32 \<Rightarrow> (u32 \<Rightarrow> mem_msg_t \<Rightarrow> mem_serv_t \<times> 'l \<Rightarrow> (int \<times> mem_msg_t) \<times> mem_serv_t \<times> 'l) \<Rightarrow> bool" where
  "serves vid call \<longleftrightarrow>
     (\<forall>m s l. call vid m (s, l) = ((0, fst (mem_server_request m s)), snd (mem_server_request m s), l))"

lemma ensure_known: "memory_vid c \<noteq> 0 \<Longrightarrow> ensure_memory_vid resolve c = ((0, memory_vid c), c)"
  by (simp add: ensure_memory_vid_def)


definition demo_call :: "u32 \<Rightarrow> mem_msg_t \<Rightarrow> mem_serv_t \<times> unit \<Rightarrow> (int \<times> mem_msg_t) \<times> mem_serv_t \<times> unit" where
  "demo_call vid m w = ((0, fst (mem_server_request m (fst w))), snd (mem_server_request m (fst w)), snd w)"

lemma demo_serves: "serves vid demo_call"
  by (simp add: serves_def demo_call_def)


text \<open>Memory that a client got from the C library, because the service was not registered yet, is never freed: once
  the client knows the service, \<^verbatim>\<open>noza_free\<close> sends the pointer there, where it is unknown, and nothing is freed on
  either side.\<close>

theorem early_memory_leaks:
  assumes early: "memory_vid c = 0" "resolve (memory_service_id c) = (e, sid, v)" "e \<noteq> 0"
    and m: "noza_malloc resolve call malloc sz c (s, l) = (p, c1, w1)"
    and late: "resolve' sid = (0, sid', vid)" "serves vid call"
    and unknown: "\<forall>b \<in> set (heap_used (tinyalloc (fst w1))). b_addr b \<noteq> p"
  shows "malloc sz (s, l) = (p, w1) \<and> snd (noza_free resolve' call free p c1 w1) = w1"
proof -
  have e: "ensure_memory_vid resolve c = ((e, 0), c\<lparr>memory_service_id := sid\<rparr>)"
    using early by (simp add: ensure_memory_vid_def)
  have w: "malloc sz (s, l) = (p, w1)" "c1 = c\<lparr>memory_service_id := sid\<rparr>"
    using m early(3) by (auto simp: noza_malloc_def e split: prod.splits)
  obtain s1 l1 where w1: "w1 = (s1, l1)" by (cases w1)
  have "ta_free p (tinyalloc s1) = (False, tinyalloc s1)"
    using unknown take_used_None [of p "heap_used (tinyalloc s1)"] by (simp add: ta_free_def w1)
  moreover have "ensure_memory_vid resolve' c1 = ((0, vid), c1\<lparr>memory_service_id := sid', memory_vid := vid\<rparr>)"
    using early(1) late(1) by (simp add: ensure_memory_vid_def w)
  ultimately show ?thesis using w late(2) by (simp add: noza_free_def serves_def mem_server_request_def mem_codes w1)
qed

theorem early_memory_leaks_witness:
  "snd (noza_free (\<lambda>_. (0, 4, 7)) demo_call (\<lambda>p w. w) 0x20035000 \<lparr>memory_service_id = 0, memory_vid = 0\<rparr> (demo_mem, ())) = (demo_mem, ())"
proof -
  have m: "noza_malloc (\<lambda>_. (- 1, 0, 0)) demo_call (\<lambda>n w. (0x20035000, w)) 24 \<lparr>memory_service_id = 0, memory_vid = 0\<rparr> (demo_mem, ())
      = (0x20035000, \<lparr>memory_service_id = 0, memory_vid = 0\<rparr>, (demo_mem, ()))"
    by (simp add: noza_malloc_def ensure_memory_vid_def)
  show ?thesis
    using early_memory_leaks [of _ "\<lambda>_. (- 1, 0, 0)" "- 1" 0 0, OF _ _ _ m, of "\<lambda>_. (0, 4, 7)" 4 7 "\<lambda>p w. w"] demo_serves
    by (simp add: demo_mem_eq)
qed

end
