(* ===== verification/Fs_State.thy ===== *)
theory Fs_State
  imports Kernel_State
begin

text \<open>
  The data of the file service (\<^verbatim>\<open>service/fs\<close>): attributes, nodes, handles, mounts and clients of \<^verbatim>\<open>vfs.h\<close>,
  \<^verbatim>\<open>ramfs.c\<close> and \<^verbatim>\<open>include/noza_fs.h\<close>, and the memory they live in.

  Nodes and handles are allocated with the allocator of the C library and referred to by address. An address is the
  number of the allocation; it is not used again, so that a pointer to memory that was freed is recognised
  (\<open>Use_after_free\<close>). Whether the \<open>k\<close>-th allocation succeeds is a function \<open>mem_ok\<close> about which nothing is assumed.
\<close>

section \<open>Faults and results\<close>

text \<open>\<open>Uninitialised\<close> is the use of a local variable that was never written.\<close>

datatype fs_fault = Use_after_free | Buffer_overrun | Uninitialised | Endless_loop

text \<open>What a function returns: an error number, or 0 with its outputs.\<close>

datatype 'a rc = Err u32 | Ok 'a

abbreviation "EACCES \<equiv> (2 :: u32)"
abbreviation "EBADF \<equiv> (8 :: u32)"
abbreviation "EEXIST \<equiv> (20 :: u32)"
abbreviation "EISDIR \<equiv> (31 :: u32)"
abbreviation "EMFILE \<equiv> (33 :: u32)"
abbreviation "EMSGSIZE \<equiv> (35 :: u32)"
abbreviation "ENAMETOOLONG \<equiv> (37 :: u32)"
abbreviation "ENODEV \<equiv> (44 :: u32)"
abbreviation "ENOTDIR \<equiv> (57 :: u32)"
abbreviation "ENOTEMPTY \<equiv> (58 :: u32)"

abbreviation "NOZA_FS_MAX_PATH \<equiv> (256 :: nat)"
abbreviation "NOZA_FS_MAX_NAME \<equiv> (64 :: nat)"
abbreviation "NOZA_FS_OFFSET_CUR \<equiv> (0xFFFFFFFF :: nat)"
abbreviation "NOZA_FS_UMASK_KEEP \<equiv> (0xFFFFFFFF :: u32)"

text \<open>The file types (octal 0170000, 0100000, 0040000), the permission bits (octal 0777), and the flags of
  \<^verbatim>\<open>fcntl.h\<close>.\<close>

abbreviation "NOZA_FS_MODE_IFMT \<equiv> (0xF000 :: u32)"
abbreviation "NOZA_FS_MODE_IFREG \<equiv> (0x8000 :: u32)"
abbreviation "NOZA_FS_MODE_IFDIR \<equiv> (0x4000 :: u32)"
abbreviation "PERM_BITS \<equiv> (0x1FF :: u32)"
abbreviation "O_WRONLY \<equiv> (1 :: u32)"
abbreviation "O_RDWR \<equiv> (2 :: u32)"
abbreviation "O_CREAT \<equiv> (0x200 :: u32)"
abbreviation "O_TRUNC \<equiv> (0x400 :: u32)"

section \<open>Data\<close>

record noza_fs_attr_t =
  a_mode :: u32
  a_uid :: u32
  a_gid :: u32
  a_size :: nat
  a_atime_sec :: u32
  a_mtime_sec :: u32
  a_ctime_sec :: u32
  a_nlink :: u32

record noza_fs_dirent_t =
  d_inode :: nat
  d_type :: u32
  d_name :: string

text \<open>A mount is the root mount or an element of the pool of \<^verbatim>\<open>vfs_mount\<close>.\<close>

datatype mnt_ref = Root_mount | Pool nat

text \<open>A node of the memory file system with the node of the file system switch it starts with. \<open>rn_child\<close> is the list
  that starts at \<^verbatim>\<open>child\<close> and is linked by \<^verbatim>\<open>sibling\<close>; \<open>rn_data\<close> is the buffer with its capacity as length, where
  \<open>None\<close> is a byte that was never written. The field \<^verbatim>\<open>parent\<close> of the memory file system itself is never read.\<close>

record ramfs_node_t =
  vn_mnt :: "mnt_ref option"
  vn_parent :: "nat option"
  vn_attr :: noza_fs_attr_t
  rn_child :: "nat list"
  rn_name :: string
  rn_data :: "u8 option list"
  rn_size :: nat

text \<open>\<^verbatim>\<open>vfs_handle_t\<close> with the \<^verbatim>\<open>ramfs_handle_t\<close> it points to.\<close>

record vfs_handle_t =
  vh_node :: nat
  vh_flags :: u32
  rh_node :: nat
  rh_offset :: nat
  rh_dir_index :: nat

datatype vfs_ops_t = NULL_VFS_OPS | RAMFS_OPS

record vfs_mount_t =
  m_path :: string
  m_ops :: vfs_ops_t
  m_root :: nat

record vfs_client_t =
  c_vid :: u32
  c_identity :: noza_identity_t
  c_cwd :: string
  c_cwd_node :: "nat option"
  c_files :: "nat option list"
  c_dirs :: "nat option list"

abbreviation "VFS_MAX_CLIENTS \<equiv> (16 :: nat)"
abbreviation "VFS_MAX_FD \<equiv> (32 :: nat)"
abbreviation "VFS_MAX_DIR \<equiv> (16 :: nat)"

text \<open>The variables of \<^verbatim>\<open>vfs.c\<close> and the memory. \<open>g_mounts\<close> is the list of mounts, as indices into the pool; an element
  of the pool that is all zero is \<open>None\<close>.\<close>

record fs_t =
  nodes :: "nat \<Rightarrow> ramfs_node_t option"
  handles :: "nat \<Rightarrow> vfs_handle_t option"
  brk :: nat
  mem_ok :: "nat \<Rightarrow> bool"
  g_root_mount :: vfs_mount_t
  mount_pool :: "vfs_mount_t option list"
  g_mounts :: "nat list"
  g_clients :: "vfs_client_t list"
  g_current_client :: "nat option"

section \<open>Memory\<close>

definition node_at :: "nat \<Rightarrow> fs_t \<Rightarrow> fs_fault + ramfs_node_t" where
  "node_at n s = (case nodes s n of None \<Rightarrow> Inl Use_after_free | Some v \<Rightarrow> Inr v)"

definition upd_node :: "nat \<Rightarrow> (ramfs_node_t \<Rightarrow> ramfs_node_t) \<Rightarrow> fs_t \<Rightarrow> fs_t" where
  "upd_node n f s = s\<lparr>nodes := (nodes s)(n := map_option f (nodes s n))\<rparr>"

definition handle_at :: "nat \<Rightarrow> fs_t \<Rightarrow> fs_fault + vfs_handle_t" where
  "handle_at h s = (case handles s h of None \<Rightarrow> Inl Use_after_free | Some v \<Rightarrow> Inr v)"

definition upd_handle :: "nat \<Rightarrow> (vfs_handle_t \<Rightarrow> vfs_handle_t) \<Rightarrow> fs_t \<Rightarrow> fs_t" where
  "upd_handle h f s = s\<lparr>handles := (handles s)(h := map_option f (handles s h))\<rparr>"

text \<open>An allocation: the address, if it succeeds.\<close>

definition alloc :: "fs_t \<Rightarrow> nat option \<times> fs_t" where
  "alloc s = (if mem_ok s (brk s) then Some (brk s) else None, s\<lparr>brk := Suc (brk s)\<rparr>)"

definition is_dir :: "ramfs_node_t \<Rightarrow> bool" where
  "is_dir n \<longleftrightarrow> a_mode (vn_attr n) AND NOZA_FS_MODE_IFMT = NOZA_FS_MODE_IFDIR"

text \<open>The credentials of the client that is served.\<close>

definition vfs_current_identity :: "fs_t \<Rightarrow> noza_identity_t option" where
  "vfs_current_identity s = map_option (\<lambda>i. c_identity (g_clients s ! i)) (g_current_client s)"

definition current_uid :: "fs_t \<Rightarrow> u32" where
  "current_uid s = (case vfs_current_identity s of Some i \<Rightarrow> uid i | None \<Rightarrow> 0)"

definition current_gid :: "fs_t \<Rightarrow> u32" where
  "current_gid s = (case vfs_current_identity s of Some i \<Rightarrow> gid i | None \<Rightarrow> 0)"

end
