(* ===== verification/Ramfs.thy ===== *)
theory Ramfs
  imports Fs_State
begin

text \<open>
  The memory file system (\<^verbatim>\<open>service/fs/ramfs.c\<close>): directories as linked lists of nodes, files as growing buffers.
  The operations are those of the table \<^verbatim>\<open>RAMFS_OPS\<close> that the file system switch calls. Sizes, offsets and lengths
  are natural numbers with the wrap-around of \<^verbatim>\<open>size_t\<close> written out.
\<close>

section \<open>Operations\<close>

abbreviation w32 :: "nat \<Rightarrow> nat" where
  "w32 n \<equiv> n mod 2 ^ 32"

abbreviation G_ROOT_NODE :: nat where "G_ROOT_NODE \<equiv> 0"
abbreviation G_RAMFS_ROOT :: nat where "G_RAMFS_ROOT \<equiv> 1"

fun child_loop :: "nat list \<Rightarrow> string \<Rightarrow> fs_t \<Rightarrow> fs_fault + nat option" where
  "child_loop [] name s = Inr None"
| "child_loop (c # cs) name s =
     bindE (node_at c s) (\<lambda>n. if take NOZA_FS_MAX_NAME (rn_name n) = take NOZA_FS_MAX_NAME name
                              then Inr (Some c) else child_loop cs name s)"

definition ramfs_child :: "nat \<Rightarrow> string \<Rightarrow> fs_t \<Rightarrow> fs_fault + nat option" where
  "ramfs_child dir name s = bindE (node_at dir s) (\<lambda>d. child_loop (rn_child d) name s)"

definition ramfs_insert_child :: "nat \<Rightarrow> nat \<Rightarrow> fs_t \<Rightarrow> fs_t" where
  "ramfs_insert_child dir node s = upd_node dir (\<lambda>d. d\<lparr>rn_child := node # rn_child d\<rparr>) s"

definition ramfs_new_node :: "string \<Rightarrow> u32 \<Rightarrow> u32 \<Rightarrow> u32 \<Rightarrow> bool \<Rightarrow> fs_t \<Rightarrow> nat option \<times> fs_t" where
  "ramfs_new_node name mode u g dir s =
     (case alloc s of
        (None, s') \<Rightarrow> (None, s')
      | (Some n, s') \<Rightarrow>
          (Some n, s'\<lparr>nodes := (nodes s')(n \<mapsto>
             \<lparr>vn_mnt = Option.bind (nodes s G_RAMFS_ROOT) vn_mnt, vn_parent = None,
              vn_attr = \<lparr>a_mode = mode OR (if dir then NOZA_FS_MODE_IFDIR else NOZA_FS_MODE_IFREG), a_uid = u, a_gid = g,
                a_size = 0, a_atime_sec = 0, a_mtime_sec = 0, a_ctime_sec = 0, a_nlink = 1\<rparr>,
              rn_child = [], rn_name = take (NOZA_FS_MAX_NAME - 1) name, rn_data = [], rn_size = 0\<rparr>)\<rparr>))"

definition ramfs_lookup :: "nat \<Rightarrow> string \<Rightarrow> fs_t \<Rightarrow> fs_fault + nat rc" where
  "ramfs_lookup dir name s =
     bindE (node_at dir s) (\<lambda>d.
       if \<not> is_dir d then Inr (Err ENOTDIR)
       else bindE (ramfs_child dir name s) (\<lambda>c. Inr (case c of None \<Rightarrow> Err ENOENT | Some n \<Rightarrow> Ok n)))"

definition ramfs_open :: "nat \<Rightarrow> u32 \<Rightarrow> u32 \<Rightarrow> fs_t \<Rightarrow> fs_fault + nat rc \<times> fs_t" where
  "ramfs_open node oflag mode s =
     bindE (node_at node s) (\<lambda>n.
       if is_dir n then Inr (Err EISDIR, s)
       else
         let n1 = (if oflag AND O_TRUNC \<noteq> 0 \<and> oflag AND (O_WRONLY OR O_RDWR) \<noteq> 0
                   then n\<lparr>rn_data := [], rn_size := 0\<rparr> else n);
             n2 = (if oflag AND O_CREAT \<noteq> 0 \<and> rn_size n1 = 0
                   then n1\<lparr>vn_attr := (vn_attr n1)\<lparr>a_mode := a_mode (vn_attr n1) AND NOZA_FS_MODE_IFMT OR mode AND PERM_BITS,
                               a_uid := current_uid s, a_gid := current_gid s\<rparr>\<rparr>
                   else n1);
             s1 = upd_node node (\<lambda>_. n2) s
         in case alloc s1 of
              (None, s2) \<Rightarrow> Inr (Err ENOMEM, s2)
            | (Some _, s2) \<Rightarrow>
                (case alloc s2 of
                   (None, s3) \<Rightarrow> Inr (Err ENOMEM, s3)
                 | (Some vh, s3) \<Rightarrow>
                     Inr (Ok vh, s3\<lparr>handles := (handles s3)(vh \<mapsto>
                       \<lparr>vh_node = node, vh_flags = oflag, rh_node = node, rh_offset = 0, rh_dir_index = 0\<rparr>)\<rparr>)))"

definition ramfs_close :: "nat \<Rightarrow> fs_t \<Rightarrow> fs_fault + unit rc \<times> fs_t" where
  "ramfs_close h s = bindE (handle_at h s) (\<lambda>_. Inr (Ok (), s\<lparr>handles := (handles s)(h := None)\<rparr>))"

text \<open>The loop that doubles the capacity. 34 rounds are more than it ever needs when it ends.\<close>

fun cap_loop :: "nat \<Rightarrow> nat \<Rightarrow> nat \<Rightarrow> fs_fault + nat" where
  "cap_loop 0 new_cap needed = Inl Endless_loop"
| "cap_loop (Suc fuel) new_cap needed =
     (if new_cap < needed then cap_loop fuel (w32 (new_cap * 2)) needed else Inr new_cap)"

definition ramfs_ensure_capacity :: "nat \<Rightarrow> nat \<Rightarrow> fs_t \<Rightarrow> fs_fault + unit rc \<times> fs_t" where
  "ramfs_ensure_capacity node needed s =
     bindE (node_at node s) (\<lambda>n.
       let capacity = length (rn_data n)
       in if needed \<le> capacity then Inr (Ok (), s)
          else bindE (cap_loop 34 (if capacity \<noteq> 0 then w32 (capacity * 2) else 64) needed) (\<lambda>new_cap.
            case alloc s of
              (None, s') \<Rightarrow> Inr (Err ENOMEM, s')
            | (Some _, s') \<Rightarrow>
                Inr (Ok (), upd_node node (\<lambda>n. n\<lparr>rn_data := rn_data n @ replicate (new_cap - capacity) None\<rparr>) s')))"

text \<open>\<open>len\<close> bytes are copied to the buffer of the caller; the model returns them. \<open>buf\<close> is false for a null pointer.\<close>

definition ramfs_read :: "nat \<Rightarrow> bool \<Rightarrow> nat \<Rightarrow> nat \<Rightarrow> fs_t \<Rightarrow> fs_fault + u8 option list rc \<times> fs_t" where
  "ramfs_read handle buf len offset s =
     (if \<not> buf then Inr (Err EINVAL, s)
      else bindE (handle_at handle s) (\<lambda>h. bindE (node_at (rh_node h) s) (\<lambda>n.
        let off = (if offset = NOZA_FS_OFFSET_CUR then rh_offset h else offset)
        in if off > rn_size n then Inr (Ok [], s)
           else let to_copy = (if w32 (off + len) > rn_size n then rn_size n - off else len)
                in if off + to_copy > length (rn_data n) then Inl Buffer_overrun
                   else Inr (Ok (take to_copy (drop off (rn_data n))),
                             upd_handle handle (\<lambda>h. h\<lparr>rh_offset := w32 (off + to_copy)\<rparr>) s))))"

text \<open>\<open>buf\<close> gives the bytes at the pointer, or is \<open>None\<close> for a null pointer. The result is the number of bytes
  written.\<close>

definition ramfs_write :: "nat \<Rightarrow> (nat \<Rightarrow> u8) option \<Rightarrow> nat \<Rightarrow> nat \<Rightarrow> fs_t \<Rightarrow> fs_fault + nat rc \<times> fs_t" where
  "ramfs_write handle buf len offset s =
     (case buf of
        None \<Rightarrow> Inr (Err EINVAL, s)
      | Some bytes \<Rightarrow>
          bindE (handle_at handle s) (\<lambda>h.
            let off = (if offset = NOZA_FS_OFFSET_CUR then rh_offset h else offset)
            in bindE (ramfs_ensure_capacity (rh_node h) (w32 (off + len)) s) (\<lambda>(r, s1).
                 case r of
                   Err e \<Rightarrow> Inr (Err e, s1)
                 | Ok _ \<Rightarrow> bindE (node_at (rh_node h) s1) (\<lambda>n.
                     if off + len > length (rn_data n) then Inl Buffer_overrun
                     else let n1 = n\<lparr>rn_data := take off (rn_data n) @ map (\<lambda>i. Some (bytes i)) [0..<len] @ drop (off + len) (rn_data n)\<rparr>;
                              n2 = (if w32 (off + len) > rn_size n1
                                    then n1\<lparr>rn_size := w32 (off + len), vn_attr := (vn_attr n1)\<lparr>a_size := w32 (off + len)\<rparr>\<rparr> else n1)
                          in Inr (Ok len, upd_handle handle (\<lambda>h. h\<lparr>rh_offset := w32 (off + len)\<rparr>)
                                            (upd_node (rh_node h) (\<lambda>_. n2) s1))))))"

definition ramfs_lseek :: "nat \<Rightarrow> int \<Rightarrow> int \<Rightarrow> fs_t \<Rightarrow> fs_fault + int rc \<times> fs_t" where
  "ramfs_lseek handle offset whence s =
     bindE (handle_at handle s) (\<lambda>h.
       let prev = int (rh_offset h);
           seek = (\<lambda>base. let pos = int64 (base + offset)
                          in if pos < 0 then (Err EINVAL, s)
                             else (Ok prev, upd_handle handle (\<lambda>h. h\<lparr>rh_offset := nat (pos mod 2 ^ 32)\<rparr>) s))
       in if whence = 0 then Inr (seek 0)
          else if whence = 1 then Inr (seek (int (rh_offset h)))
          else if whence = 2 then bindE (node_at (rh_node h) s) (\<lambda>n. Inr (seek (int (rn_size n))))
          else Inr (Err EINVAL, s))"

definition ramfs_stat :: "nat \<Rightarrow> fs_t \<Rightarrow> fs_fault + noza_fs_attr_t rc" where
  "ramfs_stat node s = bindE (node_at node s) (\<lambda>n. Inr (Ok (vn_attr n)))"

definition ramfs_unlink :: "nat \<Rightarrow> string \<Rightarrow> fs_t \<Rightarrow> fs_fault + unit rc \<times> fs_t" where
  "ramfs_unlink dir name s =
     bindE (node_at dir s) (\<lambda>d.
       if \<not> is_dir d then Inr (Err ENOTDIR, s)
       else bindE (child_loop (rn_child d) name s) (\<lambda>r.
         case r of
           None \<Rightarrow> Inr (Ok (), s)
         | Some c \<Rightarrow> bindE (node_at c s) (\<lambda>n.
             if is_dir n \<and> rn_child n \<noteq> [] then Inr (Err ENOTEMPTY, s)
             else let s1 = upd_node dir (\<lambda>d. d\<lparr>rn_child := remove1 c (rn_child d)\<rparr>) s
                  in Inr (Ok (), s1\<lparr>nodes := (nodes s1)(c := None)\<rparr>))))"

text \<open>\<^verbatim>\<open>ramfs_mkdir\<close> and \<^verbatim>\<open>ramfs_create\<close> differ in the type of the new node.\<close>

definition ramfs_make :: "bool \<Rightarrow> nat \<Rightarrow> string \<Rightarrow> u32 \<Rightarrow> fs_t \<Rightarrow> fs_fault + nat rc \<times> fs_t" where
  "ramfs_make dir_node dir name mode s =
     bindE (node_at dir s) (\<lambda>d.
       if \<not> is_dir d then Inr (Err ENOTDIR, s)
       else bindE (ramfs_child dir name s) (\<lambda>r.
         case r of
           Some _ \<Rightarrow> Inr (Err EEXIST, s)
         | None \<Rightarrow>
             (case ramfs_new_node name mode (current_uid s) (current_gid s) dir_node s of
                (None, s') \<Rightarrow> Inr (Err ENOMEM, s')
              | (Some n, s') \<Rightarrow> Inr (Ok n, ramfs_insert_child dir n s'))))"

definition ramfs_mkdir :: "nat \<Rightarrow> string \<Rightarrow> u32 \<Rightarrow> fs_t \<Rightarrow> fs_fault + unit rc \<times> fs_t" where
  "ramfs_mkdir dir name mode s =
     bindE (ramfs_make True dir name mode s) (\<lambda>(r, s'). Inr (case r of Err e \<Rightarrow> Err e | Ok _ \<Rightarrow> Ok (), s'))"

definition ramfs_create :: "nat \<Rightarrow> string \<Rightarrow> u32 \<Rightarrow> fs_t \<Rightarrow> fs_fault + nat rc \<times> fs_t" where
  "ramfs_create dir name mode s = ramfs_make False dir name mode s"

definition ramfs_opendir :: "nat \<Rightarrow> fs_t \<Rightarrow> fs_fault + nat rc \<times> fs_t" where
  "ramfs_opendir dir s =
     bindE (node_at dir s) (\<lambda>d.
       if \<not> is_dir d then Inr (Err ENOTDIR, s)
       else case alloc s of
              (None, s1) \<Rightarrow> Inr (Err ENOMEM, s1)
            | (Some _, s1) \<Rightarrow>
                (case alloc s1 of
                   (None, s2) \<Rightarrow> Inr (Err ENOMEM, s2)
                 | (Some vh, s2) \<Rightarrow>
                     Inr (Ok vh, s2\<lparr>handles := (handles s2)(vh \<mapsto>
                       \<lparr>vh_node = dir, vh_flags = 0, rh_node = dir, rh_offset = 0, rh_dir_index = 0\<rparr>)\<rparr>)))"

text \<open>The entry, or \<open>None\<close> at the end.\<close>

definition ramfs_readdir :: "nat \<Rightarrow> fs_t \<Rightarrow> fs_fault + noza_fs_dirent_t option rc \<times> fs_t" where
  "ramfs_readdir handle s =
     bindE (handle_at handle s) (\<lambda>h. bindE (node_at (rh_node h) s) (\<lambda>dir.
       if \<not> is_dir dir then Inr (Err ENOTDIR, s)
       else
         let idx = rh_dir_index h;
             s1 = upd_handle handle (\<lambda>h. h\<lparr>rh_dir_index := Suc idx\<rparr>) s
         in if idx = 0 then Inr (Ok (Some \<lparr>d_inode = 0, d_type = NOZA_FS_MODE_IFDIR, d_name = ''.''\<rparr>), s1)
            else if idx = 1 then Inr (Ok (Some \<lparr>d_inode = 0, d_type = NOZA_FS_MODE_IFDIR, d_name = ''..''\<rparr>), s1)
            else case drop (idx - 2) (rn_child dir) of
                   [] \<Rightarrow> Inr (Ok None, s1)
                 | c # _ \<Rightarrow> bindE (node_at c s) (\<lambda>n.
                     Inr (Ok (Some \<lparr>d_inode = c, d_type = a_mode (vn_attr n) AND NOZA_FS_MODE_IFMT,
                                    d_name = take (NOZA_FS_MAX_NAME - 1) (rn_name n)\<rparr>), s1))))"

definition ramfs_chmod :: "nat \<Rightarrow> u32 \<Rightarrow> fs_t \<Rightarrow> fs_fault + unit rc \<times> fs_t" where
  "ramfs_chmod node mode s =
     bindE (node_at node s) (\<lambda>_.
       Inr (Ok (), upd_node node (\<lambda>n. n\<lparr>vn_attr := (vn_attr n)\<lparr>a_mode :=
                     a_mode (vn_attr n) AND NOZA_FS_MODE_IFMT OR mode AND PERM_BITS\<rparr>\<rparr>) s))"

definition ramfs_chown :: "nat \<Rightarrow> u32 \<Rightarrow> u32 \<Rightarrow> fs_t \<Rightarrow> fs_fault + unit rc \<times> fs_t" where
  "ramfs_chown node u g s =
     bindE (node_at node s) (\<lambda>_. Inr (Ok (), upd_node node (\<lambda>n. n\<lparr>vn_attr := (vn_attr n)\<lparr>a_uid := u, a_gid := g\<rparr>\<rparr>) s))"

text \<open>A root directory: owned by the superuser, octal 0755, its own parent.\<close>

definition root_node :: "nat \<Rightarrow> mnt_ref option \<Rightarrow> ramfs_node_t" where
  "root_node n mnt =
     \<lparr>vn_mnt = mnt, vn_parent = Some n,
      vn_attr = \<lparr>a_mode = NOZA_FS_MODE_IFDIR OR 0x1ED, a_uid = 0, a_gid = 0, a_size = 0, a_atime_sec = 0, a_mtime_sec = 0,
        a_ctime_sec = 0, a_nlink = 1\<rparr>,
      rn_child = [], rn_name = ''/'', rn_data = [], rn_size = 0\<rparr>"

definition ramfs_create_root :: "fs_t \<Rightarrow> nat option \<times> fs_t" where
  "ramfs_create_root s =
     (case alloc s of
        (None, s') \<Rightarrow> (None, s')
      | (Some n, s') \<Rightarrow> (Some n, s'\<lparr>nodes := (nodes s')(n \<mapsto> root_node n None)\<rparr>))"

end
