(* ===== verification/Vfs.thy ===== *)
theory Vfs
  imports Ramfs
begin

text \<open>
  The file system switch (\<^verbatim>\<open>service/fs/vfs.c\<close>): clients with their descriptors and working directory, mounts, the
  resolution of paths, permissions, and the operations that the file service offers, on top of the memory file system.
\<close>

section \<open>Operations of the file systems\<close>

text \<open>The table of the mount a node belongs to; \<open>None\<close> for a null pointer on the way.\<close>

definition mnt_ops :: "mnt_ref option \<Rightarrow> fs_t \<Rightarrow> vfs_ops_t option" where
  "mnt_ops m s =
     (case m of
        None \<Rightarrow> None
      | Some Root_mount \<Rightarrow> Some (m_ops (g_root_mount s))
      | Some (Pool i) \<Rightarrow> map_option m_ops (mount_pool s ! i))"

definition node_ops :: "nat \<Rightarrow> fs_t \<Rightarrow> fs_fault + vfs_ops_t option" where
  "node_ops n s = bindE (node_at n s) (\<lambda>v. Inr (mnt_ops (vn_mnt v) s))"

definition upd_client :: "nat \<Rightarrow> (vfs_client_t \<Rightarrow> vfs_client_t) \<Rightarrow> fs_t \<Rightarrow> fs_t" where
  "upd_client i f s = s\<lparr>g_clients := (g_clients s)[i := f (g_clients s ! i)]\<rparr>"

text \<open>\<^verbatim>\<open>NULL_VFS_OPS\<close> has only \<^verbatim>\<open>lookup\<close>, which finds nothing, and \<^verbatim>\<open>stat\<close>.\<close>

definition null_lookup :: "fs_fault + nat rc" where
  "null_lookup = Inr (Err ENOENT)"

definition null_stat :: "nat \<Rightarrow> fs_t \<Rightarrow> fs_fault + noza_fs_attr_t rc" where
  "null_stat node s = bindE (node_at node s) (\<lambda>n. Inr (Ok (vn_attr n)))"

text \<open>An operation that only the memory file system has.\<close>

definition ramfs_op :: "vfs_ops_t option \<Rightarrow> (fs_fault + 'a rc \<times> fs_t) \<Rightarrow> fs_t \<Rightarrow> fs_fault + 'a rc \<times> fs_t" where
  "ramfs_op ops m s = (if ops = Some RAMFS_OPS then m else Inr (Err ENOSYS, s))"

section \<open>Clients\<close>

definition empty_client :: vfs_client_t where
  "empty_client = \<lparr>c_vid = 0, c_identity = \<lparr>uid = 0, gid = 0, umask = 0\<rparr>, c_cwd = [], c_cwd_node = None,
     c_files = replicate VFS_MAX_FD None, c_dirs = replicate VFS_MAX_DIR None\<rparr>"

text \<open>\<^verbatim>\<open>vfs_release_handle_slot\<close> for a descriptor: the handle is closed if its node still belongs to a mount.\<close>

definition vfs_release_handle :: "nat option \<Rightarrow> fs_t \<Rightarrow> fs_fault + fs_t" where
  "vfs_release_handle sl s =
     (case sl of
        None \<Rightarrow> Inr s
      | Some h \<Rightarrow> bindE (handle_at h s) (\<lambda>v. bindE (node_ops (vh_node v) s) (\<lambda>ops.
          if ops = Some RAMFS_OPS then bindE (ramfs_close h s) (\<lambda>(_, s'). Inr s') else Inr s)))"

fun release_loop_fs :: "nat option list \<Rightarrow> fs_t \<Rightarrow> fs_fault + fs_t" where
  "release_loop_fs [] s = Inr s"
| "release_loop_fs (sl # ss) s = bindE (vfs_release_handle sl s) (release_loop_fs ss)"

definition vfs_release_client :: "nat \<Rightarrow> fs_t \<Rightarrow> fs_fault + fs_t" where
  "vfs_release_client i s =
     (let c = g_clients s ! i
      in if c_vid c = 0 then Inr s
         else bindE (release_loop_fs (c_files c) s) (\<lambda>s1. bindE (release_loop_fs (c_dirs c) s1) (\<lambda>s2.
                Inr (upd_client i (\<lambda>_. empty_client) s2))))"

text \<open>\<open>alive v\<close> is the answer of the kernel to signal 0 for the thread \<open>v\<close>, other than \<^verbatim>\<open>ESRCH\<close>.\<close>

fun reap_loop :: "(u32 \<Rightarrow> bool) \<Rightarrow> nat list \<Rightarrow> fs_t \<Rightarrow> fs_fault + fs_t" where
  "reap_loop alive [] s = Inr s"
| "reap_loop alive (i # is) s =
     (let v = c_vid (g_clients s ! i)
      in if v \<noteq> 0 \<and> \<not> alive v then bindE (vfs_release_client i s) (reap_loop alive is) else reap_loop alive is s)"

definition vfs_reap_stale_clients :: "(u32 \<Rightarrow> bool) \<Rightarrow> fs_t \<Rightarrow> fs_fault + fs_t" where
  "vfs_reap_stale_clients alive s = reap_loop alive [0..<VFS_MAX_CLIENTS] s"

definition find_client :: "u32 \<Rightarrow> fs_t \<Rightarrow> nat option" where
  "find_client v s = find (\<lambda>i. c_vid (g_clients s ! i) = v) [0..<VFS_MAX_CLIENTS]"

definition vfs_alloc_client :: "(u32 \<Rightarrow> bool) \<Rightarrow> u32 \<Rightarrow> noza_identity_t \<Rightarrow> fs_t \<Rightarrow> fs_fault + nat option \<times> fs_t" where
  "vfs_alloc_client alive v ident s =
     bindE (vfs_reap_stale_clients alive s) (\<lambda>s1.
       Inr (case find_client 0 s1 of
              None \<Rightarrow> (None, s1)
            | Some i \<Rightarrow> (Some i, upd_client i (\<lambda>_. empty_client\<lparr>c_vid := v, c_identity := ident, c_cwd := ''/'',
                                 c_cwd_node := Some (m_root (g_root_mount s1))\<rparr>) s1)))"

definition vfs_client_for_vid :: "(u32 \<Rightarrow> bool) \<Rightarrow> u32 \<Rightarrow> noza_identity_t \<Rightarrow> fs_t \<Rightarrow> fs_fault + nat option \<times> fs_t" where
  "vfs_client_for_vid alive v ident s =
     (case find_client v s of
        Some i \<Rightarrow> Inr (Some i, upd_client i (\<lambda>c. c\<lparr>c_identity := ident\<rparr>) s)
      | None \<Rightarrow> vfs_alloc_client alive v ident s)"

section \<open>Permissions\<close>

abbreviation "VFS_R_OK \<equiv> (4 :: u32)"
abbreviation "VFS_W_OK \<equiv> (2 :: u32)"
abbreviation "VFS_X_OK \<equiv> (1 :: u32)"

definition vfs_check_perms :: "noza_identity_t \<Rightarrow> noza_fs_attr_t \<Rightarrow> u32 \<Rightarrow> unit rc" where
  "vfs_check_perms ident attr required =
     (if uid ident = 0 then Ok ()
      else let mode = a_mode attr;
               candidate = (if uid ident = a_uid attr then drop_bit 6 mode AND 7
                            else if gid ident = a_gid attr then drop_bit 3 mode AND 7
                            else mode AND 7)
           in if candidate AND required = required then Ok () else Err EACCES)"

section \<open>Mounts\<close>

abbreviation SLASH :: char where "SLASH \<equiv> CHR ''/''"

text \<open>\<open>a\<close> is a prefix of \<open>b\<close> that ends where a component of \<open>b\<close> ends.\<close>

definition path_prefix :: "string \<Rightarrow> string \<Rightarrow> bool" where
  "path_prefix a b \<longleftrightarrow> take (length a) b = a \<and> (drop (length a) b = [] \<or> hd (drop (length a) b) = SLASH)"

definition path_overlap :: "string \<Rightarrow> string \<Rightarrow> bool" where
  "path_overlap a b =
     (if a = [SLASH] \<or> b = [SLASH] then a = b
      else if length a \<le> length b then path_prefix a b
      else path_prefix b a)"

definition vfs_match_mount :: "string \<Rightarrow> fs_t \<Rightarrow> mnt_ref \<times> vfs_mount_t \<times> string" where
  "vfs_match_mount path s =
     (let best = foldl (\<lambda>(r, b) i.
                    case mount_pool s ! i of
                      None \<Rightarrow> (r, b)
                    | Some m \<Rightarrow> if path_prefix (m_path m) path \<and> length (m_path m) > length (m_path b) then (Pool i, m) else (r, b))
                  (Root_mount, g_root_mount s) (g_mounts s);
          rest = drop (length (m_path (snd best))) path
      in (fst best, snd best,
          if rest \<noteq> [] \<and> hd rest = SLASH \<and> length (m_path (snd best)) > 1 then tl rest else rest))"

text \<open>The state after \<^verbatim>\<open>vfs_init\<close>.\<close>

definition vfs_init :: "(nat \<Rightarrow> bool) \<Rightarrow> fs_t" where
  "vfs_init mem =
     \<lparr>nodes = [G_ROOT_NODE \<mapsto> root_node G_ROOT_NODE (Some Root_mount)], handles = Map.empty, brk = 2, mem_ok = mem,
      g_root_mount = \<lparr>m_path = ''/'', m_ops = NULL_VFS_OPS, m_root = G_ROOT_NODE\<rparr>,
      mount_pool = replicate VFS_MAX_CLIENTS None, g_mounts = [],
      g_clients = replicate VFS_MAX_CLIENTS empty_client, g_current_client = None\<rparr>"

definition vfs_set_root :: "vfs_ops_t \<Rightarrow> nat \<Rightarrow> fs_t \<Rightarrow> fs_t" where
  "vfs_set_root ops root s =
     upd_node root (\<lambda>n. n\<lparr>vn_mnt := Some Root_mount, vn_parent := Some (case vn_parent n of Some p \<Rightarrow> p | None \<Rightarrow> root)\<rparr>)
       (s\<lparr>g_root_mount := \<lparr>m_path = m_path (g_root_mount s), m_ops = ops, m_root = root\<rparr>\<rparr>)"

definition vfs_mount :: "string \<Rightarrow> vfs_ops_t \<Rightarrow> nat \<Rightarrow> fs_t \<Rightarrow> unit rc \<times> fs_t" where
  "vfs_mount path ops root s =
     (if path = [] \<or> length path \<ge> NOZA_FS_MAX_PATH then (Err ENAMETOOLONG, s)
      else if hd path \<noteq> SLASH then (Err EINVAL, s)
      else if (\<exists>i \<in> set (g_mounts s). case mount_pool s ! i of None \<Rightarrow> False | Some m \<Rightarrow> path_overlap (m_path m) path) then (Err EEXIST, s)
      else if path_overlap (m_path (g_root_mount s)) path then (Err EEXIST, s)
      else case find (\<lambda>i. mount_pool s ! i = None) [0..<VFS_MAX_CLIENTS] of
             None \<Rightarrow> (Err ENOMEM, s)
           | Some i \<Rightarrow>
               (Ok (), upd_node root (\<lambda>n. n\<lparr>vn_mnt := Some (Pool i), vn_parent := Some root\<rparr>)
                  (s\<lparr>mount_pool := (mount_pool s)[i := Some \<lparr>m_path = path, m_ops = ops, m_root = root\<rparr>], g_mounts := i # g_mounts s\<rparr>)))"

definition vfs_umount :: "string \<Rightarrow> fs_t \<Rightarrow> unit rc \<times> fs_t" where
  "vfs_umount path s =
     (if path = [] \<or> length path \<ge> NOZA_FS_MAX_PATH then (Err ENAMETOOLONG, s)
      else if path = [SLASH] then (Err EBUSY, s)
      else case find (\<lambda>i. map_option m_path (mount_pool s ! i) = Some path) (g_mounts s) of
             None \<Rightarrow> (Err ENOENT, s)
           | Some i \<Rightarrow> (Ok (), s\<lparr>mount_pool := (mount_pool s)[i := None], g_mounts := remove1 i (g_mounts s)\<rparr>))"

section \<open>Paths\<close>

definition vfs_parent_or_self :: "nat \<Rightarrow> fs_t \<Rightarrow> fs_fault + nat" where
  "vfs_parent_or_self n s = bindE (node_at n s) (\<lambda>v. Inr (case vn_parent v of Some p \<Rightarrow> p | None \<Rightarrow> n))"

definition ops_lookup :: "vfs_ops_t option \<Rightarrow> nat \<Rightarrow> string \<Rightarrow> fs_t \<Rightarrow> fs_fault + nat rc" where
  "ops_lookup ops dir name s =
     (case ops of
        None \<Rightarrow> Inr (Err ENOSYS)
      | Some NULL_VFS_OPS \<Rightarrow> null_lookup
      | Some RAMFS_OPS \<Rightarrow> ramfs_lookup dir name s)"

lemma component_shorter:
  "dropWhile (\<lambda>x. x = SLASH) cursor = c # cs \<Longrightarrow> length (dropWhile (\<lambda>x. x \<noteq> SLASH) (c # cs)) < length cursor"
proof -
  assume a: "dropWhile (\<lambda>x. x = SLASH) cursor = c # cs"
  then have "c \<noteq> SLASH" using hd_dropWhile [of "\<lambda>x. x = SLASH" cursor] by simp
  then have "length (dropWhile (\<lambda>x. x \<noteq> SLASH) (c # cs)) \<le> length cs" by (simp add: length_dropWhile_le)
  also have "length cs < length cursor" using length_dropWhile_le [of "\<lambda>x. x = SLASH" cursor] a by simp
  finally show ?thesis .
qed

text \<open>The node and parent that a path leads to, and the last component if the parent was wanted; \<open>None\<close> if the path has no
  last component.\<close>

function vfs_walk_components ::
    "bool \<Rightarrow> nat \<Rightarrow> nat \<Rightarrow> string \<Rightarrow> fs_t \<Rightarrow> fs_fault + (nat \<times> nat \<times> string option) rc \<times> fs_t" where
  "vfs_walk_components want_parent cur parent cursor s =
     (case dropWhile (\<lambda>x. x = SLASH) cursor of
        [] \<Rightarrow> Inr (Ok (cur, parent, None), s)
      | c # cs \<Rightarrow>
          let comp = takeWhile (\<lambda>x. x \<noteq> SLASH) (c # cs);
              rest = dropWhile (\<lambda>x. x \<noteq> SLASH) (c # cs)
          in if length comp \<ge> NOZA_FS_MAX_NAME then Inr (Err ENAMETOOLONG, s)
             else if comp = ''.'' then vfs_walk_components want_parent cur parent rest s
             else if comp = ''..'' then
               bindE (vfs_parent_or_self cur s) (\<lambda>cur'. bindE (vfs_parent_or_self cur' s) (\<lambda>parent'.
                 vfs_walk_components want_parent cur' parent' rest s))
             else if want_parent \<and> rest = [] then Inr (Ok (cur, cur, Some comp), s)
             else bindE (node_ops cur s) (\<lambda>ops. bindE (ops_lookup ops cur comp s) (\<lambda>r.
                    case r of
                      Err e \<Rightarrow> Inr (Err e, s)
                    | Ok next \<Rightarrow> vfs_walk_components want_parent next cur rest (upd_node next (\<lambda>n. n\<lparr>vn_parent := Some cur\<rparr>) s))))"
  by pat_completeness auto
termination
  by (relation "measure (\<lambda>(_, _, _, cursor, _). length cursor)") (auto dest: component_shorter)

declare vfs_walk_components.simps [simp del]

text \<open>Collapse repeated slashes and strip trailing ones.\<close>

fun collapse_slashes :: "char \<Rightarrow> string \<Rightarrow> string" where
  "collapse_slashes prev [] = []"
| "collapse_slashes prev (c # cs) =
     (if c = SLASH \<and> prev = SLASH then collapse_slashes prev cs else c # collapse_slashes c cs)"

function strip_slashes :: "string \<Rightarrow> string" where
  "strip_slashes p = (if length p > 1 \<and> last p = SLASH then strip_slashes (butlast p) else p)"
  by pat_completeness auto
termination by (relation "measure length") auto

declare strip_slashes.simps [simp del]

definition vfs_normalize_path :: "string \<Rightarrow> string" where
  "vfs_normalize_path path = strip_slashes (collapse_slashes (CHR 0x00) path)"

text \<open>The full path of \<^verbatim>\<open>vfs_resolve\<close>, before normalisation.\<close>

definition full_path :: "vfs_client_t \<Rightarrow> string \<Rightarrow> string rc" where
  "full_path client path =
     (if path \<noteq> [] \<and> hd path = SLASH then Ok (take (NOZA_FS_MAX_PATH - 1) path)
      else let full = (if c_cwd client = [SLASH] then SLASH # path else c_cwd client @ SLASH # path)
           in if length full \<ge> NOZA_FS_MAX_PATH then Err ENAMETOOLONG else Ok full)"

definition vfs_resolve :: "nat \<Rightarrow> string \<Rightarrow> bool \<Rightarrow> fs_t \<Rightarrow> fs_fault + (nat \<times> nat \<times> string option) rc \<times> fs_t" where
  "vfs_resolve i path want_parent s =
     (case full_path (g_clients s ! i) path of
        Err e \<Rightarrow> Inr (Err e, s)
      | Ok full \<Rightarrow>
          let (_, mnt, rest) = vfs_match_mount (vfs_normalize_path full) s
          in bindE (vfs_parent_or_self (m_root mnt) s) (\<lambda>parent. vfs_walk_components want_parent (m_root mnt) parent rest s))"

section \<open>Working directory and file creation mask\<close>

definition vfs_check_attr :: "nat \<Rightarrow> fs_t \<Rightarrow> fs_fault + noza_fs_attr_t rc" where
  "vfs_check_attr n s =
     bindE (node_ops n s) (\<lambda>ops.
       case ops of
         None \<Rightarrow> bindE (node_at n s) (\<lambda>v. Inr (Ok (vn_attr v)))
       | Some NULL_VFS_OPS \<Rightarrow> null_stat n s
       | Some RAMFS_OPS \<Rightarrow> ramfs_stat n s)"

definition vfs_get_cwd :: "nat \<Rightarrow> fs_t \<Rightarrow> string" where
  "vfs_get_cwd i s = take (NOZA_FS_MAX_PATH - 1) (c_cwd (g_clients s ! i))"

definition new_cwd :: "vfs_client_t \<Rightarrow> string \<Rightarrow> string rc" where
  "new_cwd client path =
     (let cwd = (if path \<noteq> [] \<and> hd path = SLASH then SLASH # dropWhile (\<lambda>x. x = SLASH) path
                 else if c_cwd client = [SLASH] then SLASH # path
                 else c_cwd client @ SLASH # path)
      in if length cwd \<ge> NOZA_FS_MAX_PATH then Err ENAMETOOLONG else Ok (vfs_normalize_path cwd))"

definition vfs_set_cwd :: "nat \<Rightarrow> string \<Rightarrow> fs_t \<Rightarrow> fs_fault + unit rc \<times> fs_t" where
  "vfs_set_cwd i path s =
     bindE (vfs_resolve i path False s) (\<lambda>(r, s1).
       case r of
         Err e \<Rightarrow> Inr (Err e, s1)
       | Ok (target, _, _) \<Rightarrow> bindE (vfs_check_attr target s1) (\<lambda>ra.
           case ra of
             Err e \<Rightarrow> Inr (Err e, s1)
           | Ok attr \<Rightarrow>
               if a_mode attr AND NOZA_FS_MODE_IFMT \<noteq> NOZA_FS_MODE_IFDIR then Inr (Err ENOTDIR, s1)
               else case vfs_check_perms (c_identity (g_clients s1 ! i)) attr VFS_X_OK of
                      Err e \<Rightarrow> Inr (Err e, s1)
                    | Ok _ \<Rightarrow>
                        (case new_cwd (g_clients s1 ! i) path of
                           Err e \<Rightarrow> Inr (Err e, s1)
                         | Ok cwd \<Rightarrow> Inr (Ok (), upd_client i (\<lambda>c. c\<lparr>c_cwd := cwd, c_cwd_node := Some target\<rparr>) s1))))"

definition vfs_umask :: "nat \<Rightarrow> u32 \<Rightarrow> fs_t \<Rightarrow> u32 \<times> fs_t" where
  "vfs_umask i new_mask s =
     (umask (c_identity (g_clients s ! i)),
      if new_mask \<noteq> NOZA_FS_UMASK_KEEP
      then upd_client i (\<lambda>c. c\<lparr>c_identity := (c_identity c)\<lparr>umask := new_mask AND PERM_BITS\<rparr>\<rparr>) s else s)"

section \<open>Files\<close>

text \<open>The first free descriptor.\<close>

definition vfs_alloc_handle :: "nat option list \<Rightarrow> nat \<Rightarrow> (nat \<times> nat option list) rc" where
  "vfs_alloc_handle table h =
     (case find (\<lambda>i. table ! i = None) [0..<length table] of
        None \<Rightarrow> Err EMFILE
      | Some i \<Rightarrow> Ok (i, table[i := Some h]))"

definition get_slot :: "nat option list \<Rightarrow> int \<Rightarrow> nat rc" where
  "get_slot table fd =
     (if fd < 0 \<or> fd \<ge> int (length table) then Err EINVAL
      else case table ! nat fd of None \<Rightarrow> Err EBADF | Some h \<Rightarrow> Ok h)"

text \<open>The part of \<^verbatim>\<open>vfs_open\<close> that makes the file if it is missing.\<close>

definition final_mode :: "nat \<Rightarrow> u32 \<Rightarrow> fs_t \<Rightarrow> u32" where
  "final_mode i mode s = (if mode = 0 then 0x1A4 else mode AND PERM_BITS) AND NOT (umask (c_identity (g_clients s ! i)))"

definition open_create :: "nat \<Rightarrow> string \<Rightarrow> u32 \<Rightarrow> fs_t \<Rightarrow> fs_fault + nat rc \<times> fs_t" where
  "open_create i path mode s =
     bindE (vfs_resolve i path True s) (\<lambda>(r, s1).
       case r of
         Err e \<Rightarrow> Inr (Err e, s1)
       | Ok (_, parent, leaf) \<Rightarrow> bindE (node_ops parent s1) (\<lambda>ops.
           if ops \<noteq> Some RAMFS_OPS then Inr (Err ENOSYS, s1)
           else bindE (vfs_check_attr parent s1) (\<lambda>ra.
             case ra of
               Err e \<Rightarrow> Inr (Err e, s1)
             | Ok pattr \<Rightarrow>
                 (case vfs_check_perms (c_identity (g_clients s1 ! i)) pattr (VFS_W_OK OR VFS_X_OK) of
                    Err e \<Rightarrow> Inr (Err e, s1)
                  | Ok _ \<Rightarrow>
                      (case leaf of
                         None \<Rightarrow> Inl Uninitialised
                       | Some name \<Rightarrow> ramfs_create parent name (final_mode i mode s1) s1)))))"

definition open_node :: "nat \<Rightarrow> nat \<Rightarrow> u32 \<Rightarrow> u32 \<Rightarrow> fs_t \<Rightarrow> fs_fault + nat rc \<times> fs_t" where
  "open_node i node oflag mode s =
     bindE (vfs_check_attr node s) (\<lambda>ra.
       case ra of
         Err e \<Rightarrow> Inr (Err e, s)
       | Ok attr \<Rightarrow>
           let acc = oflag AND 3;
               required = (if acc = 0 then VFS_R_OK else if acc = 1 then VFS_W_OK else VFS_R_OK OR VFS_W_OK)
           in case vfs_check_perms (c_identity (g_clients s ! i)) attr required of
                Err e \<Rightarrow> Inr (Err e, s)
              | Ok _ \<Rightarrow> bindE (node_ops node s) (\<lambda>ops.
                  bindE (ramfs_op ops (ramfs_open node oflag (final_mode i mode s) s) s) (\<lambda>(r, s1).
                    case r of
                      Err e \<Rightarrow> Inr (Err e, s1)
                    | Ok h \<Rightarrow>
                        let s2 = upd_handle h (\<lambda>v. v\<lparr>vh_node := node, vh_flags := oflag\<rparr>) s1
                        in case vfs_alloc_handle (c_files (g_clients s2 ! i)) h of
                             Err e \<Rightarrow> Inr (Err e, s2)
                           | Ok (fd, table) \<Rightarrow> Inr (Ok fd, upd_client i (\<lambda>c. c\<lparr>c_files := table\<rparr>) s2))))"

definition vfs_open :: "nat \<Rightarrow> string \<Rightarrow> u32 \<Rightarrow> u32 \<Rightarrow> fs_t \<Rightarrow> fs_fault + nat rc \<times> fs_t" where
  "vfs_open i path oflag mode s =
     bindE (vfs_resolve i path False s) (\<lambda>(r, s1).
       case r of
         Ok (node, _, _) \<Rightarrow> open_node i node oflag mode s1
       | Err e \<Rightarrow>
           if oflag AND O_CREAT \<noteq> 0 then
             bindE (open_create i path mode s1) (\<lambda>(rn, s2).
               case rn of
                 Err e \<Rightarrow> Inr (Err e, s2)
               | Ok node \<Rightarrow> open_node i node oflag mode s2)
           else Inr (Err e, s1))"

text \<open>\<^verbatim>\<open>vfs_close\<close> and \<^verbatim>\<open>vfs_closedir\<close>: the handle is closed, if its node still belongs to a mount, and the descriptor is
  free.\<close>

definition close_handle :: "nat \<Rightarrow> fs_t \<Rightarrow> fs_fault + unit rc \<times> fs_t" where
  "close_handle h s =
     bindE (handle_at h s) (\<lambda>v. bindE (node_ops (vh_node v) s) (\<lambda>ops.
       if ops = Some RAMFS_OPS then ramfs_close h s else Inr (Ok (), s)))"

definition vfs_close :: "nat \<Rightarrow> int \<Rightarrow> fs_t \<Rightarrow> fs_fault + unit rc \<times> fs_t" where
  "vfs_close i fd s =
     (case get_slot (c_files (g_clients s ! i)) fd of
        Err e \<Rightarrow> Inr (Err e, s)
      | Ok h \<Rightarrow> bindE (close_handle h s) (\<lambda>(r, s1). Inr (r, upd_client i (\<lambda>c. c\<lparr>c_files := (c_files c)[nat fd := None]\<rparr>) s1)))"

text \<open>An operation of the file system on the handle of a descriptor.\<close>

definition with_file :: "nat \<Rightarrow> int \<Rightarrow> (nat \<Rightarrow> fs_fault + 'a rc \<times> fs_t) \<Rightarrow> fs_t \<Rightarrow> fs_fault + 'a rc \<times> fs_t" where
  "with_file i fd f s =
     (case get_slot (c_files (g_clients s ! i)) fd of
        Err e \<Rightarrow> Inr (Err e, s)
      | Ok h \<Rightarrow> bindE (handle_at h s) (\<lambda>v. bindE (node_ops (vh_node v) s) (\<lambda>ops. ramfs_op ops (f h) s)))"

definition vfs_read :: "nat \<Rightarrow> int \<Rightarrow> bool \<Rightarrow> nat \<Rightarrow> nat \<Rightarrow> fs_t \<Rightarrow> fs_fault + u8 option list rc \<times> fs_t" where
  "vfs_read i fd buf len offset s =
     (if \<not> buf then Inr (Err EINVAL, s) else with_file i fd (\<lambda>h. ramfs_read h buf len offset s) s)"

definition vfs_write :: "nat \<Rightarrow> int \<Rightarrow> (nat \<Rightarrow> u8) option \<Rightarrow> nat \<Rightarrow> nat \<Rightarrow> fs_t \<Rightarrow> fs_fault + nat rc \<times> fs_t" where
  "vfs_write i fd buf len offset s =
     (if buf = None then Inr (Err EINVAL, s) else with_file i fd (\<lambda>h. ramfs_write h buf len offset s) s)"

definition vfs_lseek :: "nat \<Rightarrow> int \<Rightarrow> int \<Rightarrow> int \<Rightarrow> fs_t \<Rightarrow> fs_fault + int rc \<times> fs_t" where
  "vfs_lseek i fd offset whence s = with_file i fd (\<lambda>h. ramfs_lseek h offset whence s) s"

definition vfs_stat_path :: "nat \<Rightarrow> string \<Rightarrow> fs_t \<Rightarrow> fs_fault + noza_fs_attr_t rc \<times> fs_t" where
  "vfs_stat_path i path s =
     bindE (vfs_resolve i path False s) (\<lambda>(r, s1).
       case r of
         Err e \<Rightarrow> Inr (Err e, s1)
       | Ok (node, _, _) \<Rightarrow> bindE (vfs_check_attr node s1) (\<lambda>ra. Inr (ra, s1)))"

definition vfs_stat_fd :: "nat \<Rightarrow> int \<Rightarrow> fs_t \<Rightarrow> fs_fault + noza_fs_attr_t rc" where
  "vfs_stat_fd i fd s =
     (case get_slot (c_files (g_clients s ! i)) fd of
        Err e \<Rightarrow> Inr (Err e)
      | Ok h \<Rightarrow> bindE (handle_at h s) (\<lambda>v. vfs_check_attr (vh_node v) s))"

section \<open>Directories and attributes\<close>

text \<open>\<^verbatim>\<open>vfs_unlink\<close> and \<^verbatim>\<open>vfs_mkdir\<close> apply an operation to the directory of the last component, which the client must be
  allowed to write and search; \<open>missing\<close> is what they return when the path is not resolved.\<close>

definition in_parent ::
    "nat \<Rightarrow> string \<Rightarrow> (u32 \<Rightarrow> unit rc) \<Rightarrow> (nat \<Rightarrow> string \<Rightarrow> fs_t \<Rightarrow> fs_fault + unit rc \<times> fs_t)
     \<Rightarrow> fs_t \<Rightarrow> fs_fault + unit rc \<times> fs_t" where
  "in_parent i path missing f s =
     bindE (vfs_resolve i path True s) (\<lambda>(r, s1).
       case r of
         Err e \<Rightarrow> Inr (missing e, s1)
       | Ok (_, parent, leaf) \<Rightarrow> bindE (node_ops parent s1) (\<lambda>ops.
           if ops \<noteq> Some RAMFS_OPS then Inr (Err ENOSYS, s1)
           else bindE (vfs_check_attr parent s1) (\<lambda>ra.
             case ra of
               Err e \<Rightarrow> Inr (Err e, s1)
             | Ok attr \<Rightarrow>
                 (case vfs_check_perms (c_identity (g_clients s1 ! i)) attr (VFS_W_OK OR VFS_X_OK) of
                    Err e \<Rightarrow> Inr (Err e, s1)
                  | Ok _ \<Rightarrow> (case leaf of None \<Rightarrow> Inl Uninitialised | Some name \<Rightarrow> f parent name s1)))))"

definition vfs_unlink :: "nat \<Rightarrow> string \<Rightarrow> fs_t \<Rightarrow> fs_fault + unit rc \<times> fs_t" where
  "vfs_unlink i path s =
     in_parent i path (\<lambda>e. if e = ENOENT then Ok () else Err e) ramfs_unlink s"

definition vfs_mkdir :: "nat \<Rightarrow> string \<Rightarrow> u32 \<Rightarrow> fs_t \<Rightarrow> fs_fault + unit rc \<times> fs_t" where
  "vfs_mkdir i path mode s =
     in_parent i path Err (\<lambda>parent name s1.
       ramfs_mkdir parent name (mode AND PERM_BITS AND NOT (umask (c_identity (g_clients s1 ! i)))) s1) s"

definition vfs_chmod :: "nat \<Rightarrow> string \<Rightarrow> u32 \<Rightarrow> fs_t \<Rightarrow> fs_fault + unit rc \<times> fs_t" where
  "vfs_chmod i path mode s =
     bindE (vfs_resolve i path False s) (\<lambda>(r, s1).
       case r of
         Err e \<Rightarrow> Inr (Err e, s1)
       | Ok (node, _, _) \<Rightarrow> bindE (node_ops node s1) (\<lambda>ops.
           if ops \<noteq> Some RAMFS_OPS then Inr (Err ENOSYS, s1)
           else bindE (vfs_check_attr node s1) (\<lambda>ra.
             case ra of
               Err e \<Rightarrow> Inr (Err e, s1)
             | Ok attr \<Rightarrow>
                 let u = uid (c_identity (g_clients s1 ! i))
                 in if u \<noteq> 0 \<and> u \<noteq> a_uid attr then Inr (Err EPERM, s1) else ramfs_chmod node mode s1)))"

definition vfs_chown :: "nat \<Rightarrow> string \<Rightarrow> u32 \<Rightarrow> u32 \<Rightarrow> fs_t \<Rightarrow> fs_fault + unit rc \<times> fs_t" where
  "vfs_chown i path u g s =
     bindE (vfs_resolve i path False s) (\<lambda>(r, s1).
       case r of
         Err e \<Rightarrow> Inr (Err e, s1)
       | Ok (node, _, _) \<Rightarrow> bindE (node_ops node s1) (\<lambda>ops.
           if ops \<noteq> Some RAMFS_OPS then Inr (Err ENOSYS, s1)
           else if uid (c_identity (g_clients s1 ! i)) \<noteq> 0 then Inr (Err EPERM, s1)
           else ramfs_chown node u g s1))"

definition vfs_opendir :: "nat \<Rightarrow> string \<Rightarrow> fs_t \<Rightarrow> fs_fault + nat rc \<times> fs_t" where
  "vfs_opendir i path s =
     bindE (vfs_resolve i path False s) (\<lambda>(r, s1).
       case r of
         Err e \<Rightarrow> Inr (Err e, s1)
       | Ok (node, _, _) \<Rightarrow> bindE (node_ops node s1) (\<lambda>ops.
           if ops \<noteq> Some RAMFS_OPS then Inr (Err ENOSYS, s1)
           else bindE (vfs_check_attr node s1) (\<lambda>ra.
             case ra of
               Err e \<Rightarrow> Inr (Err e, s1)
             | Ok attr \<Rightarrow>
                 if a_mode attr AND NOZA_FS_MODE_IFMT \<noteq> NOZA_FS_MODE_IFDIR then Inr (Err ENOTDIR, s1)
                 else case vfs_check_perms (c_identity (g_clients s1 ! i)) attr (VFS_R_OK OR VFS_X_OK) of
                        Err e \<Rightarrow> Inr (Err e, s1)
                      | Ok _ \<Rightarrow> bindE (ramfs_opendir node s1) (\<lambda>(rh, s2).
                          case rh of
                            Err e \<Rightarrow> Inr (Err e, s2)
                          | Ok h \<Rightarrow>
                              (case vfs_alloc_handle (c_dirs (g_clients s2 ! i)) h of
                                 Err e \<Rightarrow> Inr (Err e, s2)
                               | Ok (fd, table) \<Rightarrow> Inr (Ok fd, upd_client i (\<lambda>c. c\<lparr>c_dirs := table\<rparr>) s2))))))"

definition vfs_closedir :: "nat \<Rightarrow> int \<Rightarrow> fs_t \<Rightarrow> fs_fault + unit rc \<times> fs_t" where
  "vfs_closedir i fd s =
     (case get_slot (c_dirs (g_clients s ! i)) fd of
        Err e \<Rightarrow> Inr (Err e, s)
      | Ok h \<Rightarrow> bindE (close_handle h s) (\<lambda>(r, s1). Inr (r, upd_client i (\<lambda>c. c\<lparr>c_dirs := (c_dirs c)[nat fd := None]\<rparr>) s1)))"

definition vfs_readdir :: "nat \<Rightarrow> int \<Rightarrow> fs_t \<Rightarrow> fs_fault + noza_fs_dirent_t option rc \<times> fs_t" where
  "vfs_readdir i fd s =
     (case get_slot (c_dirs (g_clients s ! i)) fd of
        Err e \<Rightarrow> Inr (Err e, s)
      | Ok h \<Rightarrow> bindE (handle_at h s) (\<lambda>v. bindE (node_ops (vh_node v) s) (\<lambda>ops. ramfs_op ops (ramfs_readdir h s) s)))"

end
