(* ===== verification/Fs_Server.thy ===== *)
theory Fs_Server
  imports Vfs
begin

text \<open>
  The file service: the requests of \<^verbatim>\<open>include/noza_fs.h\<close>, their dispatch (\<^verbatim>\<open>service/fs/fs_dispatch.c\<close>) and the loop of
  \<^verbatim>\<open>service/fs/fs_main.c\<close>. The service starts with the memory file system as root; the device and launcher file
  systems that the program mounts as well are not part of the model.
\<close>

section \<open>Requests\<close>

text \<open>The requests with the fields that belong to their operation code. A path is the string up to its terminating
  zero; the buffer of a read is given by whether the pointer is not null, that of a write by the bytes at it.\<close>

datatype noza_fs_request_t =
    NOZA_FS_OPEN string u32 u32
  | NOZA_FS_CLOSE u32
  | NOZA_FS_READ u32 bool nat nat
  | NOZA_FS_WRITE u32 "(nat \<Rightarrow> u8) option" nat nat
  | NOZA_FS_LSEEK u32 int int
  | NOZA_FS_STAT string
  | NOZA_FS_FSTAT u32
  | NOZA_FS_OPENDIR string
  | NOZA_FS_READDIR u32
  | NOZA_FS_CLOSEDIR u32
  | NOZA_FS_MKDIR string u32
  | NOZA_FS_UNLINK string
  | NOZA_FS_CHDIR string
  | NOZA_FS_GETCWD
  | NOZA_FS_UMASK u32
  | NOZA_FS_CHMOD string u32
  | NOZA_FS_CHOWN string u32 u32
  | NOZA_FS_MOUNT string u32
  | NOZA_FS_UMOUNT string
  | NOZA_FS_UNKNOWN

text \<open>What the union of the response holds; \<open>R_none\<close> when it keeps its zeros. \<open>R_read\<close> also has the bytes that were copied
  to the caller's buffer.\<close>

datatype fs_payload =
    R_none
  | R_open nat
  | R_read "u8 option list"
  | R_length nat
  | R_offset int
  | R_stat noza_fs_attr_t
  | R_dir "noza_fs_dirent_t option"
  | R_cwd string
  | R_umask u32

type_synonym noza_fs_response_t = "u32 \<times> fs_payload"

definition response :: "('a \<Rightarrow> fs_payload) \<Rightarrow> fs_payload \<Rightarrow> 'a rc \<Rightarrow> noza_fs_response_t" where
  "response f err r = (case r of Err e \<Rightarrow> (e, err) | Ok a \<Rightarrow> (0, f a))"

definition reply_of :: "('a \<Rightarrow> fs_payload) \<Rightarrow> fs_payload \<Rightarrow> (fs_fault + 'a rc \<times> fs_t) \<Rightarrow> fs_fault + noza_fs_response_t \<times> fs_t" where
  "reply_of f err m = bindE m (\<lambda>(r, s). Inr (response f err r, s))"

definition map_read_write :: "nat \<Rightarrow> noza_fs_request_t \<Rightarrow> fs_t \<Rightarrow> fs_fault + noza_fs_response_t \<times> fs_t" where
  "map_read_write i req s =
     (case req of
        NOZA_FS_READ handle buf len offset \<Rightarrow> reply_of R_read (R_length 0) (vfs_read i (sint handle) buf len offset s)
      | NOZA_FS_WRITE handle buf len offset \<Rightarrow> reply_of R_length (R_length 0) (vfs_write i (sint handle) buf len offset s)
      | _ \<Rightarrow> Inr ((0, R_length 0), s))"

definition dispatch_mount :: "string \<Rightarrow> u32 \<Rightarrow> fs_t \<Rightarrow> unit rc \<times> fs_t" where
  "dispatch_mount target fs_type s =
     (if fs_type \<noteq> 0 then (Err ENODEV, s)
      else case ramfs_create_root s of
             (None, s1) \<Rightarrow> (Err ENODEV, s1)
           | (Some root, s1) \<Rightarrow> vfs_mount target RAMFS_OPS root s1)"

text \<open>The \<^verbatim>\<open>switch\<close> of \<^verbatim>\<open>fs_dispatch\<close>, for the client \<open>i\<close>.\<close>

fun fs_request :: "nat \<Rightarrow> noza_fs_request_t \<Rightarrow> fs_t \<Rightarrow> fs_fault + noza_fs_response_t \<times> fs_t" where
  "fs_request i (NOZA_FS_OPEN path oflag mode) s = reply_of R_open R_none (vfs_open i path oflag mode s)"
| "fs_request i (NOZA_FS_CLOSE handle) s = reply_of (\<lambda>_. R_none) R_none (vfs_close i (sint handle) s)"
| "fs_request i (NOZA_FS_READ handle buf len offset) s = map_read_write i (NOZA_FS_READ handle buf len offset) s"
| "fs_request i (NOZA_FS_WRITE handle buf len offset) s = map_read_write i (NOZA_FS_WRITE handle buf len offset) s"
| "fs_request i (NOZA_FS_LSEEK handle offset whence) s = reply_of R_offset (R_offset 0) (vfs_lseek i (sint handle) offset whence s)"
| "fs_request i (NOZA_FS_STAT path) s = reply_of R_stat R_none (vfs_stat_path i path s)"
| "fs_request i (NOZA_FS_FSTAT handle) s = bindE (vfs_stat_fd i (sint handle) s) (\<lambda>r. Inr (response R_stat R_none r, s))"
| "fs_request i (NOZA_FS_OPENDIR path) s = reply_of R_open R_none (vfs_opendir i path s)"
| "fs_request i (NOZA_FS_READDIR handle) s = reply_of R_dir R_none (vfs_readdir i (sint handle) s)"
| "fs_request i (NOZA_FS_CLOSEDIR handle) s = reply_of (\<lambda>_. R_none) R_none (vfs_closedir i (sint handle) s)"
| "fs_request i (NOZA_FS_MKDIR path mode) s = reply_of (\<lambda>_. R_none) R_none (vfs_mkdir i path mode s)"
| "fs_request i (NOZA_FS_UNLINK path) s = reply_of (\<lambda>_. R_none) R_none (vfs_unlink i path s)"
| "fs_request i (NOZA_FS_CHDIR path) s = reply_of (\<lambda>_. R_none) R_none (vfs_set_cwd i path s)"
| "fs_request i NOZA_FS_GETCWD s = Inr ((0, R_cwd (vfs_get_cwd i s)), s)"
| "fs_request i (NOZA_FS_UMASK new_mask) s = (let (old, s1) = vfs_umask i new_mask s in Inr ((0, R_umask old), s1))"
| "fs_request i (NOZA_FS_CHMOD path mode) s = reply_of (\<lambda>_. R_none) R_none (vfs_chmod i path mode s)"
| "fs_request i (NOZA_FS_CHOWN path u g) s = reply_of (\<lambda>_. R_none) R_none (vfs_chown i path u g s)"
| "fs_request i (NOZA_FS_MOUNT target fs_type) s = reply_of (\<lambda>_. R_none) R_none (Inr (dispatch_mount target fs_type s))"
| "fs_request i (NOZA_FS_UMOUNT path) s = reply_of (\<lambda>_. R_none) R_none (Inr (vfs_umount path s))"
| "fs_request i NOZA_FS_UNKNOWN s = Inr ((EINVAL, R_none), s)"

definition fs_dispatch ::
    "(u32 \<Rightarrow> bool) \<Rightarrow> u32 \<Rightarrow> noza_identity_t \<Rightarrow> noza_fs_request_t \<Rightarrow> fs_t \<Rightarrow> fs_fault + noza_fs_response_t \<times> fs_t" where
  "fs_dispatch alive sender ident req s =
     bindE (vfs_client_for_vid alive sender ident s) (\<lambda>(client, s1).
       case client of
         None \<Rightarrow> Inr ((ENOMEM, R_none), s1)
       | Some i \<Rightarrow> bindE (fs_request i req (s1\<lparr>g_current_client := Some i\<rparr>)) (\<lambda>(resp, s2).
           Inr (resp, s2\<lparr>g_current_client := None\<rparr>)))"

text \<open>A request needs 536 bytes and a response 264. The response overwrites the request; \<open>None\<close> when the message is too
  short for a response of any kind.\<close>

definition handle_fs_call ::
    "(u32 \<Rightarrow> bool) \<Rightarrow> u32 \<Rightarrow> noza_identity_t \<Rightarrow> nat \<Rightarrow> noza_fs_request_t \<Rightarrow> fs_t \<Rightarrow> fs_fault + noza_fs_response_t option \<times> fs_t" where
  "handle_fs_call alive sender ident room req s =
     (if room < 536 then Inr (if room \<ge> 4 then Some (EMSGSIZE, R_none) else None, s)
      else bindE (fs_dispatch alive sender ident req s) (\<lambda>(resp, s1). Inr (Some resp, s1)))"

text \<open>\<^verbatim>\<open>ramfs_init\<close>, after \<^verbatim>\<open>vfs_init\<close>.\<close>

definition ramfs_init :: "fs_t \<Rightarrow> fs_fault + fs_t" where
  "ramfs_init s =
     (let s1 = vfs_set_root RAMFS_OPS G_RAMFS_ROOT (s\<lparr>nodes := (nodes s)(G_RAMFS_ROOT \<mapsto> root_node G_RAMFS_ROOT None)\<rparr>)
      in bindE (ramfs_mkdir G_RAMFS_ROOT ''dev'' 0x1ED s1) (\<lambda>(_, s2).
         bindE (ramfs_mkdir G_RAMFS_ROOT ''sbin'' 0x1ED s2) (\<lambda>(_, s3).
         bindE (ramfs_child G_RAMFS_ROOT ''sbin'' s3) (\<lambda>r.
           case r of
             None \<Rightarrow> Inr s3
           | Some sbin \<Rightarrow> bindE (ramfs_child sbin ''shell'' s3) (\<lambda>c.
               case c of
                 Some _ \<Rightarrow> Inr s3
               | None \<Rightarrow>
                   (case ramfs_new_node ''shell'' 0x1ED 0 0 False s3 of
                      (None, s4) \<Rightarrow> Inr s4
                    | (Some n, s4) \<Rightarrow> Inr (ramfs_insert_child sbin n s4)))))))"

definition fs_start :: "(nat \<Rightarrow> bool) \<Rightarrow> fs_fault + fs_t" where
  "fs_start mem = ramfs_init (vfs_init mem)"

end
