(* ===== verification/Ramfs_Inv.thy ===== *)
theory Ramfs_Inv
  imports Ramfs
begin

text \<open>
  The invariant \<open>ramfs_ok\<close> of the memory file system says that the nodes form trees: no node is in two directories,
  only directories have entries, names in a directory differ, parent pointers lead back, and no file is longer than its
  buffer. Every operation keeps it and does not fault, for files of up to \<open>2 ^ 31\<close> bytes. Directories refine finite maps
  from names to nodes (\<open>entries\<close>), files refine sequences of bytes.
\<close>

section \<open>The invariant\<close>

text \<open>Capacities are zero or a power of two, from 64 to \<open>2 ^ 31\<close>.\<close>

definition cap_ok :: "nat \<Rightarrow> bool" where
  "cap_ok c \<longleftrightarrow> c = 0 \<or> (\<exists>k \<le> 25. c = 64 * 2 ^ k)"

definition node_ok :: "(nat \<Rightarrow> ramfs_node_t option) \<Rightarrow> nat \<Rightarrow> ramfs_node_t \<Rightarrow> bool" where
  "node_ok N n v \<longleftrightarrow>
     distinct (rn_child v) \<and> (\<forall>c \<in> set (rn_child v). N c \<noteq> None) \<and> (rn_child v \<noteq> [] \<longrightarrow> is_dir v)
     \<and> (\<forall>p. vn_parent v = Some p \<longrightarrow> p = n \<or> (\<exists>w. N p = Some w \<and> n \<in> set (rn_child w)))
     \<and> rn_size v \<le> length (rn_data v) \<and> cap_ok (length (rn_data v)) \<and> length (rn_name v) < NOZA_FS_MAX_NAME"

definition name_of :: "(nat \<Rightarrow> ramfs_node_t option) \<Rightarrow> nat \<Rightarrow> string" where
  "name_of N c = (case N c of Some v \<Rightarrow> rn_name v | None \<Rightarrow> [])"

definition tree_ok :: "(nat \<Rightarrow> ramfs_node_t option) \<Rightarrow> bool" where
  "tree_ok N \<longleftrightarrow>
     (\<forall>n v. N n = Some v \<longrightarrow> node_ok N n v \<and> inj_on (name_of N) (set (rn_child v)))
     \<and> (\<forall>n m v w c. N n = Some v \<longrightarrow> N m = Some w \<longrightarrow> c \<in> set (rn_child v) \<longrightarrow> c \<in> set (rn_child w) \<longrightarrow> n = m)"

definition ramfs_ok :: "fs_t \<Rightarrow> bool" where
  "ramfs_ok s \<longleftrightarrow> tree_ok (nodes s) \<and> 2 \<le> brk s \<and> (\<forall>n \<ge> brk s. nodes s n = None \<and> handles s n = None)"

text \<open>What operations leave alone: mounts, clients, allocated nodes and handles; directories only get new entries.\<close>

definition keeps :: "fs_t \<Rightarrow> fs_t \<Rightarrow> bool" where
  "keeps s s' \<longleftrightarrow>
     g_root_mount s' = g_root_mount s \<and> mount_pool s' = mount_pool s \<and> g_mounts s' = g_mounts s
     \<and> g_clients s' = g_clients s \<and> g_current_client s' = g_current_client s \<and> brk s \<le> brk s'
     \<and> (\<forall>n. nodes s n \<noteq> None \<longrightarrow> nodes s' n \<noteq> None)
     \<and> (\<forall>n v' c. nodes s' n = Some v' \<longrightarrow> c \<in> set (rn_child v') \<longrightarrow> c < brk s \<longrightarrow> (\<exists>v. nodes s n = Some v \<and> c \<in> set (rn_child v)))
     \<and> (\<forall>h v. handles s h = Some v \<longrightarrow> (\<exists>v'. handles s' h = Some v' \<and> vh_node v' = vh_node v \<and> rh_node v' = rh_node v))"

lemma keeps_refl [simp]: "keeps s s"
  by (simp add: keeps_def)

lemma keeps_trans:
  assumes "keeps s s'" "keeps s' s''"
  shows "keeps s s''"
proof -
  have "\<exists>v. nodes s n = Some v \<and> c \<in> set (rn_child v)" if c: "nodes s'' n = Some v''" "c \<in> set (rn_child v'')" "c < brk s" for n v'' c
  proof -
    have "c < brk s'" using assms(1) c(3) by (simp add: keeps_def)
    then obtain v' where "nodes s' n = Some v'" "c \<in> set (rn_child v')" using assms(2) c(1,2) unfolding keeps_def by blast
    then show ?thesis using assms(1) c(3) unfolding keeps_def by blast
  qed
  moreover have "\<exists>v'. handles s'' h = Some v' \<and> vh_node v' = vh_node v \<and> rh_node v' = rh_node v" if h: "handles s h = Some v" for h v
  proof -
    obtain v' where v': "handles s' h = Some v'" "vh_node v' = vh_node v" "rh_node v' = rh_node v"
      using assms(1) h unfolding keeps_def by blast
    then obtain v'' where "handles s'' h = Some v''" "vh_node v'' = vh_node v'" "rh_node v'' = rh_node v'"
      using assms(2) unfolding keeps_def by blast
    with v' show ?thesis by simp
  qed
  ultimately show ?thesis using assms unfolding keeps_def by simp
qed

section \<open>The memory\<close>

lemma node_at_simps [simp]:
  "nodes s n = Some v \<Longrightarrow> node_at n s = Inr v" "nodes s n = None \<Longrightarrow> node_at n s = Inl Use_after_free"
  by (simp_all add: node_at_def)

lemma handle_at_simps [simp]:
  "handles s h = Some v \<Longrightarrow> handle_at h s = Inr v" "handles s h = None \<Longrightarrow> handle_at h s = Inl Use_after_free"
  by (simp_all add: handle_at_def)

lemma upd_node_simps [simp]:
  "nodes (upd_node n f s) = (nodes s)(n := map_option f (nodes s n))" "handles (upd_node n f s) = handles s"
  "brk (upd_node n f s) = brk s" "mem_ok (upd_node n f s) = mem_ok s" "g_root_mount (upd_node n f s) = g_root_mount s"
  "mount_pool (upd_node n f s) = mount_pool s" "g_mounts (upd_node n f s) = g_mounts s"
  "g_clients (upd_node n f s) = g_clients s" "g_current_client (upd_node n f s) = g_current_client s"
  by (simp_all add: upd_node_def)

lemma upd_handle_simps [simp]:
  "nodes (upd_handle h f s) = nodes s" "handles (upd_handle h f s) = (handles s)(h := map_option f (handles s h))"
  "brk (upd_handle h f s) = brk s" "mem_ok (upd_handle h f s) = mem_ok s" "g_root_mount (upd_handle h f s) = g_root_mount s"
  "mount_pool (upd_handle h f s) = mount_pool s" "g_mounts (upd_handle h f s) = g_mounts s"
  "g_clients (upd_handle h f s) = g_clients s" "g_current_client (upd_handle h f s) = g_current_client s"
  by (simp_all add: upd_handle_def)

lemma tree_node: "tree_ok N \<Longrightarrow> N n = Some v \<Longrightarrow> node_ok N n v"
  by (simp add: tree_ok_def)

lemma ramfs_tree: "ramfs_ok s \<Longrightarrow> tree_ok (nodes s)"
  by (simp add: ramfs_ok_def)

lemma fresh: "ramfs_ok s \<Longrightarrow> nodes s (brk s) = None" "ramfs_ok s \<Longrightarrow> handles s (brk s) = None"
  "ramfs_ok s \<Longrightarrow> nodes s n = Some v \<Longrightarrow> n < brk s" "ramfs_ok s \<Longrightarrow> handles s n = Some w \<Longrightarrow> n < brk s"
  unfolding ramfs_ok_def by (auto simp: not_less [symmetric])

lemma alloc_keeps:
  assumes "ramfs_ok s" "alloc s = (r, s')"
  shows "ramfs_ok s'" and "keeps s s'" and "nodes s' = nodes s" and "handles s' = handles s" and "g_clients s' = g_clients s"
    and "r = Some n \<Longrightarrow> n = brk s" and "brk s' = Suc (brk s)"
  using assms by (auto simp: alloc_def ramfs_ok_def keeps_def split: if_splits)

section \<open>Changing trees\<close>

text \<open>The contents, attributes or parent pointer of a node change.\<close>

lemma tree_content:
  assumes t: "tree_ok N" and v: "N n = Some v"
    and c: "rn_child v' = rn_child v" "rn_name v' = rn_name v" "is_dir v' = is_dir v"
    and p: "\<And>p. vn_parent v' = Some p \<Longrightarrow> vn_parent v = Some p \<or> (\<exists>w. N p = Some w \<and> n \<in> set (rn_child w)) \<or> p = n"
    and d: "rn_size v' \<le> length (rn_data v')" "cap_ok (length (rn_data v'))"
  shows "tree_ok (N(n \<mapsto> v'))" (is "tree_ok ?N")
proof -
  have ch: "\<exists>u. N m = Some u \<and> rn_child u = rn_child w" if "?N m = Some w" for m w using that v c by (cases "m = n") auto
  have hc: "\<exists>u. ?N m = Some u \<and> rn_child u = rn_child w" if "N m = Some w" for m w using that v c by (cases "m = n") auto
  have nm: "name_of ?N = name_of N" using v c by (auto simp: name_of_def fun_eq_iff)
  note vn = tree_node [OF t v]
  have "node_ok ?N m w" if m: "?N m = Some w" for m w
  proof (cases "m = n")
    case True
    then have w: "w = v'" using m by simp
    have "p = n \<or> (\<exists>u. ?N p = Some u \<and> n \<in> set (rn_child u))" if "vn_parent v' = Some p" for p
    proof -
      have "(\<exists>w. N p = Some w \<and> n \<in> set (rn_child w)) \<or> p = n" using p [OF that] vn by (auto simp: node_ok_def)
      then show ?thesis using hc by metis
    qed
    then show ?thesis using vn c d unfolding node_ok_def True w by (auto simp: v)
  next
    case False
    then have "N m = Some w" using m by simp
    note mw = tree_node [OF t this]
    have "p = m \<or> (\<exists>u. ?N p = Some u \<and> m \<in> set (rn_child u))" if "vn_parent w = Some p" for p
      using mw that hc unfolding node_ok_def by metis
    then show ?thesis using mw unfolding node_ok_def by (auto simp: v)
  qed
  moreover have "inj_on (name_of ?N) (set (rn_child w))" if "?N m = Some w" for m w
    using ch [OF that] t unfolding nm tree_ok_def by metis
  moreover have "m = m'" if "?N m = Some w" "?N m' = Some w'" "x \<in> set (rn_child w)" "x \<in> set (rn_child w')" for m m' w w' x
    using ch [OF that(1)] ch [OF that(2)] that(3,4) t unfolding tree_ok_def by metis
  ultimately show ?thesis unfolding tree_ok_def by blast
qed

text \<open>A new node without entries is put into a directory.\<close>

lemma tree_insert:
  assumes t: "tree_ok N" and f: "N n = None" and d: "N d = Some dv" "is_dir dv"
    and v: "rn_child v = []" "vn_parent v = None" "rn_size v = 0" "rn_data v = []" "length (rn_name v) < NOZA_FS_MAX_NAME"
    and nm: "\<forall>c \<in> set (rn_child dv). name_of N c \<noteq> rn_name v"
  shows "tree_ok (N(n \<mapsto> v, d \<mapsto> dv\<lparr>rn_child := n # rn_child dv\<rparr>))" (is "tree_ok ?N")
proof -
  have nd: "n \<noteq> d" using f d by auto
  have nc: "n \<notin> set (rn_child w)" if "N m = Some w" for m w using tree_node [OF t that] f by (auto simp: node_ok_def)
  have old: "\<exists>u. N m = Some u \<and> set (rn_child w) = (if m = d then insert n (set (rn_child u)) else set (rn_child u))"
    if "?N m = Some w" "m \<noteq> n" for m w using that d by (auto split: if_splits)
  have par: "\<exists>u. ?N p = Some u \<and> x \<in> set (rn_child u)" if "N p = Some w" "x \<in> set (rn_child w)" for p w x
    using that d f nd by (cases "p = d") auto
  have name: "name_of ?N c = name_of N c" if "c \<noteq> n" for c using that d by (auto simp: name_of_def)
  have nmn: "name_of ?N n = rn_name v" using nd by (simp add: name_of_def)
  have "node_ok ?N m w" if m: "?N m = Some w" for m w
  proof -
    consider "m = n" | "m = d" | "m \<noteq> n" "m \<noteq> d" by blast
    then show ?thesis
    proof cases
      case 1
      then show ?thesis using m v nd by (simp add: node_ok_def cap_ok_def)
    next
      case 2
      note dn = tree_node [OF t d(1)]
      have "p = d \<or> (\<exists>u. ?N p = Some u \<and> d \<in> set (rn_child u))" if "vn_parent dv = Some p" for p
        using dn that par unfolding node_ok_def by metis
      then show ?thesis using 2 m dn nc [OF d(1)] d(2) nd by (auto simp: node_ok_def is_dir_def)
    next
      case 3
      then have "N m = Some w" using m by simp
      note mw = tree_node [OF t this]
      have "p = m \<or> (\<exists>u. ?N p = Some u \<and> m \<in> set (rn_child u))" if "vn_parent w = Some p" for p
        using mw that par unfolding node_ok_def by metis
      then show ?thesis using mw unfolding node_ok_def by auto
    qed
  qed
  moreover have "inj_on (name_of ?N) (set (rn_child w))" if m: "?N m = Some w" for m w
  proof (cases "m = n")
    case False
    from old [OF m this] obtain u where u: "N m = Some u" "set (rn_child w) = (if m = d then insert n (set (rn_child u)) else set (rn_child u))" by blast
    have inj: "inj_on (name_of N) (set (rn_child u))" using t u(1) by (simp add: tree_ok_def)
    have e: "name_of ?N c = name_of N c" if "c \<in> set (rn_child u)" for c using name [of c] that nc [OF u(1)] by metis
    have i: "inj_on (name_of ?N) (set (rn_child u))" by (rule inj_on_cong [OF e, THEN iffD2, OF _ inj])
    show ?thesis
    proof (cases "m = d")
      case True
      then have "u = dv" using u(1) d(1) by simp
      then have "rn_name v \<noteq> name_of ?N c" if "c \<in> set (rn_child u)" for c using e [OF that] nm that by auto
      then have "name_of ?N n \<notin> name_of ?N ` (set (rn_child u) - {n})" unfolding nmn by blast
      then show ?thesis using u(2) i True unfolding inj_on_insert by simp
    next
      case False
      then show ?thesis using u(2) i by simp
    qed
  qed (use m v nd in auto)
  moreover have "m = m'" if m: "?N m = Some w" "?N m' = Some w'" "x \<in> set (rn_child w)" "x \<in> set (rn_child w')" for m m' w w' x
  proof -
    have ne: "m \<noteq> n" "m' \<noteq> n" using m v nd by auto
    obtain u u' where u: "N m = Some u" "set (rn_child w) = (if m = d then insert n (set (rn_child u)) else set (rn_child u))"
      "N m' = Some u'" "set (rn_child w') = (if m' = d then insert n (set (rn_child u')) else set (rn_child u'))"
      using old [OF m(1) ne(1)] old [OF m(2) ne(2)] by blast
    show ?thesis
    proof (cases "x = n")
      case True
      then show ?thesis using m(3,4) u nc [OF u(1)] nc [OF u(3)] by (auto split: if_splits)
    next
      case False
      then have "x \<in> set (rn_child u)" "x \<in> set (rn_child u')" using m(3,4) u by (auto split: if_splits)
      then show ?thesis using t u(1,3) unfolding tree_ok_def by blast
    qed
  qed
  ultimately show ?thesis unfolding tree_ok_def by blast
qed

text \<open>A new root.\<close>

lemma tree_root:
  assumes t: "tree_ok N" and f: "N n = None"
  shows "tree_ok (N(n \<mapsto> root_node n mnt))" (is "tree_ok ?N")
proof -
  let ?r = "root_node n mnt"
  have nc: "n \<notin> set (rn_child w)" if "N m = Some w" for m w using tree_node [OF t that] f by (auto simp: node_ok_def)
  have par: "\<exists>u. ?N p = Some u \<and> x \<in> set (rn_child u)" if "N p = Some w" "x \<in> set (rn_child w)" for p w x
    using that f by auto
  have name: "name_of ?N x = name_of N x" if "x \<noteq> n" for x using that by (simp add: name_of_def)
  have r: "node_ok ?N n ?r" "rn_child ?r = []" by (auto simp: node_ok_def root_node_def cap_ok_def is_dir_def)
  have "node_ok ?N m w \<and> inj_on (name_of ?N) (set (rn_child w))" if m: "N m = Some w" for m w
  proof -
    note mw = tree_node [OF t m]
    have p: "p = m \<or> (\<exists>u. ?N p = Some u \<and> m \<in> set (rn_child u))" if "vn_parent w = Some p" for p
      using mw that par unfolding node_ok_def by metis
    have e: "name_of ?N x = name_of N x" if "x \<in> set (rn_child w)" for x using name [of x] nc [OF m] that by metis
    have "inj_on (name_of N) (set (rn_child w))" using t m by (simp add: tree_ok_def)
    from inj_on_cong [OF e, THEN iffD2, OF _ this] mw p show ?thesis unfolding node_ok_def by auto
  qed
  moreover have "m = m'" if "N m = Some w" "N m' = Some w'" "x \<in> set (rn_child w)" "x \<in> set (rn_child w')" for m m' w w' x
    using t that unfolding tree_ok_def by blast
  ultimately show ?thesis using r f unfolding tree_ok_def by (simp add: all_conj_distrib)
qed

text \<open>A node without entries is taken out of its directory and freed.\<close>

lemma tree_unlink:
  assumes t: "tree_ok N" and d: "N d = Some dv" and c: "c \<in> set (rn_child dv)" "N c = Some cv" "rn_child cv = []"
  shows "tree_ok (N(d \<mapsto> dv\<lparr>rn_child := remove1 c (rn_child dv)\<rparr>, c := None))" (is "tree_ok ?N")
proof -
  have cd: "c \<noteq> d" using c d by auto
  have dist: "distinct (rn_child dv)" using tree_node [OF t d] by (simp add: node_ok_def)
  have old: "\<exists>u. N m = Some u \<and> rn_child w = (if m = d then remove1 c (rn_child u) else rn_child u) \<and> m \<noteq> c"
    if "?N m = Some w" for m w using that d by (auto split: if_splits)
  have c1: "c \<notin> set (rn_child w)" if "?N m = Some w" for m w
  proof -
    from old [OF that] obtain u where u: "N m = Some u" "rn_child w = (if m = d then remove1 c (rn_child u) else rn_child u)" by blast
    show ?thesis
    proof (cases "m = d")
      case True
      then show ?thesis using u d dist by auto
    next
      case False
      then show ?thesis using u t c(1) d unfolding tree_ok_def by metis
    qed
  qed
  have sub: "set (rn_child w) \<subseteq> set (rn_child u)" if "?N m = Some w" "N m = Some u" for m w u
    using old [OF that(1)] that(2) by (auto dest: set_remove1_subset [THEN subsetD] split: if_splits)
  have name: "name_of ?N x = name_of N x" if "x \<noteq> c" for x using that d by (auto simp: name_of_def)
  have par: "\<exists>u. ?N p = Some u \<and> x \<in> set (rn_child u)" if "N p = Some w" "x \<in> set (rn_child w)" "x \<noteq> c" for p w x
    using that d c cd by (cases "p = d"; cases "p = c") (auto simp: in_set_remove1)
  have "node_ok ?N m w" if m: "?N m = Some w" for m w
  proof -
    from old [OF m] obtain u where u: "N m = Some u" "rn_child w = (if m = d then remove1 c (rn_child u) else rn_child u)" "m \<noteq> c" by blast
    note un = tree_node [OF t u(1)]
    have "p = m \<or> (\<exists>x. ?N p = Some x \<and> m \<in> set (rn_child x))" if "vn_parent u = Some p" for p
      using un that par u(3) unfolding node_ok_def by metis
    moreover have "vn_parent w = vn_parent u" "vn_attr w = vn_attr u" "rn_size w = rn_size u" "rn_data w = rn_data u" "rn_name w = rn_name u"
      using m u d by (auto split: if_splits)
    moreover have "?N x \<noteq> None" if "x \<in> set (rn_child w)" for x
      using sub [OF m u(1)] that un c1 [OF m] d by (auto simp: node_ok_def)
    moreover have "distinct (rn_child w)" "rn_child w \<noteq> [] \<longrightarrow> is_dir u" using u un by (auto simp: node_ok_def)
    ultimately show ?thesis using un unfolding node_ok_def is_dir_def by simp
  qed
  moreover have "inj_on (name_of ?N) (set (rn_child w))" if m: "?N m = Some w" for m w
  proof -
    from old [OF m] obtain u where u: "N m = Some u" by blast
    have "inj_on (name_of N) (set (rn_child u))" using t u unfolding tree_ok_def by blast
    then have inj: "inj_on (name_of N) (set (rn_child w))" using sub [OF m u] by (rule inj_on_subset)
    have e: "name_of ?N x = name_of N x" if "x \<in> set (rn_child w)" for x using name [of x] c1 [OF m] that by metis
    show ?thesis by (rule inj_on_cong [OF e, THEN iffD2, OF _ inj])
  qed
  moreover have "m = m'" if m: "?N m = Some w" "?N m' = Some w'" "x \<in> set (rn_child w)" "x \<in> set (rn_child w')" for m m' w w' x
  proof -
    obtain u u' where u: "N m = Some u" "N m' = Some u'" using old [OF m(1)] old [OF m(2)] by blast
    have "x \<in> set (rn_child u)" "x \<in> set (rn_child u')" using sub [OF m(1) u(1)] sub [OF m(2) u(2)] m(3,4) by blast+
    then show ?thesis using t u unfolding tree_ok_def by blast
  qed
  ultimately show ?thesis unfolding tree_ok_def by blast
qed

section \<open>Every operation keeps the invariant\<close>

lemma find_name:
  assumes "\<forall>c \<in> set cs. nodes s c \<noteq> None \<and> length (name_of (nodes s) c) < NOZA_FS_MAX_NAME" "length name < NOZA_FS_MAX_NAME"
  shows "child_loop cs name s = Inr (find (\<lambda>c. name_of (nodes s) c = name) cs)"
  using assms
proof (induction cs)
  case (Cons c cs)
  then obtain v where v: "nodes s c = Some v" by auto
  then have "take NOZA_FS_MAX_NAME (rn_name v) = name_of (nodes s) c" "take NOZA_FS_MAX_NAME name = name"
    using Cons.prems by (simp_all add: name_of_def)
  then show ?case using Cons v by simp
qed simp

lemma child_find:
  assumes "ramfs_ok s" "nodes s d = Some dv" "length name < NOZA_FS_MAX_NAME"
  shows "child_loop (rn_child dv) name s = Inr (find (\<lambda>c. name_of (nodes s) c = name) (rn_child dv))"
    and "ramfs_child d name s = Inr (find (\<lambda>c. name_of (nodes s) c = name) (rn_child dv))"
proof -
  have "nodes s c \<noteq> None \<and> length (name_of (nodes s) c) < NOZA_FS_MAX_NAME" if "c \<in> set (rn_child dv)" for c
  proof -
    have "nodes s c \<noteq> None" using tree_node [OF ramfs_tree [OF assms(1)] assms(2)] that by (simp add: node_ok_def)
    then obtain v where v: "nodes s c = Some v" by auto
    then show ?thesis using tree_node [OF ramfs_tree [OF assms(1)] v] by (simp add: node_ok_def name_of_def)
  qed
  then show "child_loop (rn_child dv) name s = Inr (find (\<lambda>c. name_of (nodes s) c = name) (rn_child dv))"
    using find_name assms(3) by blast
  then show "ramfs_child d name s = Inr (find (\<lambda>c. name_of (nodes s) c = name) (rn_child dv))"
    using assms(2) by (simp add: ramfs_child_def)
qed

text \<open>A directory as a finite map.\<close>

definition entries :: "fs_t \<Rightarrow> nat \<Rightarrow> string \<Rightarrow> nat option" where
  "entries s d name = Option.bind (nodes s d) (\<lambda>v. find (\<lambda>c. name_of (nodes s) c = name) (rn_child v))"

lemma lookup_entries:
  assumes "ramfs_ok s" "nodes s d = Some dv" "length name < NOZA_FS_MAX_NAME"
  shows "ramfs_lookup d name s = Inr (if is_dir dv then (case entries s d name of None \<Rightarrow> Err ENOENT | Some c \<Rightarrow> Ok c) else Err ENOTDIR)"
  using assms child_find(2) [OF assms] by (simp add: ramfs_lookup_def entries_def)

lemma entries_node:
  assumes "ramfs_ok s" "entries s d name = Some c"
  shows "\<exists>dv v. nodes s d = Some dv \<and> c \<in> set (rn_child dv) \<and> nodes s c = Some v \<and> rn_name v = name"
proof -
  obtain dv where d: "nodes s d = Some dv" "find (\<lambda>c. name_of (nodes s) c = name) (rn_child dv) = Some c"
    using assms(2) by (auto simp: entries_def bind_eq_Some_conv)
  then have c: "c \<in> set (rn_child dv)" "name_of (nodes s) c = name" using find_split [OF d(2)] by simp_all
  then have "nodes s c \<noteq> None" using tree_node [OF ramfs_tree [OF assms(1)] d(1)] by (simp add: node_ok_def)
  then obtain v where "nodes s c = Some v" by auto
  then show ?thesis using d c by (auto simp: name_of_def)
qed

text \<open>Changes of a node other than in its entries, name and type.\<close>

lemma content_ok:
  assumes ok: "ramfs_ok s" and v: "nodes s n = Some v"
    and c: "rn_child v' = rn_child v" "rn_name v' = rn_name v" "is_dir v' = is_dir v"
    and p: "\<And>p. vn_parent v' = Some p \<Longrightarrow> vn_parent v = Some p \<or> (\<exists>w. nodes s p = Some w \<and> n \<in> set (rn_child w)) \<or> p = n"
    and d: "rn_size v' \<le> length (rn_data v')" "cap_ok (length (rn_data v'))"
    and f: "f v = v'"
  shows "ramfs_ok (upd_node n f s)" and "keeps s (upd_node n f s)"
proof -
  have e: "nodes (upd_node n f s) = (nodes s)(n \<mapsto> v')" using v f by simp
  have "tree_ok ((nodes s)(n \<mapsto> v'))" by (rule tree_content [OF ramfs_tree [OF ok] v c p d])
  then show "ramfs_ok (upd_node n f s)" using ok v unfolding ramfs_ok_def e by auto
  show "keeps s (upd_node n f s)" using v c(1) unfolding keeps_def e by auto
qed

lemma handle_ok:
  assumes "ramfs_ok s" "\<And>v. vh_node (f v) = vh_node v \<and> rh_node (f v) = rh_node v"
  shows "ramfs_ok (upd_handle h f s)" and "keeps s (upd_handle h f s)"
  using assms by (auto simp: ramfs_ok_def keeps_def)

lemma mode_type: "(m AND NOZA_FS_MODE_IFMT OR x AND PERM_BITS) AND NOZA_FS_MODE_IFMT = m AND NOZA_FS_MODE_IFMT"
proof -
  have "PERM_BITS AND NOZA_FS_MODE_IFMT = 0" by simp
  then show ?thesis by (simp add: bit.conj_disj_distrib2 and.assoc)
qed

lemma attr_ok:
  assumes ok: "ramfs_ok s" and v: "nodes s n = Some v" and f: "f v = v\<lparr>vn_attr := a\<rparr>"
    and m: "a_mode a AND NOZA_FS_MODE_IFMT = a_mode (vn_attr v) AND NOZA_FS_MODE_IFMT"
  shows "ramfs_ok (upd_node n f s)" and "keeps s (upd_node n f s)"
proof -
  have "rn_size v \<le> length (rn_data v)" "cap_ok (length (rn_data v))"
    using tree_node [OF ramfs_tree [OF ok] v] by (simp_all add: node_ok_def)
  note c = content_ok [OF ok v, of "v\<lparr>vn_attr := a\<rparr>" f]
  show "ramfs_ok (upd_node n f s)" by (rule c(1)) (use f m \<open>rn_size v \<le> _\<close> \<open>cap_ok _\<close> in \<open>simp_all add: is_dir_def\<close>)
  show "keeps s (upd_node n f s)" by (rule c(2)) (use f m \<open>rn_size v \<le> _\<close> \<open>cap_ok _\<close> in \<open>simp_all add: is_dir_def\<close>)
qed

lemma chmod_ok:
  assumes "ramfs_ok s" "nodes s n = Some v"
  shows "ok (ramfs_chmod n mode s) (\<lambda>(r, s'). r = Ok () \<and> ramfs_ok s' \<and> keeps s s')"
  using assms(2) attr_ok [OF assms] by (simp add: ramfs_chmod_def mode_type)

lemma chown_ok:
  assumes "ramfs_ok s" "nodes s n = Some v"
  shows "ok (ramfs_chown n u g s) (\<lambda>(r, s'). r = Ok () \<and> ramfs_ok s' \<and> keeps s s')"
  using assms(2) attr_ok [OF assms] by (simp add: ramfs_chown_def)

text \<open>The loop over capacities ends for up to \<open>2 ^ 31\<close> bytes, and only then.\<close>

lemma cap_loop_ends:
  assumes "k \<le> 25" "needed \<le> 2 ^ 31" "26 \<le> k + fuel"
  shows "\<exists>j. j \<le> 25 \<and> cap_loop fuel (64 * 2 ^ k) needed = Inr (64 * 2 ^ j) \<and> needed \<le> 64 * 2 ^ j \<and> k \<le> j"
  using assms(1,3)
proof (induction fuel arbitrary: k)
  case (Suc fuel)
  show ?case
  proof (cases "64 * 2 ^ k < needed")
    case True
    then have "(64 :: nat) * 2 ^ k < 64 * 2 ^ 25" using assms(2) by simp
    then have "(2 :: nat) ^ k < 2 ^ 25" by (simp only: mult_less_cancel1)
    then have k: "k < 25" by (simp only: power_strict_increasing_iff)
    then have "(2 :: nat) ^ Suc k \<le> 2 ^ 25" by (intro power_increasing) simp_all
    then have "w32 (64 * 2 ^ k * 2) = 64 * 2 ^ Suc k" by simp
    moreover obtain j where "j \<le> 25" "cap_loop fuel (64 * 2 ^ Suc k) needed = Inr (64 * 2 ^ j)" "needed \<le> 64 * 2 ^ j" "Suc k \<le> j"
      using Suc.IH [of "Suc k"] Suc.prems k by auto
    ultimately show ?thesis using True by (intro exI [of _ j]) (simp only: cap_loop.simps if_True, simp)
  next
    case False
    then show ?thesis using Suc.prems by (intro exI [of _ k]) simp
  qed
qed simp

lemma cap_loop_hangs:
  assumes "2 ^ 31 < needed" "cap_ok c"
  shows "cap_loop fuel c needed = Inl Endless_loop"
  using assms(2)
proof (induction fuel arbitrary: c)
  case (Suc fuel)
  have "c \<le> 2 ^ 31 \<and> cap_ok (w32 (c * 2))"
  proof (cases "c = 0")
    case False
    then obtain k where k: "k \<le> 25" "c = 64 * 2 ^ k" using Suc.prems by (auto simp: cap_ok_def)
    have "(2 :: nat) ^ k \<le> 2 ^ 25" using k(1) by (intro power_increasing) simp_all
    then have c31: "c \<le> 2 ^ 31" using k(2) by simp
    show ?thesis
    proof (cases "k = 25")
      case True
      then show ?thesis using k by (simp add: cap_ok_def)
    next
      case False
      then have "(2 :: nat) ^ Suc k \<le> 2 ^ 25" using k(1) by (intro power_increasing) simp_all
      then have "w32 (c * 2) = 64 * 2 ^ Suc k" using k by simp
      moreover have "Suc k \<le> 25" using k False by simp
      ultimately show ?thesis using c31 unfolding cap_ok_def by blast
    qed
  qed (simp add: cap_ok_def)
  then show ?case using assms(1) Suc.IH by simp
qed simp

lemma cap_start:
  assumes "cap_ok c" "c < needed" "needed \<le> 2 ^ 31"
  shows "\<exists>k \<le> 25. (if c \<noteq> 0 then w32 (c * 2) else 64) = 64 * 2 ^ k"
proof (cases "c = 0")
  case False
  then obtain j where j: "j \<le> 25" "c = 64 * 2 ^ j" using assms(1) unfolding cap_ok_def by blast
  have "j \<noteq> 25" using assms(2,3) j by auto
  then have k: "Suc j \<le> 25" using j(1) by simp
  then have "(2 :: nat) ^ Suc j \<le> 2 ^ 25" by (intro power_increasing) simp_all
  then have "w32 (c * 2) = 64 * 2 ^ Suc j" unfolding j(2) by simp
  then show ?thesis using k False by (intro exI [of _ "Suc j"]) simp
qed (auto intro: exI [of _ 0])

lemma ensure_ok:
  assumes ok: "ramfs_ok s" and v: "nodes s n = Some v" and needed: "needed \<le> 2 ^ 31"
  shows "ok (ramfs_ensure_capacity n needed s) (\<lambda>(r, s'). ramfs_ok s' \<and> keeps s s' \<and> handles s' = handles s
    \<and> (\<exists>m. nodes s' n = Some (v\<lparr>rn_data := rn_data v @ replicate m None\<rparr>) \<and> (r = Ok () \<and> needed \<le> length (rn_data v) + m \<or> r = Err ENOMEM \<and> m = 0)))"
proof (cases "needed \<le> length (rn_data v)")
  case True
  then show ?thesis using ok v by (simp add: ramfs_ensure_capacity_def exI [of _ 0])
next
  case False
  let ?cap = "length (rn_data v)"
  have co: "cap_ok ?cap" "rn_size v \<le> ?cap" using tree_node [OF ramfs_tree [OF ok] v] by (simp_all add: node_ok_def)
  obtain k where k: "k \<le> 25" "(if ?cap \<noteq> 0 then w32 (?cap * 2) else 64) = 64 * 2 ^ k"
    using cap_start [OF co(1) _ needed] False by auto
  obtain j where j: "j \<le> 25" "cap_loop 34 (64 * 2 ^ k) needed = Inr (64 * 2 ^ j)" "needed \<le> 64 * 2 ^ j"
    using cap_loop_ends [OF k(1) needed, of 34] by auto
  obtain r s1 where a: "alloc s = (r, s1)" by (cases "alloc s")
  note A = alloc_keeps [OF ok a]
  let ?f = "\<lambda>n. n\<lparr>rn_data := rn_data n @ replicate (64 * 2 ^ j - ?cap) None\<rparr>"
  have len: "length (rn_data (?f v)) = 64 * 2 ^ j" using False j(3) by simp
  have "cap_ok (64 * 2 ^ j)" using j(1) unfolding cap_ok_def by blast
  note c = content_ok [OF A(1), of n v "?f v" ?f, unfolded len, simplified A(3), OF v _ _ _ _ _ this]
  have "ramfs_ok (upd_node n ?f s1)" "keeps s1 (upd_node n ?f s1)"
    using co(2) False j(3) by (auto intro!: c simp: is_dir_def)
  then have u: "ramfs_ok (upd_node n ?f s1)" "keeps s (upd_node n ?f s1)" using keeps_trans [OF A(2)] by blast+
  have e: "ramfs_ensure_capacity n needed s = (case r of None \<Rightarrow> Inr (Err ENOMEM, s1) | Some _ \<Rightarrow> Inr (Ok (), upd_node n ?f s1))"
    unfolding ramfs_ensure_capacity_def Let_def node_at_simps(1) [OF v] bindE.simps k(2) j(2) a using False by (cases r) simp_all
  show ?thesis
  proof (cases r)
    case None
    then show ?thesis using e A v by (simp add: exI [of _ 0])
  next
    case (Some x)
    have "nodes (upd_node n ?f s1) n = Some (v\<lparr>rn_data := rn_data v @ replicate (64 * 2 ^ j - ?cap) None\<rparr>)" using A(3) v by simp
    moreover have "needed \<le> ?cap + (64 * 2 ^ j - ?cap)" using j(3) by linarith
    ultimately show ?thesis using e Some u A(4) by auto
  qed
qed

text \<open>Reading returns what the buffer holds; it does not run past it for fewer than \<open>2 ^ 31\<close> bytes.\<close>

definition file_offset :: "vfs_handle_t \<Rightarrow> nat \<Rightarrow> nat" where
  "file_offset h offset = (if offset = NOZA_FS_OFFSET_CUR then rh_offset h else offset)"

lemma size_bound:
  assumes "ramfs_ok s" "nodes s n = Some v"
  shows "rn_size v \<le> length (rn_data v)" and "length (rn_data v) \<le> 2 ^ 31"
proof -
  have c: "cap_ok (length (rn_data v))" and "rn_size v \<le> length (rn_data v)"
    using tree_node [OF ramfs_tree [OF assms(1)] assms(2)] by (simp_all add: node_ok_def)
  then show "rn_size v \<le> length (rn_data v)" by simp
  show "length (rn_data v) \<le> 2 ^ 31"
  proof (cases "length (rn_data v) = 0")
    case False
    then obtain k where k: "k \<le> 25" "length (rn_data v) = 64 * 2 ^ k" using c unfolding cap_ok_def by blast
    then have "(2 :: nat) ^ k \<le> 2 ^ 25" by (intro power_increasing) simp_all
    then show ?thesis using k(2) by simp
  qed simp
qed

lemma read_eq:
  fixes offset :: nat
  assumes ok: "ramfs_ok s" and h: "handles s fh = Some h" and v: "nodes s (rh_node h) = Some v" and len: "len < 2 ^ 31"
  defines "off \<equiv> file_offset h offset"
  shows "ramfs_read fh True len offset s =
    Inr (if off > rn_size v then (Ok [], s)
         else (Ok (take len (drop off (take (rn_size v) (rn_data v)))), upd_handle fh (\<lambda>h. h\<lparr>rh_offset := min (off + len) (rn_size v)\<rparr>) s))"
proof (cases "off > rn_size v")
  case True
  then show ?thesis using h v by (simp add: ramfs_read_def off_def file_offset_def Let_def)
next
  case False
  note b = size_bound [OF ok v]
  have lt: "off + len < 2 ^ 32" using False b len by simp
  have copy: "(if w32 (off + len) > rn_size v then rn_size v - off else len) = min len (rn_size v - off)" using lt False by auto
  have m: "off + min len (rn_size v - off) = min (off + len) (rn_size v)" using False by simp
  have "min (off + len) (rn_size v) \<le> length (rn_data v)" using b(1) by simp
  moreover have "w32 (min (off + len) (rn_size v)) = min (off + len) (rn_size v)" using lt by simp
  moreover have "take (min len (rn_size v - off)) (drop off (rn_data v)) = take len (drop off (take (rn_size v) (rn_data v)))"
    by (simp add: drop_take)
  moreover have e: "ramfs_read fh True len offset s =
      (let to_copy = (if w32 (off + len) > rn_size v then rn_size v - off else len)
       in if off + to_copy > length (rn_data v) then Inl Buffer_overrun
          else Inr (Ok (take to_copy (drop off (rn_data v))), upd_handle fh (\<lambda>h. h\<lparr>rh_offset := w32 (off + to_copy)\<rparr>) s))"
    using h v False by (simp add: ramfs_read_def off_def file_offset_def Let_def)
  ultimately show ?thesis unfolding e copy Let_def m using False b(1) by simp
qed

lemma read_ok:
  assumes "ramfs_ok s" "handles s fh = Some h" "nodes s (rh_node h) = Some v" "len < 2 ^ 31"
  shows "ok (ramfs_read fh buf len offset s) (\<lambda>(r, s'). ramfs_ok s' \<and> keeps s s')"
proof (cases buf)
  case True
  then show ?thesis using read_eq [OF assms] handle_ok [OF assms(1)] assms(1) by simp
qed (use assms in \<open>simp add: ramfs_read_def\<close>)

text \<open>Writing puts the bytes at the offset and extends the file.\<close>

definition overwrite :: "nat \<Rightarrow> u8 list \<Rightarrow> u8 option list \<Rightarrow> u8 option list" where
  "overwrite off bs d = take off d @ map Some bs @ drop (off + length bs) d"

definition written :: "nat \<Rightarrow> u8 list \<Rightarrow> ramfs_node_t \<Rightarrow> ramfs_node_t" where
  "written off bs v =
     (let v1 = v\<lparr>rn_data := overwrite off bs (rn_data v)\<rparr>
      in if off + length bs > rn_size v
         then v1\<lparr>rn_size := off + length bs, vn_attr := (vn_attr v)\<lparr>a_size := off + length bs\<rparr>\<rparr> else v1)"

lemma length_overwrite [simp]: "off + length bs \<le> length d \<Longrightarrow> length (overwrite off bs d) = length d"
  by (simp add: overwrite_def)

lemma write_eq:
  fixes offset :: nat and bytes :: "nat \<Rightarrow> u8"
  assumes ok: "ramfs_ok s" and h: "handles s fh = Some h" and v: "nodes s (rh_node h) = Some v"
    and len: "file_offset h offset + len \<le> 2 ^ 31"
  defines "off \<equiv> file_offset h offset" and "bs \<equiv> map bytes [0..<len]"
  shows "\<exists>m s1. ramfs_ok s1 \<and> keeps s s1 \<and> handles s1 = handles s \<and> nodes s1 (rh_node h) = Some (v\<lparr>rn_data := rn_data v @ replicate m None\<rparr>)
    \<and> (ramfs_write fh (Some bytes) len offset s = Inr (Err ENOMEM, s1)
       \<or> off + len \<le> length (rn_data v) + m
         \<and> ramfs_write fh (Some bytes) len offset s =
             Inr (Ok len, upd_handle fh (\<lambda>h. h\<lparr>rh_offset := off + len\<rparr>)
               (upd_node (rh_node h) (\<lambda>_. written off bs (v\<lparr>rn_data := rn_data v @ replicate m None\<rparr>)) s1)))"
proof -
  have w: "w32 (off + len) = off + len" using len by (simp add: off_def)
  have "off + len \<le> 2 ^ 31" using len by (simp add: off_def)
  from ok_value [OF ensure_ok [OF ok v this]] obtain r s1 m where e: "ramfs_ensure_capacity (rh_node h) (off + len) s = Inr (r, s1)"
    and s1: "ramfs_ok s1" "keeps s s1" "handles s1 = handles s" "nodes s1 (rh_node h) = Some (v\<lparr>rn_data := rn_data v @ replicate m None\<rparr>)"
    and r: "r = Ok () \<and> off + len \<le> length (rn_data v) + m \<or> r = Err ENOMEM \<and> m = 0" by auto
  have eq: "ramfs_write fh (Some bytes) len offset s = bindE (Inr (r, s1)) (\<lambda>(r, s1). case r of
                   Err e \<Rightarrow> Inr (Err e, s1)
                 | Ok _ \<Rightarrow> bindE (node_at (rh_node h) s1) (\<lambda>n.
                     if off + len > length (rn_data n) then Inl Buffer_overrun
                     else Inr (Ok len, upd_handle fh (\<lambda>h. h\<lparr>rh_offset := off + len\<rparr>) (upd_node (rh_node h) (\<lambda>_. written off bs n) s1))))"
    unfolding ramfs_write_def option.case handle_at_simps(1) [OF h] bindE.simps file_offset_def [symmetric] off_def [symmetric] Let_def w e
    by (cases r) (simp_all add: s1(4) written_def overwrite_def bs_def comp_def Let_def)
  show ?thesis
  proof (intro exI conjI)
    show "ramfs_write fh (Some bytes) len offset s = Inr (Err ENOMEM, s1)
       \<or> off + len \<le> length (rn_data v) + m
         \<and> ramfs_write fh (Some bytes) len offset s =
             Inr (Ok len, upd_handle fh (\<lambda>h. h\<lparr>rh_offset := off + len\<rparr>)
               (upd_node (rh_node h) (\<lambda>_. written off bs (v\<lparr>rn_data := rn_data v @ replicate m None\<rparr>)) s1))"
      using r s1(4) unfolding eq by auto
  qed (use s1 in auto)
qed

lemma written_simps [simp]:
  "rn_child (written off bs v) = rn_child v" "rn_name (written off bs v) = rn_name v" "vn_parent (written off bs v) = vn_parent v"
  "a_mode (vn_attr (written off bs v)) = a_mode (vn_attr v)" "rn_data (written off bs v) = overwrite off bs (rn_data v)"
  "rn_size (written off bs v) = max (rn_size v) (off + length bs)"
  by (simp_all add: written_def Let_def)

lemma write_ok:
  assumes ok: "ramfs_ok s" and h: "handles s fh = Some h" and v: "nodes s (rh_node h) = Some v"
    and len: "file_offset h offset + len \<le> 2 ^ 31"
  shows "ok (ramfs_write fh buf len offset s) (\<lambda>(r, s'). ramfs_ok s' \<and> keeps s s')"
proof (cases buf)
  case None
  then show ?thesis using ok by (simp add: ramfs_write_def)
next
  case (Some bytes)
  let ?off = "file_offset h offset" and ?bs = "map bytes [0..<len]"
  obtain m s1 where s1: "ramfs_ok s1" "keeps s s1" and n: "nodes s1 (rh_node h) = Some (v\<lparr>rn_data := rn_data v @ replicate m None\<rparr>)"
    and w: "ramfs_write fh (Some bytes) len offset s = Inr (Err ENOMEM, s1)
      \<or> ?off + len \<le> length (rn_data v) + m
        \<and> ramfs_write fh (Some bytes) len offset s =
             Inr (Ok len, upd_handle fh (\<lambda>h. h\<lparr>rh_offset := ?off + len\<rparr>)
               (upd_node (rh_node h) (\<lambda>_. written ?off ?bs (v\<lparr>rn_data := rn_data v @ replicate m None\<rparr>)) s1))"
    using write_eq [OF ok h v len, of bytes] by blast
  let ?v = "v\<lparr>rn_data := rn_data v @ replicate m None\<rparr>"
  have "rn_size v \<le> length (rn_data v) + m" "cap_ok (length (rn_data v) + m)"
    using tree_node [OF ramfs_tree [OF s1(1)] n] by (simp_all add: node_ok_def)
  then have "ramfs_ok (upd_node (rh_node h) (\<lambda>_. written ?off ?bs ?v) s1)" "keeps s1 (upd_node (rh_node h) (\<lambda>_. written ?off ?bs ?v) s1)"
    if "?off + len \<le> length (rn_data v) + m" using that by (auto intro!: content_ok [OF s1(1) n, of "written ?off ?bs ?v"] simp: is_dir_def)
  then show ?thesis using w s1 Some keeps_trans [OF s1(2)] keeps_trans handle_ok by auto
qed

lemma lseek_ok:
  assumes ok: "ramfs_ok s" and h: "handles s fh = Some h" and v: "nodes s (rh_node h) = Some v"
  shows "ok (ramfs_lseek fh offset whence s) (\<lambda>(r, s'). ramfs_ok s' \<and> keeps s s')"
  using assms handle_ok [OF ok] by (simp add: ramfs_lseek_def Let_def)

lemma close_ok:
  assumes "ramfs_ok s" "handles s fh = Some h"
  shows "ramfs_close fh s = Inr (Ok (), s\<lparr>handles := (handles s)(fh := None)\<rparr>)"
    and "ramfs_ok (s\<lparr>handles := (handles s)(fh := None)\<rparr>)"
  using assms by (auto simp: ramfs_close_def ramfs_ok_def)

text \<open>A handle is made at a new address.\<close>

lemma new_handle:
  assumes "ramfs_ok s" "alloc s = (Some n, s')" "s'' = s'\<lparr>handles := (handles s')(n \<mapsto> h)\<rparr>"
  shows "ramfs_ok s''" and "keeps s s''" and "handles s'' n = Some h" and "handles s n = None" and "nodes s'' = nodes s"
  using assms fresh(2) [OF assms(1)] by (auto simp: alloc_def ramfs_ok_def keeps_def split: if_splits)

lemma opendir_ok:
  assumes ok: "ramfs_ok s" and v: "nodes s n = Some v"
  shows "ok (ramfs_opendir n s) (\<lambda>(r, s'). ramfs_ok s' \<and> keeps s s'
    \<and> (\<forall>fh. r = Ok fh \<longrightarrow> handles s fh = None \<and> (\<exists>h. handles s' fh = Some h \<and> vh_node h = n \<and> rh_node h = n)))"
proof -
  obtain r1 s1 where a: "alloc s = (r1, s1)" by (cases "alloc s")
  note A = alloc_keeps [OF ok a]
  obtain r2 s2 where b: "alloc s1 = (r2, s2)" by (cases "alloc s1")
  note B = alloc_keeps [OF A(1) b]
  show ?thesis
  proof (cases r2)
    case None
    then show ?thesis using v a b A B ok keeps_trans [OF A(2) B(2)] by (auto simp: ramfs_opendir_def split: option.splits)
  next
    case (Some vh)
    note N = new_handle [OF A(1) b [unfolded Some] refl]
    show ?thesis using v a b A Some ok N keeps_trans [OF A(2) N(2)] by (auto simp: ramfs_opendir_def split: option.splits)
  qed
qed

text \<open>Opening a file may truncate it and, when it is empty, give it a new owner and mode.\<close>

definition opened :: "u32 \<Rightarrow> u32 \<Rightarrow> u32 \<Rightarrow> u32 \<Rightarrow> ramfs_node_t \<Rightarrow> ramfs_node_t" where
  "opened oflag mode u g n =
     (let n1 = (if oflag AND O_TRUNC \<noteq> 0 \<and> oflag AND (O_WRONLY OR O_RDWR) \<noteq> 0 then n\<lparr>rn_data := [], rn_size := 0\<rparr> else n)
      in if oflag AND O_CREAT \<noteq> 0 \<and> rn_size n1 = 0
         then n1\<lparr>vn_attr := (vn_attr n1)\<lparr>a_mode := a_mode (vn_attr n1) AND NOZA_FS_MODE_IFMT OR mode AND PERM_BITS, a_uid := u, a_gid := g\<rparr>\<rparr>
         else n1)"

lemma opened_simps [simp]:
  "rn_child (opened oflag mode u g n) = rn_child n" "rn_name (opened oflag mode u g n) = rn_name n"
  "vn_parent (opened oflag mode u g n) = vn_parent n" "is_dir (opened oflag mode u g n) = is_dir n"
  by (simp_all add: opened_def Let_def is_dir_def mode_type)

lemma opened_data:
  assumes "rn_size n \<le> length (rn_data n)" "cap_ok (length (rn_data n))"
  shows "rn_size (opened oflag mode u g n) \<le> length (rn_data (opened oflag mode u g n)) \<and> cap_ok (length (rn_data (opened oflag mode u g n)))"
  using assms by (simp add: opened_def Let_def cap_ok_def)

lemma open_ok:
  assumes ok: "ramfs_ok s" and v: "nodes s n = Some v"
  shows "ok (ramfs_open n oflag mode s) (\<lambda>(r, s'). ramfs_ok s' \<and> keeps s s'
    \<and> (\<forall>fh. r = Ok fh \<longrightarrow> handles s fh = None \<and> (\<exists>h. handles s' fh = Some h \<and> vh_node h = n \<and> rh_node h = n)))"
proof (cases "is_dir v")
  case True
  then show ?thesis using ok v by (simp add: ramfs_open_def)
next
  case False
  let ?v = "opened oflag mode (current_uid s) (current_gid s) v" and ?s = "upd_node n (\<lambda>_. opened oflag mode (current_uid s) (current_gid s) v) s"
  have "rn_size ?v \<le> length (rn_data ?v)" "cap_ok (length (rn_data ?v))"
    using opened_data tree_node [OF ramfs_tree [OF ok] v] by (simp_all add: node_ok_def)
  then have u: "ramfs_ok ?s" "keeps s ?s" by (auto intro!: content_ok [OF ok v, of ?v])
  obtain r1 s1 where a: "alloc ?s = (r1, s1)" by (cases "alloc ?s")
  note A = alloc_keeps [OF u(1) a]
  obtain r2 s2 where b: "alloc s1 = (r2, s2)" by (cases "alloc s1")
  note B = alloc_keeps [OF A(1) b]
  have e: "ramfs_open n oflag mode s =
      (case alloc ?s of
         (None, s2) \<Rightarrow> Inr (Err ENOMEM, s2)
       | (Some _, s2) \<Rightarrow>
           (case alloc s2 of
              (None, s3) \<Rightarrow> Inr (Err ENOMEM, s3)
            | (Some vh, s3) \<Rightarrow>
                Inr (Ok vh, s3\<lparr>handles := (handles s3)(vh \<mapsto> \<lparr>vh_node = n, vh_flags = oflag, rh_node = n, rh_offset = 0, rh_dir_index = 0\<rparr>)\<rparr>)))"
    using v False by (simp add: ramfs_open_def opened_def Let_def)
  show ?thesis
  proof (cases r2)
    case None
    then show ?thesis unfolding e using a b A B keeps_trans [OF keeps_trans [OF u(2) A(2)] B(2)] keeps_trans [OF u(2) A(2)]
      by (auto split: option.splits)
  next
    case (Some vh)
    note N = new_handle [OF A(1) b [unfolded Some] refl]
    have "handles s vh = None" using N(4) A(4) by simp
    then show ?thesis unfolding e using a b A Some N keeps_trans [OF keeps_trans [OF u(2) A(2)] N(2)] keeps_trans [OF u(2) A(2)]
      by (auto split: option.splits)
  qed
qed

text \<open>A new entry.\<close>

lemma mode_dir: "x AND PERM_BITS = x \<Longrightarrow> (x OR NOZA_FS_MODE_IFDIR) AND NOZA_FS_MODE_IFMT = NOZA_FS_MODE_IFDIR"
proof -
  assume "x AND PERM_BITS = x"
  then have "x AND NOZA_FS_MODE_IFMT = x AND (PERM_BITS AND NOZA_FS_MODE_IFMT)" by (metis and.assoc)
  then show ?thesis by (simp add: bit.conj_disj_distrib2)
qed

lemma make_ok:
  assumes ok: "ramfs_ok s" and d: "nodes s d = Some dv" and nm: "length name < NOZA_FS_MAX_NAME"
  shows "ok (ramfs_make dir_node d name mode s) (\<lambda>(r, s'). ramfs_ok s' \<and> keeps s s' \<and> handles s' = handles s
    \<and> (\<forall>n. r = Ok n \<longrightarrow> is_dir dv \<and> entries s d name = None \<and> nodes s n = None \<and> n = brk s
          \<and> nodes s' = (nodes s)(n \<mapsto> the (nodes s' n), d \<mapsto> dv\<lparr>rn_child := n # rn_child dv\<rparr>)
          \<and> (\<exists>v. nodes s' n = Some v \<and> rn_name v = name \<and> rn_child v = [] \<and> rn_size v = 0
               \<and> a_mode (vn_attr v) = mode OR (if dir_node then NOZA_FS_MODE_IFDIR else NOZA_FS_MODE_IFREG)
               \<and> a_uid (vn_attr v) = current_uid s \<and> a_gid (vn_attr v) = current_gid s)))"
proof (cases "is_dir dv \<and> entries s d name = None")
  case False
  then show ?thesis using ok d child_find(2) [OF ok d nm] by (auto simp: ramfs_make_def entries_def split: option.splits)
next
  case True
  obtain r s1 where a: "alloc s = (r, s1)" by (cases "alloc s")
  note A = alloc_keeps [OF ok a]
  have ch: "ramfs_child d name s = Inr None" using child_find(2) [OF ok d nm] True d by (simp add: entries_def)
  show ?thesis
  proof (cases r)
    case None
    then show ?thesis using d True ch a A by (simp add: ramfs_make_def ramfs_new_node_def)
  next
    case (Some n)
    then have n: "n = brk s" "nodes s n = None" using A(6) fresh(1) [OF ok] by auto
    define v where "v = \<lparr>vn_mnt = Option.bind (nodes s G_RAMFS_ROOT) vn_mnt, vn_parent = None,
              vn_attr = \<lparr>a_mode = mode OR (if dir_node then NOZA_FS_MODE_IFDIR else NOZA_FS_MODE_IFREG), a_uid = current_uid s, a_gid = current_gid s,
                a_size = 0, a_atime_sec = 0, a_mtime_sec = 0, a_ctime_sec = 0, a_nlink = 1\<rparr>,
              rn_child = [], rn_name = take (NOZA_FS_MAX_NAME - 1) name, rn_data = [], rn_size = 0\<rparr>"
    define s' where "s' = ramfs_insert_child d n (s1\<lparr>nodes := (nodes s1)(n \<mapsto> v)\<rparr>)"
    have e: "ramfs_make dir_node d name mode s = Inr (Ok n, s')"
      using d True ch a Some by (simp add: ramfs_make_def ramfs_new_node_def s'_def v_def)
    have nd: "n \<noteq> d" using n(2) d by auto
    have N: "nodes s' = (nodes s)(n \<mapsto> v, d \<mapsto> dv\<lparr>rn_child := n # rn_child dv\<rparr>)"
      using A(3) nd d by (simp add: s'_def ramfs_insert_child_def)
    have vn: "rn_name v = name" using nm by (simp add: v_def)
    have "\<forall>c \<in> set (rn_child dv). name_of (nodes s) c \<noteq> rn_name v"
      using True d unfolding vn by (auto simp: entries_def find_None_iff)
    then have "tree_ok (nodes s')"
      unfolding N by (intro tree_insert [OF ramfs_tree [OF ok] n(2) d]) (use True nm vn in \<open>simp_all add: v_def\<close>)
    moreover have "brk s' = Suc (brk s)" "handles s' = handles s" using A(4,7) by (simp_all add: s'_def ramfs_insert_child_def)
    ultimately have ok': "ramfs_ok s'" using ok n d nd unfolding ramfs_ok_def N by auto
    have "keeps s s'" using A(2,4,7) n nd d unfolding keeps_def N by (auto simp: s'_def ramfs_insert_child_def v_def split: if_splits)
    then show ?thesis unfolding e using ok' N nd n True vn d \<open>handles s' = handles s\<close> by (simp add: v_def)
  qed
qed

text \<open>Removing an entry.\<close>

lemma unlink_eq:
  assumes ok: "ramfs_ok s" and d: "nodes s d = Some dv" and nm: "length name < NOZA_FS_MAX_NAME" and dir: "is_dir dv"
  shows "ramfs_unlink d name s =
    (case entries s d name of
       None \<Rightarrow> Inr (Ok (), s)
     | Some c \<Rightarrow>
         if rn_child (the (nodes s c)) \<noteq> [] then Inr (Err ENOTEMPTY, s)
         else Inr (Ok (), s\<lparr>nodes := (nodes s)(d \<mapsto> dv\<lparr>rn_child := remove1 c (rn_child dv)\<rparr>, c := None)\<rparr>))"
proof (cases "entries s d name")
  case None
  then show ?thesis using child_find(1) [OF ok d nm] d dir by (simp add: ramfs_unlink_def entries_def)
next
  case (Some c)
  obtain v where v: "nodes s c = Some v" using entries_node [OF ok Some] by blast
  have "child_loop (rn_child dv) name s = Inr (Some c)" using child_find(1) [OF ok d nm] Some d by (simp add: entries_def)
  moreover have "rn_child v \<noteq> [] \<Longrightarrow> is_dir v" using tree_node [OF ramfs_tree [OF ok] v] by (simp add: node_ok_def)
  ultimately show ?thesis using d dir v Some by (auto simp: ramfs_unlink_def Let_def upd_node_def)
qed

lemma unlink_ok:
  assumes ok: "ramfs_ok s" and d: "nodes s d = Some dv" and c: "entries s d name = Some c" and ch: "rn_child (the (nodes s c)) = []"
  shows "ramfs_ok (s\<lparr>nodes := (nodes s)(d \<mapsto> dv\<lparr>rn_child := remove1 c (rn_child dv)\<rparr>, c := None)\<rparr>)"
proof -
  obtain v where v: "c \<in> set (rn_child dv)" "nodes s c = Some v" using entries_node [OF ok c] d by auto
  have "rn_child v = []" using ch v(2) by simp
  from tree_unlink [OF ramfs_tree [OF ok] d v this] show ?thesis using ok d by (auto simp: ramfs_ok_def)
qed

lemma readdir_ok:
  assumes ok: "ramfs_ok s" and h: "handles s fh = Some h" and v: "nodes s (rh_node h) = Some v"
  shows "ok (ramfs_readdir fh s) (\<lambda>(r, s'). ramfs_ok s' \<and> keeps s s')"
proof (cases "drop (rh_dir_index h - 2) (rn_child v)")
  case Nil
  then show ?thesis using assms handle_ok [OF ok] by (simp add: ramfs_readdir_def Let_def)
next
  case (Cons c cs)
  then have "c \<in> set (drop (rh_dir_index h - 2) (rn_child v))" by simp
  then have "c \<in> set (rn_child v)" by (rule in_set_dropD)
  then obtain y where "nodes s c = Some y" using tree_node [OF ramfs_tree [OF ok] v] by (auto simp: node_ok_def)
  then show ?thesis using Cons assms handle_ok [OF ok] by (simp add: ramfs_readdir_def Let_def)
qed

lemma create_root_ok:
  assumes ok: "ramfs_ok s" and r: "ramfs_create_root s = (r, s')"
  shows "ramfs_ok s'" and "keeps s s'" and "r = Some n \<Longrightarrow> nodes s n = None \<and> nodes s' n = Some (root_node n None)
    \<and> (\<forall>m v. nodes s' m = Some v \<longrightarrow> n \<notin> set (rn_child v))"
proof -
  obtain x s1 where a: "alloc s = (x, s1)" by (cases "alloc s")
  note A = alloc_keeps [OF ok a]
  have "ramfs_ok s' \<and> keeps s s' \<and> (\<forall>n. r = Some n \<longrightarrow> nodes s n = None \<and> nodes s' n = Some (root_node n None)
      \<and> (\<forall>m v. nodes s' m = Some v \<longrightarrow> n \<notin> set (rn_child v)))"
  proof (cases x)
    case None
    then show ?thesis using r a A by (auto simp: ramfs_create_root_def)
  next
    case (Some k)
    then have k: "k = brk s" "nodes s k = None" using A(6) fresh(1) [OF ok] by auto
    have s': "r = Some k" "nodes s' = (nodes s)(k \<mapsto> root_node k None)" "brk s' = Suc (brk s)" "handles s' = handles s"
      using r a Some A(3,4,7) by (auto simp: ramfs_create_root_def)
    have nc: "k \<notin> set (rn_child v)" if "nodes s m = Some v" for m v
      using tree_node [OF ramfs_tree [OF ok] that] k(2) by (auto simp: node_ok_def)
    have "tree_ok (nodes s')" unfolding s'(2) by (rule tree_root [OF ramfs_tree [OF ok] k(2)])
    then have "ramfs_ok s'" using ok k s'(2-4) by (auto simp: ramfs_ok_def)
    moreover have "keeps s s'" using A(2) r a Some k unfolding keeps_def s'(2-4)
      by (auto simp: ramfs_create_root_def root_node_def split: if_splits)
    ultimately show ?thesis using s' k nc by (auto simp: root_node_def split: if_splits)
  qed
  then show "ramfs_ok s'" "keeps s s'" "r = Some n \<Longrightarrow> nodes s n = None \<and> nodes s' n = Some (root_node n None)
    \<and> (\<forall>m v. nodes s' m = Some v \<longrightarrow> n \<notin> set (rn_child v))" by blast+
qed

end
