(* ===== verification/Vfs_Inv.thy ===== *)
theory Vfs_Inv
  imports Ramfs_Inv Vfs
begin

text \<open>
  The invariant of the file system switch: the memory file system is well formed, the descriptors of clients refer to
  handles of their own on existing nodes, and the roots of mounts are nodes that no directory contains, so that they
  cannot be removed. Every operation keeps it and does not fault, except as stated: a file must not be removed while it is
  open, a path to create or remove must have a last component, and files stay below \<open>2 ^ 31\<close> bytes.
\<close>

section \<open>The invariant\<close>

definition client_slots :: "vfs_client_t \<Rightarrow> nat option list" where
  "client_slots c = c_files c @ c_dirs c"

definition tables_ok :: "fs_t \<Rightarrow> bool" where
  "tables_ok s \<longleftrightarrow> length (g_clients s) = VFS_MAX_CLIENTS
     \<and> (\<forall>i < VFS_MAX_CLIENTS. length (c_files (g_clients s ! i)) = VFS_MAX_FD \<and> length (c_dirs (g_clients s ! i)) = VFS_MAX_DIR)"

text \<open>The handle in descriptor \<open>j\<close> of client \<open>i\<close>, files before directories.\<close>

definition slot_at :: "fs_t \<Rightarrow> nat \<Rightarrow> nat \<Rightarrow> nat option" where
  "slot_at s i j = (if i < VFS_MAX_CLIENTS \<and> j < VFS_MAX_FD + VFS_MAX_DIR then client_slots (g_clients s ! i) ! j else None)"

definition slots_ok :: "fs_t \<Rightarrow> bool" where
  "slots_ok s \<longleftrightarrow>
     (\<forall>i j h. slot_at s i j = Some h \<longrightarrow> (\<exists>v. handles s h = Some v \<and> rh_node v = vh_node v \<and> nodes s (vh_node v) \<noteq> None))
     \<and> (\<forall>i j i' j' h. slot_at s i j = Some h \<longrightarrow> slot_at s i' j' = Some h \<longrightarrow> i = i' \<and> j = j')"

definition mount_roots :: "fs_t \<Rightarrow> nat set" where
  "mount_roots s = insert (m_root (g_root_mount s)) {m_root m |i m. i < length (mount_pool s) \<and> mount_pool s ! i = Some m}"

definition mounts_ok :: "fs_t \<Rightarrow> bool" where
  "mounts_ok s \<longleftrightarrow> length (mount_pool s) = VFS_MAX_CLIENTS \<and> set (g_mounts s) \<subseteq> {..<VFS_MAX_CLIENTS}
     \<and> (\<forall>r \<in> mount_roots s. nodes s r \<noteq> None \<and> (\<forall>n v. nodes s n = Some v \<longrightarrow> r \<notin> set (rn_child v)))"

definition vfs_ok :: "fs_t \<Rightarrow> bool" where
  "vfs_ok s \<longleftrightarrow> ramfs_ok s \<and> tables_ok s \<and> slots_ok s \<and> mounts_ok s"

lemma vfs_okD:
  assumes "vfs_ok s"
  shows "ramfs_ok s" "tables_ok s" "slots_ok s" "mounts_ok s"
  using assms by (simp_all add: vfs_ok_def)

text \<open>Operations that only add nodes and handles keep the invariant.\<close>

lemma vfs_keeps:
  assumes v: "vfs_ok s" and r: "ramfs_ok s'" and k: "keeps s s'"
  shows "vfs_ok s'"
proof -
  note V = vfs_okD [OF v]
  have sl: "slot_at s' i j = slot_at s i j" for i j using k by (simp add: slot_at_def keeps_def)
  have "\<exists>w. handles s' h = Some w \<and> rh_node w = vh_node w \<and> nodes s' (vh_node w) \<noteq> None" if "slot_at s i j = Some h" for i j h
  proof -
    from V(3) that obtain w where w: "handles s h = Some w" "rh_node w = vh_node w" "nodes s (vh_node w) \<noteq> None"
      unfolding slots_ok_def by blast
    then obtain w' where w': "handles s' h = Some w'" "vh_node w' = vh_node w" "rh_node w' = rh_node w"
      using k unfolding keeps_def by blast
    with w have "nodes s' (vh_node w') \<noteq> None" using k unfolding keeps_def by auto
    then show ?thesis using w w' by auto
  qed
  moreover have "slot_at s i j = Some h \<Longrightarrow> slot_at s i' j' = Some h \<Longrightarrow> i = i' \<and> j = j'" for i j i' j' h
    using V(3) unfolding slots_ok_def by blast
  ultimately have "slots_ok s'" unfolding slots_ok_def sl by blast
  moreover have "nodes s' r \<noteq> None \<and> (\<forall>n w. nodes s' n = Some w \<longrightarrow> r \<notin> set (rn_child w))" if "r \<in> mount_roots s" for r
  proof -
    have top: "nodes s r \<noteq> None" "\<And>n w. nodes s n = Some w \<Longrightarrow> r \<notin> set (rn_child w)" using V(4) that unfolding mounts_ok_def by blast+
    then have "r < brk s" using fresh(3) [OF V(1)] by auto
    then have "r \<notin> set (rn_child w)" if "nodes s' n = Some w" for n w
      using k top(2) that unfolding keeps_def by metis
    then show ?thesis using top(1) k by (simp add: keeps_def)
  qed
  moreover have "mount_roots s' = mount_roots s" using k by (simp add: mount_roots_def keeps_def)
  ultimately show ?thesis using V r k unfolding vfs_ok_def mounts_ok_def tables_ok_def keeps_def by auto
qed

section \<open>Paths\<close>

text \<open>Walking along a path changes parent pointers only.\<close>

definition reparented :: "fs_t \<Rightarrow> fs_t \<Rightarrow> bool" where
  "reparented s s' \<longleftrightarrow> s' = s\<lparr>nodes := nodes s'\<rparr>
     \<and> (\<forall>n. map_option (vn_parent_update (\<lambda>_. None)) (nodes s' n) = map_option (vn_parent_update (\<lambda>_. None)) (nodes s n))"

lemma reparented_refl [simp]: "reparented s s"
  by (simp add: reparented_def)

lemma reparented_trans:
  assumes "reparented s s'" "reparented s' s''"
  shows "reparented s s''"
proof -
  have "s'' = s'\<lparr>nodes := nodes s''\<rparr>" "s' = s\<lparr>nodes := nodes s'\<rparr>" using assms by (simp_all add: reparented_def)
  then have "s'' = s\<lparr>nodes := nodes s''\<rparr>" by (metis fs_t.select_convs(1) fs_t.surjective fs_t.update_convs(1))
  then show ?thesis using assms by (simp add: reparented_def)
qed

lemma reparent_one: "reparented s (upd_node n (\<lambda>v. v\<lparr>vn_parent := p\<rparr>) s)"
  by (simp add: reparented_def upd_node_def option.map_comp comp_def)

lemma reparented_sel:
  assumes "reparented s s'"
  shows "handles s' = handles s" "g_clients s' = g_clients s" "g_current_client s' = g_current_client s" "brk s' = brk s"
    "mount_pool s' = mount_pool s" "g_mounts s' = g_mounts s" "g_root_mount s' = g_root_mount s"
proof -
  have "s' = s\<lparr>nodes := nodes s'\<rparr>" using assms by (simp add: reparented_def)
  then obtain N where "s' = s\<lparr>nodes := N\<rparr>" by blast
  then show "handles s' = handles s" "g_clients s' = g_clients s" "g_current_client s' = g_current_client s" "brk s' = brk s"
    "mount_pool s' = mount_pool s" "g_mounts s' = g_mounts s" "g_root_mount s' = g_root_mount s" by simp_all
qed

lemma reparented_node:
  assumes "reparented s s'" "nodes s n = Some v"
  shows "\<exists>p. nodes s' n = Some (v\<lparr>vn_parent := p\<rparr>)"
proof -
  have "map_option (vn_parent_update (\<lambda>_. None)) (nodes s' n) = Some (v\<lparr>vn_parent := None\<rparr>)" using assms by (simp add: reparented_def)
  then obtain v' where v': "nodes s' n = Some v'" "v'\<lparr>vn_parent := None\<rparr> = v\<lparr>vn_parent := None\<rparr>" by auto
  then have "v' = v\<lparr>vn_parent := vn_parent v'\<rparr>" by (cases v; cases v') simp
  then show ?thesis using v'(1) by metis
qed

lemma reparented_name:
  assumes "reparented s s'"
  shows "name_of (nodes s') = name_of (nodes s)"
proof
  fix c
  have "map_option rn_name (nodes s' c) = map_option rn_name (nodes s c)"
  proof -
    have "map_option (vn_parent_update (\<lambda>_. None)) (nodes s' c) = map_option (vn_parent_update (\<lambda>_. None)) (nodes s c)"
      using assms by (simp add: reparented_def)
    from arg_cong [OF this, of "map_option rn_name"] show ?thesis by (simp add: option.map_comp comp_def)
  qed
  then show "name_of (nodes s') c = name_of (nodes s) c" by (cases "nodes s c"; cases "nodes s' c") (simp_all add: name_of_def)
qed

lemma reparented_entries:
  assumes "reparented s s'"
  shows "entries s' = entries s"
proof (intro ext)
  fix d name
  show "entries s' d name = entries s d name"
  proof (cases "nodes s d")
    case (Some v)
    then obtain p where "nodes s' d = Some (v\<lparr>vn_parent := p\<rparr>)" using reparented_node [OF assms] by blast
    then show ?thesis using Some by (simp add: entries_def reparented_name [OF assms])
  next
    case None
    then have "nodes s' d = None" using assms by (metis (mono_tags) map_option_is_None reparented_def)
    then show ?thesis using None by (simp add: entries_def)
  qed
qed

lemma parent_ok:
  assumes "ramfs_ok s" "nodes s n = Some v"
  shows "\<exists>p w. vfs_parent_or_self n s = Inr p \<and> nodes s p = Some w"
proof (cases "vn_parent v")
  case None
  then show ?thesis using assms by (simp add: vfs_parent_or_self_def)
next
  case (Some p)
  then have "p = n \<or> (\<exists>w. nodes s p = Some w)" using tree_node [OF ramfs_tree [OF assms(1)] assms(2)] by (auto simp: node_ok_def)
  then show ?thesis using Some assms by (auto simp: vfs_parent_or_self_def)
qed

lemma set_parent_ok:
  assumes ok: "ramfs_ok s" and n: "nodes s n = Some v" and p: "nodes s p = Some w" "n \<in> set (rn_child w)"
  shows "ramfs_ok (upd_node n (\<lambda>v. v\<lparr>vn_parent := Some p\<rparr>) s)" and "keeps s (upd_node n (\<lambda>v. v\<lparr>vn_parent := Some p\<rparr>) s)"
proof -
  have d: "rn_size v \<le> length (rn_data v)" "cap_ok (length (rn_data v))" using tree_node [OF ramfs_tree [OF ok] n] by (simp_all add: node_ok_def)
  note c = content_ok [OF ok n, of "v\<lparr>vn_parent := Some p\<rparr>"]
  show "ramfs_ok (upd_node n (\<lambda>v. v\<lparr>vn_parent := Some p\<rparr>) s)" by (rule c(1)) (use p d in \<open>auto simp: is_dir_def\<close>)
  show "keeps s (upd_node n (\<lambda>v. v\<lparr>vn_parent := Some p\<rparr>) s)" by (rule c(2)) (use p d in \<open>auto simp: is_dir_def\<close>)
qed

definition resolved :: "fs_t \<Rightarrow> (nat \<times> nat \<times> string option) rc \<times> fs_t \<Rightarrow> bool" where
  "resolved s rs \<longleftrightarrow>
     (case rs of (r, s') \<Rightarrow> ramfs_ok s' \<and> keeps s s' \<and> reparented s s'
        \<and> (case r of Err _ \<Rightarrow> True
           | Ok (n, p, leaf) \<Rightarrow> nodes s' n \<noteq> None \<and> nodes s' p \<noteq> None \<and> (\<forall>name. leaf = Some name \<longrightarrow> length name < NOZA_FS_MAX_NAME)))"

lemma resolved_trans: "ramfs_ok s' \<Longrightarrow> keeps s s' \<Longrightarrow> reparented s s' \<Longrightarrow> resolved s' rs \<Longrightarrow> resolved s rs"
  by (auto simp: resolved_def intro: keeps_trans reparented_trans split: rc.splits)

lemma lookup_ok:
  assumes "ramfs_ok s" "nodes s n = Some v" "length name < NOZA_FS_MAX_NAME"
  shows "ok (ops_lookup ops n name s) (\<lambda>r. case r of Err _ \<Rightarrow> True | Ok c \<Rightarrow> c \<in> set (rn_child v) \<and> nodes s c \<noteq> None)"
  using lookup_entries [OF assms] entries_node [OF assms(1), of n name] assms(2)
  by (fastforce simp: ops_lookup_def null_lookup_def split: option.splits vfs_ops_t.splits)

lemma walk_lookup:
  assumes ok: "ramfs_ok s" and cur: "nodes s cur = Some v" and len: "length name < NOZA_FS_MAX_NAME"
    and IH: "\<And>next s'. nodes s' next \<noteq> None \<Longrightarrow> nodes s' cur \<noteq> None \<Longrightarrow> ramfs_ok s' \<Longrightarrow> s' = upd_node next (\<lambda>n. n\<lparr>vn_parent := Some cur\<rparr>) s
      \<Longrightarrow> ok (f next s') (resolved s')"
  shows "ok (bindE (node_ops cur s) (\<lambda>ops. bindE (ops_lookup ops cur name s) (\<lambda>r.
            case r of Err e \<Rightarrow> Inr (Err e, s) | Ok next \<Rightarrow> f next (upd_node next (\<lambda>n. n\<lparr>vn_parent := Some cur\<rparr>) s)))) (resolved s)"
proof -
  obtain ops where ops: "node_ops cur s = Inr ops" using cur by (simp add: node_ops_def)
  from ok_value [OF lookup_ok [OF ok cur len, of ops]] obtain r where r: "ops_lookup ops cur name s = Inr r"
    and c: "case r of Err _ \<Rightarrow> True | Ok c \<Rightarrow> c \<in> set (rn_child v) \<and> nodes s c \<noteq> None" by blast
  show ?thesis
  proof (cases r)
    case (Err e)
    then show ?thesis using ops r ok by (simp add: resolved_def)
  next
    case (Ok n)
    with c obtain w where n: "n \<in> set (rn_child v)" "nodes s n = Some w" by auto
    let ?s = "upd_node n (\<lambda>n. n\<lparr>vn_parent := Some cur\<rparr>) s"
    note u = set_parent_ok [OF ok n(2) cur n(1)]
    have "nodes ?s n \<noteq> None" "nodes ?s cur \<noteq> None" using n(2) cur by simp_all
    from IH [OF this u(1) refl] have "ok (f n ?s) (resolved s)"
      using resolved_trans [OF u reparent_one] by (rule ok_mono)
    then show ?thesis using ops r Ok by simp
  qed
qed

lemma walk_step:
  assumes "dropWhile (\<lambda>x. x = SLASH) cursor = c # cs"
    and "name = takeWhile (\<lambda>x. x \<noteq> SLASH) (c # cs)" "rest = dropWhile (\<lambda>x. x \<noteq> SLASH) (c # cs)"
  shows "vfs_walk_components want_parent cur parent cursor s =
        (if length name \<ge> NOZA_FS_MAX_NAME then Inr (Err ENAMETOOLONG, s)
         else if name = ''.'' then vfs_walk_components want_parent cur parent rest s
         else if name = ''..'' then
           bindE (vfs_parent_or_self cur s) (\<lambda>cur'. bindE (vfs_parent_or_self cur' s) (\<lambda>parent'.
             vfs_walk_components want_parent cur' parent' rest s))
         else if want_parent \<and> rest = [] then Inr (Ok (cur, cur, Some name), s)
         else bindE (node_ops cur s) (\<lambda>ops. bindE (ops_lookup ops cur name s) (\<lambda>r.
                case r of
                  Err e \<Rightarrow> Inr (Err e, s)
                | Ok next \<Rightarrow> vfs_walk_components want_parent next cur rest (upd_node next (\<lambda>n. n\<lparr>vn_parent := Some cur\<rparr>) s))))"
  unfolding vfs_walk_components.simps [of want_parent cur parent cursor s] assms(1) list.case Let_def
  unfolding assms(2) [symmetric] assms(3) [symmetric] ..

lemma walk_end:
  "dropWhile (\<lambda>x. x = SLASH) cursor = [] \<Longrightarrow> vfs_walk_components want_parent cur parent cursor s = Inr (Ok (cur, parent, None), s)"
  unfolding vfs_walk_components.simps [of want_parent cur parent cursor s] by (simp only: list.case)

lemma walk_ok:
  assumes "ramfs_ok s" "nodes s cur \<noteq> None" "nodes s parent \<noteq> None"
  shows "ok (vfs_walk_components want_parent cur parent cursor s) (resolved s)"
  using assms
proof (induction want_parent cur parent cursor s rule: vfs_walk_components.induct)
  case (1 want_parent cur parent cursor s)
  obtain v where v: "nodes s cur = Some v" using 1 by auto
  show ?case
  proof (cases "dropWhile (\<lambda>x. x = SLASH) cursor")
    case Nil
    from walk_end [OF this] show ?thesis using "1.prems" by (simp add: resolved_def)
  next
    case (Cons c cs)
    define name where "name = takeWhile (\<lambda>x. x \<noteq> SLASH) (c # cs)"
    define rest where "rest = dropWhile (\<lambda>x. x \<noteq> SLASH) (c # cs)"
    note IH = "1.IH" [OF Cons name_def rest_def]
    note step = walk_step [OF Cons name_def rest_def, of want_parent cur parent s]
    consider "length name \<ge> NOZA_FS_MAX_NAME" | "length name < NOZA_FS_MAX_NAME" "name = ''.''" | "length name < NOZA_FS_MAX_NAME" "name = ''..''"
      | "length name < NOZA_FS_MAX_NAME" "name \<noteq> ''.''" "name \<noteq> ''..''" by linarith
    then show ?thesis
    proof cases
      case 1
      then show ?thesis using \<open>ramfs_ok s\<close> unfolding step by (simp add: resolved_def)
    next
      case 2
      then show ?thesis using IH(1) "1.prems" unfolding step by simp
    next
      case 3
      obtain p w q u where p: "vfs_parent_or_self cur s = Inr p" "nodes s p = Some w" "vfs_parent_or_self p s = Inr q" "nodes s q = Some u"
        using parent_ok [OF \<open>ramfs_ok s\<close>] v by blast
      then show ?thesis using 3 IH(2) [of p q] "1.prems" unfolding step by simp
    next
      case 4
      show ?thesis
      proof (cases "want_parent \<and> rest = []")
        case True
        then show ?thesis using 4 \<open>ramfs_ok s\<close> v unfolding step by (simp add: resolved_def)
      next
        case False
        then have "vfs_walk_components want_parent cur parent cursor s = bindE (node_ops cur s) (\<lambda>ops. bindE (ops_lookup ops cur name s) (\<lambda>r.
                    case r of Err e \<Rightarrow> Inr (Err e, s)
                    | Ok next \<Rightarrow> vfs_walk_components want_parent next cur rest (upd_node next (\<lambda>n. n\<lparr>vn_parent := Some cur\<rparr>) s)))"
          using 4 unfolding step by auto
        then show ?thesis
          using walk_lookup [OF \<open>ramfs_ok s\<close> v 4(1), of "\<lambda>next s. vfs_walk_components want_parent next cur rest s"] IH(3) 4 False by simp
      qed
    qed
  qed
qed

lemma match_mem:
  assumes "mounts_ok s" "vfs_match_mount path s = (r, mnt, rest)"
  shows "mnt = g_root_mount s \<or> (\<exists>i < length (mount_pool s). mount_pool s ! i = Some mnt)" (is "?P mnt")
proof -
  let ?f = "\<lambda>(r, b) i. case mount_pool s ! i of
                      None \<Rightarrow> (r, b)
                    | Some m \<Rightarrow> if path_prefix (m_path m) path \<and> length (m_path m) > length (m_path b) then (Pool i, m) else (r, b)"
  have "?P (snd (foldl ?f b is))" if "?P (snd b)" "set is \<subseteq> {..<length (mount_pool s)}" for b "is"
    using that
  proof (induction "is" arbitrary: b)
    case (Cons i "is")
    have "?P (snd (?f b i))" using Cons.prems by (auto split: prod.splits option.splits)
    then show ?case using Cons by simp
  qed simp
  from this [of "(Root_mount, g_root_mount s)" "g_mounts s"]
  have "?P (snd (foldl ?f (Root_mount, g_root_mount s) (g_mounts s)))" using assms(1) by (simp add: mounts_ok_def)
  then show ?thesis using assms(2) by (auto simp: vfs_match_mount_def Let_def)
qed

lemma match_root: "mounts_ok s \<Longrightarrow> vfs_match_mount path s = (r, mnt, rest) \<Longrightarrow> m_root mnt \<in> mount_roots s"
  using match_mem [of s path r mnt rest] by (auto simp: mount_roots_def)

lemma resolve_ok:
  assumes "vfs_ok s"
  shows "ok (vfs_resolve i path want_parent s) (\<lambda>rs. vfs_ok (snd rs) \<and> resolved s rs)"
proof -
  note V = vfs_okD [OF assms]
  have "ok (vfs_resolve i path want_parent s) (resolved s)"
  proof (cases "full_path (g_clients s ! i) path")
    case (Err e)
    then show ?thesis using V(1) by (simp add: vfs_resolve_def resolved_def)
  next
    case (Ok full)
    obtain r mnt rest where m: "vfs_match_mount (vfs_normalize_path full) s = (r, mnt, rest)" by (rule prod_cases3)
    obtain v where v: "nodes s (m_root mnt) = Some v" using match_root [OF V(4) m] V(4) by (auto simp: mounts_ok_def)
    obtain p w where p: "vfs_parent_or_self (m_root mnt) s = Inr p" "nodes s p = Some w" using parent_ok [OF V(1) v] by blast
    show ?thesis using walk_ok [OF V(1), of "m_root mnt" p want_parent rest] v p Ok m by (simp add: vfs_resolve_def)
  qed
  then show ?thesis by (rule ok_mono) (auto simp: resolved_def intro: vfs_keeps [OF assms])
qed

lemma resolve_cases:
  assumes "vfs_ok s"
  obtains (failed) e s1 where "vfs_resolve i path want_parent s = Inr (Err e, s1)" "vfs_ok s1" "reparented s s1"
  | (found) n p leaf s1 v w where "vfs_resolve i path want_parent s = Inr (Ok (n, p, leaf), s1)" "vfs_ok s1" "reparented s s1"
      "nodes s1 n = Some v" "nodes s1 p = Some w" "\<And>name. leaf = Some name \<Longrightarrow> length name < NOZA_FS_MAX_NAME"
proof -
  from ok_value [OF resolve_ok [OF assms, of i path want_parent]] obtain r s1
    where r: "vfs_resolve i path want_parent s = Inr (r, s1)" "vfs_ok s1" "resolved s (r, s1)" by auto
  show thesis
  proof (cases r)
    case (Err e)
    then show thesis using failed r by (auto simp: resolved_def)
  next
    case (Ok x)
    then show thesis using found r by (cases x) (auto simp: resolved_def)
  qed
qed

lemma attr_ok_vfs: "nodes s n = Some v \<Longrightarrow> vfs_check_attr n s = Inr (Ok (vn_attr v))"
  by (auto simp: vfs_check_attr_def node_ops_def null_stat_def ramfs_stat_def split: option.splits vfs_ops_t.splits)

lemma node_ops_ok: "nodes s n = Some v \<Longrightarrow> node_ops n s = Inr (mnt_ops (vn_mnt v) s)"
  by (simp add: node_ops_def)

section \<open>Clients and descriptors\<close>

lemma upd_client_simps [simp]:
  "nodes (upd_client i f s) = nodes s" "handles (upd_client i f s) = handles s" "brk (upd_client i f s) = brk s"
  "g_root_mount (upd_client i f s) = g_root_mount s" "mount_pool (upd_client i f s) = mount_pool s" "g_mounts (upd_client i f s) = g_mounts s"
  "g_current_client (upd_client i f s) = g_current_client s"
  by (simp_all add: upd_client_def)

lemma upd_client_at: "length (g_clients s) = VFS_MAX_CLIENTS \<Longrightarrow> i < VFS_MAX_CLIENTS
    \<Longrightarrow> g_clients (upd_client i f s) ! k = (if k = i then f (g_clients s ! i) else g_clients s ! k)"
  by (simp add: upd_client_def nth_list_update)

text \<open>Changing the descriptors of one client, and dropping handles that only it had.\<close>

lemma slots_change:
  assumes v: "vfs_ok s" and i: "i < VFS_MAX_CLIENTS"
    and len: "length (c_files (f (g_clients s ! i))) = VFS_MAX_FD" "length (c_dirs (f (g_clients s ! i))) = VFS_MAX_DIR"
    and new: "\<And>j h. j < VFS_MAX_FD + VFS_MAX_DIR \<Longrightarrow> client_slots (f (g_clients s ! i)) ! j = Some h \<Longrightarrow> slot_at s i j = Some h \<and> h \<notin> H
      \<or> (\<exists>w. handles s h = Some w \<and> rh_node w = vh_node w \<and> nodes s (vh_node w) \<noteq> None) \<and> h \<notin> H
        \<and> (\<forall>k l. slot_at s k l \<noteq> Some h) \<and> (\<forall>l < VFS_MAX_FD + VFS_MAX_DIR. client_slots (f (g_clients s ! i)) ! l = Some h \<longrightarrow> l = j)"
    and H: "\<And>h. h \<in> H \<Longrightarrow> \<exists>j. slot_at s i j = Some h"
  shows "vfs_ok (upd_client i f (s\<lparr>handles := \<lambda>h. if h \<in> H then None else handles s h\<rparr>))" (is "vfs_ok ?s")
proof -
  note V = vfs_okD [OF v]
  have at: "g_clients ?s ! k = (if k = i then f (g_clients s ! i) else g_clients s ! k)" for k
    using V(2) i by (simp add: upd_client_at tables_ok_def)
  have other: "slot_at ?s k j = slot_at s k j" if "k \<noteq> i" for k j using that at by (simp add: slot_at_def)
  have uniq: "slot_at s k j = Some h \<Longrightarrow> slot_at s k' j' = Some h \<Longrightarrow> k = k' \<and> j = j'" for k j k' j' h
    using V(3) unfolding slots_ok_def by blast
  have live: "\<exists>w. handles s h = Some w \<and> rh_node w = vh_node w \<and> nodes s (vh_node w) \<noteq> None" if "slot_at s k j = Some h" for k j h
    using V(3) that unfolding slots_ok_def by blast
  have l: "j < VFS_MAX_FD + VFS_MAX_DIR \<and> client_slots (f (g_clients s ! i)) ! j = Some h" if "slot_at ?s i j = Some h" for j h
    using that at by (simp add: slot_at_def split: if_splits)
  have own: "slot_at s i j = Some h \<and> h \<notin> H \<or> (\<exists>w. handles s h = Some w \<and> rh_node w = vh_node w \<and> nodes s (vh_node w) \<noteq> None) \<and> h \<notin> H
      \<and> (\<forall>k l. slot_at s k l \<noteq> Some h) \<and> (\<forall>l < VFS_MAX_FD + VFS_MAX_DIR. client_slots (f (g_clients s ! i)) ! l = Some h \<longrightarrow> l = j)"
    if "slot_at ?s i j = Some h" for j h using new [of j h] l [OF that] by blast
  have inH: "h \<notin> H" if "slot_at s k j = Some h" "k \<noteq> i" for k j h using H uniq that by blast
  have "\<exists>w. handles ?s h = Some w \<and> rh_node w = vh_node w \<and> nodes ?s (vh_node w) \<noteq> None" if h: "slot_at ?s k j = Some h" for k j h
  proof -
    have "h \<notin> H \<and> (\<exists>w. handles s h = Some w \<and> rh_node w = vh_node w \<and> nodes s (vh_node w) \<noteq> None)"
    proof (cases "k = i")
      case True
      then show ?thesis using own [of j h] h live [of i j h] by blast
    next
      case False
      then show ?thesis using other [OF False] h live inH by metis
    qed
    then show ?thesis by simp
  qed
  moreover have "k = k' \<and> j = j'" if h: "slot_at ?s k j = Some h" "slot_at ?s k' j' = Some h" for k j k' j' h
  proof -
    have mixed: False if "slot_at ?s i j = Some h" "slot_at s k' j' = Some h" "k' \<noteq> i" for j k' j'
      using own [OF that(1)] uniq [of i j h k' j'] that(2,3) by blast
    have same: "j = j'" if "slot_at ?s i j = Some h" "slot_at ?s i j' = Some h" for j j'
      using own [OF that(1)] own [OF that(2)] l [OF that(1)] l [OF that(2)] uniq [of i j h i j'] by blast
    consider "k = i" "k' = i" | "k = i" "k' \<noteq> i" | "k \<noteq> i" "k' = i" | "k \<noteq> i" "k' \<noteq> i" by blast
    then show ?thesis
    proof cases
      case 1
      then show ?thesis using same h by blast
    next
      case 2
      then show ?thesis using mixed [of j k' j'] h other [OF 2(2)] by auto
    next
      case 3
      then show ?thesis using mixed [of j' k j] h other [OF 3(1)] by auto
    next
      case 4
      then show ?thesis using uniq h other [OF 4(1)] other [OF 4(2)] by metis
    qed
  qed
  ultimately have "slots_ok ?s" unfolding slots_ok_def by blast
  moreover have "tables_ok ?s" using V(2) i len by (simp add: tables_ok_def upd_client_def nth_list_update)
  moreover have "ramfs_ok ?s" using V(1) by (simp add: ramfs_ok_def)
  moreover have "mounts_ok ?s" using V(4) by (simp add: mounts_ok_def mount_roots_def)
  ultimately show ?thesis by (simp add: vfs_ok_def)
qed

lemma client_ok:
  assumes "vfs_ok s" "i < VFS_MAX_CLIENTS"
  shows "length (c_files (g_clients s ! i)) = VFS_MAX_FD" "length (c_dirs (g_clients s ! i)) = VFS_MAX_DIR"
  using vfs_okD(2) [OF assms(1)] assms(2) by (simp_all add: tables_ok_def)

text \<open>The client changes in other fields than its descriptors.\<close>

lemma client_fields:
  assumes "vfs_ok s" "i < VFS_MAX_CLIENTS" "\<And>c. c_files (f c) = c_files c \<and> c_dirs (f c) = c_dirs c"
  shows "vfs_ok (upd_client i f s)"
proof -
  have e: "slot_at s i j = client_slots (f (g_clients s ! i)) ! j" if "j < VFS_MAX_FD + VFS_MAX_DIR" for j
    using that assms(2,3) by (simp add: slot_at_def client_slots_def)
  have "vfs_ok (upd_client i f (s\<lparr>handles := \<lambda>h. if h \<in> {} then None else handles s h\<rparr>))"
    by (rule slots_change [where f = f, OF assms(1,2)]) (use client_ok [OF assms(1,2)] assms(3) e in simp_all)
  then show ?thesis by simp
qed

text \<open>A descriptor is freed, and its handle with it, or the handle is left behind.\<close>

lemma slot_freed:
  assumes v: "vfs_ok s" and i: "i < VFS_MAX_CLIENTS" and j: "j < VFS_MAX_FD + VFS_MAX_DIR" "slot_at s i j = Some h"
    and f: "client_slots (f (g_clients s ! i)) = (client_slots (g_clients s ! i))[j := None]"
      "length (c_files (f (g_clients s ! i))) = VFS_MAX_FD" "length (c_dirs (f (g_clients s ! i))) = VFS_MAX_DIR"
    and H: "H \<subseteq> {h}"
  shows "vfs_ok (upd_client i f (s\<lparr>handles := \<lambda>h. if h \<in> H then None else handles s h\<rparr>))"
proof (rule slots_change [where f = f, OF v i f(2,3)])
  fix k x
  assume k: "k < VFS_MAX_FD + VFS_MAX_DIR" "client_slots (f (g_clients s ! i)) ! k = Some x"
  have len: "length (client_slots (g_clients s ! i)) = VFS_MAX_FD + VFS_MAX_DIR" using client_ok [OF v i] by (simp add: client_slots_def)
  have kj: "k \<noteq> j" using k f(1) len by auto
  then have "slot_at s i k = Some x" using k f(1) i by (simp add: slot_at_def)
  moreover have "x \<noteq> h" using vfs_okD(3) [OF v] calculation j(2) kj unfolding slots_ok_def by blast
  ultimately show "slot_at s i k = Some x \<and> x \<notin> H
      \<or> (\<exists>w. handles s x = Some w \<and> rh_node w = vh_node w \<and> nodes s (vh_node w) \<noteq> None) \<and> x \<notin> H
        \<and> (\<forall>k l. slot_at s k l \<noteq> Some x) \<and> (\<forall>l < VFS_MAX_FD + VFS_MAX_DIR. client_slots (f (g_clients s ! i)) ! l = Some x \<longrightarrow> l = k)"
    using H by blast
next
  fix x assume "x \<in> H"
  then show "\<exists>j. slot_at s i j = Some x" using H j(2) by blast
qed

text \<open>A descriptor gets a handle that no descriptor has.\<close>

lemma slot_filled:
  assumes v: "vfs_ok s" and i: "i < VFS_MAX_CLIENTS" and j: "j < VFS_MAX_FD + VFS_MAX_DIR"
    and h: "handles s h = Some w" "rh_node w = vh_node w" "nodes s (vh_node w) \<noteq> None" "\<And>k l. slot_at s k l \<noteq> Some h"
    and f: "client_slots (f (g_clients s ! i)) = (client_slots (g_clients s ! i))[j := Some h]"
      "length (c_files (f (g_clients s ! i))) = VFS_MAX_FD" "length (c_dirs (f (g_clients s ! i))) = VFS_MAX_DIR"
  shows "vfs_ok (upd_client i f s)"
proof -
  have len: "length (client_slots (g_clients s ! i)) = VFS_MAX_FD + VFS_MAX_DIR" using client_ok [OF v i] by (simp add: client_slots_def)
  have at: "client_slots (f (g_clients s ! i)) ! k = (if k = j then Some h else slot_at s i k)" if "k < VFS_MAX_FD + VFS_MAX_DIR" for k
    using that f(1) len j i by (simp add: slot_at_def nth_list_update)
  have "vfs_ok (upd_client i f (s\<lparr>handles := \<lambda>h. if h \<in> {} then None else handles s h\<rparr>))"
  proof (rule slots_change [where f = f, OF v i f(2,3)])
    fix k x
    assume k: "k < VFS_MAX_FD + VFS_MAX_DIR" "client_slots (f (g_clients s ! i)) ! k = Some x"
    have only: "l = j" if "l < VFS_MAX_FD + VFS_MAX_DIR" "client_slots (f (g_clients s ! i)) ! l = Some h" for l
      using that(2) at [OF that(1)] h(4) [of i l] by (simp split: if_splits)
    show "slot_at s i k = Some x \<and> x \<notin> {}
      \<or> (\<exists>w. handles s x = Some w \<and> rh_node w = vh_node w \<and> nodes s (vh_node w) \<noteq> None) \<and> x \<notin> {}
        \<and> (\<forall>k l. slot_at s k l \<noteq> Some x) \<and> (\<forall>l < VFS_MAX_FD + VFS_MAX_DIR. client_slots (f (g_clients s ! i)) ! l = Some x \<longrightarrow> l = k)"
    proof (cases "k = j")
      case True
      then have "x = h" using k(2) at [OF k(1)] by simp
      then show ?thesis using h only True by blast
    next
      case False
      then show ?thesis using k(2) at [OF k(1)] by simp
    qed
  qed simp
  then show ?thesis by simp
qed

text \<open>A client without descriptors takes the place of another.\<close>

lemma client_emptied:
  assumes "vfs_ok s" "i < VFS_MAX_CLIENTS" "\<And>h. h \<in> H \<Longrightarrow> \<exists>j. slot_at s i j = Some h"
    and "c_files c = replicate VFS_MAX_FD None" "c_dirs c = replicate VFS_MAX_DIR None"
  shows "vfs_ok (upd_client i (\<lambda>_. c) (s\<lparr>handles := \<lambda>h. if h \<in> H then None else handles s h\<rparr>))"
proof -
  have "client_slots c ! j = None" if "j < VFS_MAX_FD + VFS_MAX_DIR" for j
    using that assms(4,5) by (simp add: client_slots_def nth_append)
  then show ?thesis using slots_change [OF assms(1,2), of "\<lambda>_. c" H] assms(3-5) by simp
qed

abbreviation drop_handles :: "nat set \<Rightarrow> fs_t \<Rightarrow> fs_t" where
  "drop_handles H s \<equiv> s\<lparr>handles := \<lambda>h. if h \<in> H then None else handles s h\<rparr>"

lemma drop_drop: "drop_handles H' (drop_handles H s) = drop_handles (H \<union> H') s"
proof -
  have "(\<lambda>h. if h \<in> H' then None else handles (drop_handles H s) h) = (\<lambda>h. if h \<in> H \<union> H' then None else handles s h)"
    by (rule ext) simp
  then show ?thesis by simp
qed

lemma release_one:
  assumes "\<And>h. sl = Some h \<Longrightarrow> \<exists>v. handles s h = Some v \<and> nodes s (vh_node v) \<noteq> None"
  shows "\<exists>H \<subseteq> {h. sl = Some h}. vfs_release_handle sl s = Inr (drop_handles H s)"
proof (cases sl)
  case None
  then show ?thesis by (intro exI [of _ "{}"]) (simp add: vfs_release_handle_def)
next
  case (Some h)
  with assms obtain v w where v: "handles s h = Some v" "nodes s (vh_node v) = Some w" by auto
  show ?thesis
  proof (cases "mnt_ops (vn_mnt w) s = Some RAMFS_OPS")
    case True
    have "(handles s)(h := None) = (\<lambda>x. if x \<in> {h} then None else handles s x)" by auto
    then show ?thesis using Some v True by (intro exI [of _ "{h}"]) (simp add: vfs_release_handle_def node_ops_ok ramfs_close_def)
  next
    case False
    then show ?thesis using Some v by (intro exI [of _ "{}"]) (simp add: vfs_release_handle_def node_ops_ok)
  qed
qed

lemma release_all:
  assumes "\<And>h. Some h \<in> set hs \<Longrightarrow> \<exists>v. handles s h = Some v \<and> nodes s (vh_node v) \<noteq> None" "distinct (filter (\<lambda>x. x \<noteq> None) hs)"
  shows "\<exists>H \<subseteq> {h. Some h \<in> set hs}. release_loop_fs hs s = Inr (drop_handles H s)"
  using assms
proof (induction hs arbitrary: s)
  case Nil
  then show ?case by (intro exI [of _ "{}"]) simp
next
  case (Cons sl hs)
  obtain H where H: "H \<subseteq> {h. sl = Some h}" "vfs_release_handle sl s = Inr (drop_handles H s)"
    using release_one [of sl s] Cons.prems(1) by auto
  have out: "h \<notin> H" if "Some h \<in> set hs" for h using H(1) that Cons.prems(2) by auto
  have "\<exists>v. handles (drop_handles H s) h = Some v \<and> nodes (drop_handles H s) (vh_node v) \<noteq> None" if "Some h \<in> set hs" for h
    using Cons.prems(1) [of h] out [OF that] that by simp
  moreover have "distinct (filter (\<lambda>x. x \<noteq> None) hs)" using Cons.prems(2) by (simp split: if_splits)
  ultimately obtain H' where H': "H' \<subseteq> {h. Some h \<in> set hs}" "release_loop_fs hs (drop_handles H s) = Inr (drop_handles H' (drop_handles H s))"
    using Cons.IH [of "drop_handles H s"] by blast
  have "drop_handles H' (drop_handles H s) = drop_handles (H \<union> H') s" by (rule drop_drop)
  then have "release_loop_fs (sl # hs) s = Inr (drop_handles (H \<union> H') s)" using H(2) H'(2) by (simp only: release_loop_fs.simps bindE.simps)
  moreover have "H \<union> H' \<subseteq> {h. Some h \<in> set (sl # hs)}" using H(1) H'(1) by auto
  ultimately show ?case by blast
qed

lemma distinct_filterI:
  "(\<And>j k. j < k \<Longrightarrow> k < length ys \<Longrightarrow> ys ! j = ys ! k \<Longrightarrow> \<not> P (ys ! j)) \<Longrightarrow> distinct (filter P ys)"
proof (induction ys)
  case (Cons y ys)
  have "\<not> P (ys ! j)" if "j < k" "k < length ys" "ys ! j = ys ! k" for j k using Cons.prems [of "Suc j" "Suc k"] that by simp
  then have "distinct (filter P ys)" by (rule Cons.IH)
  moreover have "y \<notin> set ys" if P: "P y"
  proof
    assume "y \<in> set ys"
    then obtain k where "k < length ys" "ys ! k = y" by (auto simp: in_set_conv_nth)
    then show False using Cons.prems [of 0 "Suc k"] P by simp
  qed
  ultimately show ?case by simp
qed simp

lemma slots_distinct:
  assumes v: "vfs_ok s" and i: "i < VFS_MAX_CLIENTS"
  shows "distinct (filter (\<lambda>x. x \<noteq> None) (client_slots (g_clients s ! i)))"
    and "Some h \<in> set (client_slots (g_clients s ! i)) \<Longrightarrow> \<exists>j. slot_at s i j = Some h"
proof -
  let ?xs = "client_slots (g_clients s ! i)"
  have len: "length ?xs = VFS_MAX_FD + VFS_MAX_DIR" using client_ok [OF v i] by (simp add: client_slots_def)
  have at: "slot_at s i j = ?xs ! j" if "j < length ?xs" for j using that len i by (simp add: slot_at_def)
  show "\<exists>j. slot_at s i j = Some h" if h: "Some h \<in> set ?xs"
  proof -
    obtain j where "j < length ?xs" "?xs ! j = Some h" using h by (auto simp: in_set_conv_nth)
    then have "slot_at s i j = Some h" using at [of j] by simp
    then show ?thesis ..
  qed
  show "distinct (filter (\<lambda>x. x \<noteq> None) ?xs)"
  proof (rule distinct_filterI, rule notI)
    fix j k assume jk: "j < k" "k < length ?xs" "?xs ! j = ?xs ! k" "?xs ! j \<noteq> None"
    then obtain h where "slot_at s i j = Some h" "slot_at s i k = Some h" using at [of j] at [of k] by auto
    then have "j = k" using vfs_okD(3) [OF v] unfolding slots_ok_def by blast
    then show False using jk(1) by simp
  qed
qed

lemma release_append: "release_loop_fs (xs @ ys) s = bindE (release_loop_fs xs s) (release_loop_fs ys)"
proof (induction xs arbitrary: s)
  case (Cons x xs)
  then show ?case by (cases "vfs_release_handle x s") simp_all
qed simp

lemma release_client_ok:
  assumes v: "vfs_ok s" and i: "i < VFS_MAX_CLIENTS"
  shows "ok (vfs_release_client i s) vfs_ok"
proof (cases "c_vid (g_clients s ! i) = 0")
  case True
  then show ?thesis using v by (simp add: vfs_release_client_def Let_def)
next
  case False
  let ?c = "g_clients s ! i"
  have "\<exists>w. handles s h = Some w \<and> nodes s (vh_node w) \<noteq> None" if "Some h \<in> set (client_slots ?c)" for h
    using slots_distinct(2) [OF v i that] vfs_okD(3) [OF v] unfolding slots_ok_def by blast
  from release_all [OF this slots_distinct(1) [OF v i]] obtain H
    where H: "H \<subseteq> {h. Some h \<in> set (client_slots ?c)}" "release_loop_fs (client_slots ?c) s = Inr (drop_handles H s)" by blast
  have "vfs_release_client i s = bindE (release_loop_fs (client_slots ?c) s) (\<lambda>s2. Inr (upd_client i (\<lambda>_. empty_client) s2))"
    using False by (simp add: vfs_release_client_def client_slots_def release_append bindE_assoc Let_def)
  moreover have "vfs_ok (upd_client i (\<lambda>_. empty_client) (drop_handles H s))"
    using H(1) slots_distinct(2) [OF v i] by (intro client_emptied [OF v i]) (auto simp: empty_client_def)
  ultimately show ?thesis using H(2) by simp
qed

lemma reap_loop_ok: "vfs_ok s \<Longrightarrow> set is \<subseteq> {..<VFS_MAX_CLIENTS} \<Longrightarrow> ok (reap_loop alive is s) vfs_ok"
proof (induction "is" arbitrary: s)
  case (Cons i "is")
  then have "ok (vfs_release_client i s) (\<lambda>s'. ok (reap_loop alive is s') vfs_ok)"
    by (intro ok_mono [OF release_client_ok]) simp_all
  then show ?case using Cons by (simp add: Let_def)
qed simp

lemma client_for_vid_ok:
  assumes "vfs_ok s"
  shows "ok (vfs_client_for_vid alive sender ident s) (\<lambda>(r, s'). vfs_ok s' \<and> (\<forall>i. r = Some i \<longrightarrow> i < VFS_MAX_CLIENTS))"
proof (cases "find_client sender s")
  case (Some i)
  then have "i < VFS_MAX_CLIENTS" by (auto simp: find_client_def dest: find_split)
  then show ?thesis using Some client_fields [OF assms, of i "\<lambda>c. c\<lparr>c_identity := ident\<rparr>"] by (simp add: vfs_client_for_vid_def)
next
  case None
  have "ok (reap_loop alive [0..<VFS_MAX_CLIENTS] s) vfs_ok" using assms by (intro reap_loop_ok) auto
  from ok_value [OF this] obtain s1 where s1: "reap_loop alive [0..<VFS_MAX_CLIENTS] s = Inr s1" "vfs_ok s1" by blast
  show ?thesis
  proof (cases "find_client 0 s1")
    case (Some i)
    then have i: "i < VFS_MAX_CLIENTS" by (auto simp: find_client_def dest: find_split)
    let ?c = "empty_client\<lparr>c_vid := sender, c_identity := ident, c_cwd := ''/'', c_cwd_node := Some (m_root (g_root_mount s1))\<rparr>"
    have "vfs_ok (upd_client i (\<lambda>_. ?c) (drop_handles {} s1))" by (rule client_emptied [OF s1(2) i]) (simp_all add: empty_client_def)
    then show ?thesis using None s1 Some i
      by (simp add: vfs_client_for_vid_def vfs_alloc_client_def vfs_reap_stale_clients_def del: upt_rec_numeral)
  qed (use None s1 in \<open>simp add: vfs_client_for_vid_def vfs_alloc_client_def vfs_reap_stale_clients_def del: upt_rec_numeral\<close>)
qed

end
