(* ===== verification/Vfs_Paths.thy ===== *)
theory Vfs_Paths
  imports Vfs_Inv
begin

text \<open>
  Paths. Normalisation keeps the components of a path, and what it returns has no empty component. The walk along a
  string with \<^verbatim>\<open>parent\<close> pointers in the nodes refines the resolution of the list of its components with a stack of
  directories (\<open>resolve_names\<close>), which does not depend on the parent pointers that earlier walks have left behind.
\<close>

section \<open>Components\<close>

function comps :: "string \<Rightarrow> string list" where
  "comps cursor =
     (case dropWhile (\<lambda>x. x = SLASH) cursor of
        [] \<Rightarrow> []
      | c # cs \<Rightarrow> takeWhile (\<lambda>x. x \<noteq> SLASH) (c # cs) # comps (dropWhile (\<lambda>x. x \<noteq> SLASH) (c # cs)))"
  by pat_completeness auto
termination by (relation "measure length") (auto dest: component_shorter)

declare comps.simps [simp del]

lemma comps_Nil [simp]: "comps [] = []"
  by (simp add: comps.simps)

lemma comps_end: "dropWhile (\<lambda>x. x = SLASH) cursor = [] \<Longrightarrow> comps cursor = []"
  by (subst comps.simps) (simp only: list.case)

lemma comps_step:
  "dropWhile (\<lambda>x. x = SLASH) cursor = c # cs
   \<Longrightarrow> comps cursor = takeWhile (\<lambda>x. x \<noteq> SLASH) (c # cs) # comps (dropWhile (\<lambda>x. x \<noteq> SLASH) (c # cs))"
  by (subst comps.simps) (simp only: list.case)

lemma comps_slash [simp]: "comps (SLASH # cs) = comps cs"
proof (cases "dropWhile (\<lambda>x. x = SLASH) cs")
  case Nil
  then show ?thesis by (simp add: comps_end)
next
  case (Cons x xs)
  then show ?thesis using comps_step [OF Cons] comps_step [of "SLASH # cs" x xs] by simp
qed

lemma comps_char:
  assumes "c \<noteq> SLASH"
  shows "comps (c # cs) = (c # takeWhile (\<lambda>x. x \<noteq> SLASH) cs) # comps (dropWhile (\<lambda>x. x \<noteq> SLASH) cs)"
  using comps_step [of "c # cs" c cs] assms by simp

text \<open>A path that does not end in a slash, apart from the root.\<close>

definition no_trailing :: "string \<Rightarrow> bool" where
  "no_trailing p \<longleftrightarrow> p = [] \<or> last p \<noteq> SLASH"

lemma no_trailing_rest:
  assumes "no_trailing cursor" "dropWhile (\<lambda>x. x = SLASH) cursor = c # cs" "rest = dropWhile (\<lambda>x. x \<noteq> SLASH) (c # cs)"
  shows "no_trailing rest" and "comps rest = [] \<longleftrightarrow> rest = []"
proof -
  have "\<exists>us. cursor = us @ rest"
    by (metis assms(2,3) append_assoc takeWhile_dropWhile_id)
  then obtain us where us: "cursor = us @ rest" by blast
  then show nt: "no_trailing rest" using assms(1) by (cases "rest = []") (simp_all add: no_trailing_def)
  show "comps rest = [] \<longleftrightarrow> rest = []"
  proof
    assume c: "comps rest = []"
    show "rest = []"
    proof (rule ccontr)
      assume "rest \<noteq> []"
      then have "last rest \<in> set rest" "last rest \<noteq> SLASH" using nt by (simp_all add: no_trailing_def)
      then have "dropWhile (\<lambda>x. x = SLASH) rest \<noteq> []" by (auto simp: dropWhile_eq_Nil_conv)
      then obtain y ys where "dropWhile (\<lambda>x. x = SLASH) rest = y # ys" by (cases "dropWhile (\<lambda>x. x = SLASH) rest") auto
      from comps_step [OF this] c show False by simp
    qed
  qed simp
qed

section \<open>Normalisation\<close>

text \<open>The components again, read from left to right; \<open>acc\<close> is the component begun so far.\<close>

fun words :: "string \<Rightarrow> string \<Rightarrow> string list" where
  "words acc [] = (if acc = [] then [] else [acc])"
| "words acc (c # cs) =
     (if c = SLASH then (if acc = [] then words [] cs else acc # words [] cs) else words (acc @ [c]) cs)"

lemma words_comps:
  "words [] cs = comps cs \<and> (\<forall>acc. acc \<noteq> [] \<longrightarrow> words acc cs = (acc @ takeWhile (\<lambda>x. x \<noteq> SLASH) cs) # comps (dropWhile (\<lambda>x. x \<noteq> SLASH) cs))"
  by (induction cs) (auto simp: comps_char)

definition render :: "string list \<Rightarrow> string" where
  "render ws = concat (map (\<lambda>w. SLASH # w) ws)"

lemma strip_id: "p = [] \<or> last p \<noteq> SLASH \<Longrightarrow> strip_slashes p = p"
  by (subst strip_slashes.simps) auto

lemma strip_snoc: "p \<noteq> [] \<Longrightarrow> strip_slashes (p @ [SLASH]) = strip_slashes p"
  by (subst strip_slashes.simps) simp

lemma normalize_words:
  assumes "SLASH \<notin> set acc" "q = SLASH \<longleftrightarrow> acc = []"
  shows "strip_slashes (P @ SLASH # acc @ collapse_slashes q cs) =
    (if words acc cs = [] then strip_slashes (P @ [SLASH]) else P @ render (words acc cs))"
  using assms
proof (induction cs arbitrary: P acc q)
  case Nil
  have "strip_slashes (P @ SLASH # acc) = P @ SLASH # acc" if "acc \<noteq> []"
    using that Nil.prems(1) by (intro strip_id) (auto dest: last_in_set)
  then show ?case by (simp add: render_def)
next
  case (Cons c cs)
  show ?case
  proof (cases "c = SLASH \<and> acc \<noteq> []")
    case True
    have "last (P @ SLASH # acc) \<noteq> SLASH" using True Cons.prems(1) by auto (metis last_in_set)
    then have "strip_slashes ((P @ SLASH # acc) @ [SLASH]) = P @ SLASH # acc" by (subst strip_snoc) (simp_all add: strip_id)
    then show ?thesis using Cons.IH [of "[]" SLASH "P @ SLASH # acc"] Cons.prems True by (simp add: render_def)
  next
    case False
    show ?thesis
    proof (cases "c = SLASH")
      case True
      then show ?thesis using False Cons.IH [of acc q P] Cons.prems by simp
    next
      case ns: False
      have "words (acc @ [c]) cs \<noteq> []" using words_comps [of cs] by simp
      then show ?thesis using ns Cons.IH [of "acc @ [c]" c P] Cons.prems by simp
    qed
  qed
qed

lemma comps_clean: "w \<in> set (comps p) \<Longrightarrow> w \<noteq> [] \<and> SLASH \<notin> set w"
proof (induction p rule: comps.induct)
  case (1 p)
  show ?case
  proof (cases "dropWhile (\<lambda>x. x = SLASH) p")
    case Nil
    then show ?thesis using 1 by (simp add: comps_end)
  next
    case (Cons c cs)
    then have "c \<noteq> SLASH" using hd_dropWhile [of "\<lambda>x. x = SLASH" p] by simp
    then show ?thesis using 1 Cons comps_step [OF Cons] by (auto dest: set_takeWhileD)
  qed
qed

lemma comps_render: "(\<And>w. w \<in> set ws \<Longrightarrow> w \<noteq> [] \<and> SLASH \<notin> set w) \<Longrightarrow> comps (render ws) = ws"
proof (induction ws)
  case (Cons w ws)
  obtain c cs where w: "w = c # cs" "c \<noteq> SLASH" "SLASH \<notin> set cs" using Cons.prems [of w] by (cases w) auto
  have tw: "takeWhile (\<lambda>x. x \<noteq> SLASH) (cs @ render ws) = cs" "dropWhile (\<lambda>x. x \<noteq> SLASH) (cs @ render ws) = render ws"
  proof -
    have "takeWhile (\<lambda>x. x \<noteq> SLASH) (render ws) = []" "dropWhile (\<lambda>x. x \<noteq> SLASH) (render ws) = render ws"
      by (cases ws; simp add: render_def)+
    moreover have "\<And>x. x \<in> set cs \<Longrightarrow> x \<noteq> SLASH" using w(3) by blast
    ultimately show "takeWhile (\<lambda>x. x \<noteq> SLASH) (cs @ render ws) = cs" "dropWhile (\<lambda>x. x \<noteq> SLASH) (cs @ render ws) = render ws"
      by (simp_all add: takeWhile_append2 dropWhile_append2)
  qed
  have "comps (render (w # ws)) = comps (c # (cs @ render ws))" by (simp add: render_def w)
  also have "\<dots> = w # comps (render ws)" unfolding comps_char [OF w(2)] tw w(1) ..
  finally show ?case using Cons by simp
qed (simp add: render_def)

lemma normalize_eq:
  "vfs_normalize_path (SLASH # path) = (if comps path = [] then [SLASH] else render (comps path))"
proof -
  have "vfs_normalize_path (SLASH # path) = strip_slashes ([] @ SLASH # [] @ collapse_slashes SLASH path)"
    by (simp add: vfs_normalize_path_def)
  also have "\<dots> = (if words [] path = [] then strip_slashes [SLASH] else render (words [] path))"
    by (subst normalize_words) simp_all
  also have "strip_slashes [SLASH] = [SLASH]" by (subst strip_slashes.simps) simp
  finally show ?thesis using words_comps [of path] by simp
qed

text \<open>C40: Normalisation is canonical: an absolute path becomes a slash before each of its components, or the root if it has
  none, the components are kept, and two paths with the same components become the same string.\<close>

theorem normalize_canonical:
  "vfs_normalize_path (SLASH # path) = (if comps path = [] then [SLASH] else render (comps path))
   \<and> comps (vfs_normalize_path (SLASH # path)) = comps path
   \<and> (vfs_normalize_path (SLASH # path) = vfs_normalize_path (SLASH # path') \<longleftrightarrow> comps path = comps path')"
proof -
  have c: "comps (vfs_normalize_path (SLASH # p)) = comps p" for p
    unfolding normalize_eq using comps_render [of "comps p", OF comps_clean] by simp
  show ?thesis using c [of path] c [of path'] normalize_eq [of path] normalize_eq [of path'] by metis
qed

section \<open>Resolution\<close>

text \<open>A stack of directories, from the current one to the root of the mount, whose parent pointers are set.\<close>

fun linked :: "fs_t \<Rightarrow> nat list \<Rightarrow> bool" where
  "linked s [] = False"
| "linked s [r] = ((\<exists>v. nodes s r = Some v \<and> (vn_parent v = None \<or> vn_parent v = Some r)) \<and> (\<forall>n v. nodes s n = Some v \<longrightarrow> r \<notin> set (rn_child v)))"
| "linked s (x # y # zs) =
     ((\<exists>v w. nodes s x = Some v \<and> vn_parent v = Some y \<and> nodes s y = Some w \<and> x \<in> set (rn_child w)) \<and> linked s (y # zs))"

definition up :: "nat list \<Rightarrow> nat list" where
  "up st = (if tl st = [] then st else tl st)"

text \<open>What a directory gives for a name.\<close>

definition look :: "fs_t \<Rightarrow> nat \<Rightarrow> string \<Rightarrow> nat rc" where
  "look s n name =
     (case nodes s n of
        None \<Rightarrow> Err ENOENT
      | Some v \<Rightarrow>
          (case mnt_ops (vn_mnt v) s of
             None \<Rightarrow> Err ENOSYS
           | Some NULL_VFS_OPS \<Rightarrow> Err ENOENT
           | Some RAMFS_OPS \<Rightarrow> if is_dir v then (case entries s n name of None \<Rightarrow> Err ENOENT | Some c \<Rightarrow> Ok c) else Err ENOTDIR))"

fun resolve_names :: "bool \<Rightarrow> nat list \<Rightarrow> string list \<Rightarrow> fs_t \<Rightarrow> (nat list \<times> string option) rc" where
  "resolve_names want_parent st [] s = Ok (st, None)"
| "resolve_names want_parent st (name # ns) s =
     (if length name \<ge> NOZA_FS_MAX_NAME then Err ENAMETOOLONG
      else if name = ''.'' then resolve_names want_parent st ns s
      else if name = ''..'' then resolve_names want_parent (up st) ns s
      else if want_parent \<and> ns = [] then Ok (st, Some name)
      else case look s (hd st) name of
             Err e \<Rightarrow> Err e
           | Ok c \<Rightarrow> resolve_names want_parent (c # st) ns s)"

lemma look_ops:
  assumes "ramfs_ok s" "nodes s n = Some v" "length name < NOZA_FS_MAX_NAME"
  shows "bindE (node_ops n s) (\<lambda>ops. ops_lookup ops n name s) = Inr (look s n name)"
  using lookup_entries [OF assms] assms(2)
  by (auto simp: node_ops_ok ops_lookup_def null_lookup_def look_def split: option.splits vfs_ops_t.splits)

lemma look_reparented:
  assumes "reparented s s'"
  shows "look s' = look s"
proof (intro ext)
  fix n name
  show "look s' n name = look s n name"
  proof (cases "nodes s n")
    case None
    then have "nodes s' n = None" using assms by (metis (mono_tags) map_option_is_None reparented_def)
    then show ?thesis using None by (simp add: look_def)
  next
    case (Some v)
    then obtain p where p: "nodes s' n = Some (v\<lparr>vn_parent := p\<rparr>)" using reparented_node [OF assms] by blast
    have "mnt_ops m s' = mnt_ops m s" for m using reparented_sel [OF assms] by (simp add: mnt_ops_def split: option.splits mnt_ref.splits)
    then show ?thesis unfolding look_def reparented_entries [OF assms] using Some p by (simp add: is_dir_def)
  qed
qed

lemma resolve_reparented: "reparented s s' \<Longrightarrow> resolve_names want_parent st ns s' = resolve_names want_parent st ns s"
  by (induction want_parent st ns s rule: resolve_names.induct) (simp_all add: look_reparented split: rc.splits)

lemma linked_node: "linked s st \<Longrightarrow> st \<noteq> [] \<and> (\<exists>v. nodes s (hd st) = Some v)"
  by (induction s st rule: linked.induct) auto

lemma linked_up: "linked s st \<Longrightarrow> vfs_parent_or_self (hd st) s = Inr (hd (up st)) \<and> linked s (up st)"
  by (induction s st rule: linked.induct) (auto simp: vfs_parent_or_self_def up_def)

lemma linked_set:
  assumes ok: "ramfs_ok s" and d: "nodes s d = Some w" and c: "c \<in> set (rn_child w)"
  shows "linked s st \<Longrightarrow> linked (upd_node c (\<lambda>v. v\<lparr>vn_parent := Some d\<rparr>) s) st" (is "_ \<Longrightarrow> linked ?s st")
proof (induction st rule: induct_list012)
  case (2 x)
  then obtain v where v: "nodes s x = Some v" "vn_parent v = None \<or> vn_parent v = Some x"
    and top: "\<forall>n v. nodes s n = Some v \<longrightarrow> x \<notin> set (rn_child v)" unfolding linked.simps by blast
  have "x \<noteq> c" using top d c by blast
  then have "\<exists>v. nodes ?s x = Some v \<and> (vn_parent v = None \<or> vn_parent v = Some x)" using v by simp
  moreover have "x \<notin> set (rn_child u)" if u: "nodes ?s n = Some u" for n u
  proof -
    have "\<exists>u'. nodes s n = Some u' \<and> rn_child u = rn_child u'" using u by (cases "nodes s n") (auto split: if_splits)
    then show ?thesis using top by metis
  qed
  ultimately show ?case unfolding linked.simps by blast
next
  case (3 x y zs)
  then obtain v u where v: "nodes s x = Some v" "vn_parent v = Some y" and u: "nodes s y = Some u" "x \<in> set (rn_child u)"
    and l: "linked s (y # zs)" unfolding linked.simps by blast
  have "y = d" if "x = c" using ramfs_tree [OF ok] u d c that unfolding tree_ok_def by blast
  then have "\<exists>v'. nodes ?s x = Some v' \<and> vn_parent v' = Some y" using v by (cases "x = c") auto
  moreover have "\<exists>u'. nodes ?s y = Some u' \<and> x \<in> set (rn_child u')" using u by (cases "y = c") auto
  ultimately show ?case using "3.IH"(2) [OF l] unfolding linked.simps by blast
qed simp

lemma linked_push:
  assumes ok: "ramfs_ok s" and l: "linked s st" and d: "nodes s (hd st) = Some w" and c: "c \<in> set (rn_child w)"
  shows "linked (upd_node c (\<lambda>v. v\<lparr>vn_parent := Some (hd st)\<rparr>) s) (c # st)"
proof -
  obtain v where v: "nodes s c = Some v" using tree_node [OF ramfs_tree [OF ok] d] c by (auto simp: node_ok_def)
  obtain x zs where st: "st = x # zs" using linked_node [OF l] by (cases st) auto
  show ?thesis using linked_set [OF ok d c l] v d c by (auto simp: st)
qed

text \<open>The result of a walk that ends with the stack \<open>st\<close> and the last component \<open>leaf\<close>.\<close>

definition walked :: "(nat list \<times> string option) rc \<Rightarrow> (nat \<times> nat \<times> string option) rc" where
  "walked r = (case r of Err e \<Rightarrow> Err e
     | Ok (st, leaf) \<Rightarrow> Ok (hd st, if leaf = None then hd (up st) else hd st, leaf))"

lemma refine_lookup:
  assumes ok: "ramfs_ok s" and l: "linked s st" and len: "length name < NOZA_FS_MAX_NAME"
    and f: "\<And>n s'. ramfs_ok s' \<Longrightarrow> linked s' (n # st) \<Longrightarrow> \<exists>s''. f n s' = Inr (walked (resolve_names want_parent (n # st) ns s'), s'') \<and> reparented s' s''"
  shows "\<exists>s'. bindE (node_ops (hd st) s) (\<lambda>ops. bindE (ops_lookup ops (hd st) name s) (\<lambda>r.
      case r of Err e \<Rightarrow> Inr (Err e, s) | Ok next \<Rightarrow> f next (upd_node next (\<lambda>n. n\<lparr>vn_parent := Some (hd st)\<rparr>) s)))
    = Inr (walked (case look s (hd st) name of Err e \<Rightarrow> Err e | Ok c \<Rightarrow> resolve_names want_parent (c # st) ns s), s') \<and> reparented s s'"
proof -
  obtain v where v: "nodes s (hd st) = Some v" using linked_node [OF l] by blast
  have e: "bindE (node_ops (hd st) s) (\<lambda>ops. bindE (ops_lookup ops (hd st) name s) g) = g (look s (hd st) name)" for g :: "nat rc \<Rightarrow> fs_fault + 'b"
    unfolding bindE_assoc [symmetric] look_ops [OF ok v len] bindE.simps ..
  show ?thesis
  proof (cases "look s (hd st) name")
    case (Err x)
    then show ?thesis unfolding e by (simp add: walked_def)
  next
    case (Ok n)
    then have n: "n \<in> set (rn_child v)" using v entries_node [OF ok, of "hd st" name]
      by (auto simp: look_def split: option.splits vfs_ops_t.splits if_splits)
    let ?s = "upd_node n (\<lambda>v. v\<lparr>vn_parent := Some (hd st)\<rparr>) s"
    obtain u where u: "nodes s n = Some u" using tree_node [OF ramfs_tree [OF ok] v] n by (auto simp: node_ok_def)
    obtain s' where s': "f n ?s = Inr (walked (resolve_names want_parent (n # st) ns ?s), s')" "reparented ?s s'"
      using f [OF set_parent_ok(1) [OF ok u v n] linked_push [OF ok l v n]] by blast
    have "reparented s s'" using reparent_one s'(2) by (rule reparented_trans)
    moreover have "f n ?s = Inr (walked (resolve_names want_parent (n # st) ns s), s')"
      unfolding s'(1) resolve_reparented [OF reparent_one, of want_parent "n # st" ns n "Some (hd st)" s] ..
    ultimately show ?thesis unfolding e Ok rc.case by blast
  qed
qed

lemma walk_refines:
  assumes "ramfs_ok s" "linked s st" "no_trailing cursor"
  shows "\<exists>s'. vfs_walk_components want_parent (hd st) (hd (up st)) cursor s = Inr (walked (resolve_names want_parent st (comps cursor) s), s')
    \<and> reparented s s'"
  using assms
proof (induction cursor arbitrary: st s rule: comps.induct)
  case (1 cursor)
  show ?case
  proof (cases "dropWhile (\<lambda>x. x = SLASH) cursor")
    case Nil
    then show ?thesis using walk_end [OF Nil] by (simp add: comps_end walked_def)
  next
    case (Cons c cs)
    define name where "name = takeWhile (\<lambda>x. x \<noteq> SLASH) (c # cs)"
    define rest where "rest = dropWhile (\<lambda>x. x \<noteq> SLASH) (c # cs)"
    note IH = "1.IH" [OF Cons, folded rest_def]
    note nt = no_trailing_rest [OF "1.prems"(3) Cons rest_def]
    have cp: "comps cursor = name # comps rest" using comps_step [OF Cons] by (simp add: name_def rest_def)
    note step = walk_step [OF Cons name_def rest_def, of want_parent "hd st" "hd (up st)" s]
    note up1 = linked_up [OF "1.prems"(2)]
    consider "length name \<ge> NOZA_FS_MAX_NAME" | "length name < NOZA_FS_MAX_NAME" "name = ''.''" | "length name < NOZA_FS_MAX_NAME" "name = ''..''"
      | "length name < NOZA_FS_MAX_NAME" "name \<noteq> ''.''" "name \<noteq> ''..''" by linarith
    then show ?thesis
    proof cases
      case 1
      then show ?thesis unfolding step cp by (simp add: walked_def)
    next
      case 2
      then show ?thesis using IH [OF "1.prems"(1,2) nt(1)] unfolding step cp by simp
    next
      case 3
      then show ?thesis using IH [OF "1.prems"(1) conjunct2 [OF up1] nt(1)] linked_up [OF conjunct2 [OF up1]] up1 unfolding step cp by simp
    next
      case 4
      show ?thesis
      proof (cases "want_parent \<and> rest = []")
        case True
        then show ?thesis using 4 nt(2) unfolding step cp by (simp add: walked_def)
      next
        case False
        note st = linked_node [OF "1.prems"(2)]
        have f: "\<exists>s''. vfs_walk_components want_parent n (hd st) rest s' = Inr (walked (resolve_names want_parent (n # st) (comps rest) s'), s'')
            \<and> reparented s' s''" if "ramfs_ok s'" "linked s' (n # st)" for n s'
          using IH [OF that nt(1)] st by (simp add: up_def)
        have w: "vfs_walk_components want_parent (hd st) (hd (up st)) cursor s = bindE (node_ops (hd st) s) (\<lambda>ops. bindE (ops_lookup ops (hd st) name s) (\<lambda>r.
            case r of Err e \<Rightarrow> Inr (Err e, s)
            | Ok next \<Rightarrow> vfs_walk_components want_parent next (hd st) rest (upd_node next (\<lambda>n. n\<lparr>vn_parent := Some (hd st)\<rparr>) s)))"
          unfolding step if_not_P [OF False] using 4 by simp
        have F: "\<not> (want_parent \<and> comps rest = [])" using False nt(2) by simp
        have r: "resolve_names want_parent st (comps cursor) s =
            (case look s (hd st) name of Err e \<Rightarrow> Err e | Ok c \<Rightarrow> resolve_names want_parent (c # st) (comps rest) s)"
          unfolding cp resolve_names.simps if_not_P [OF F] using 4 by simp
        show ?thesis unfolding w r by (rule refine_lookup [OF "1.prems"(1,2) 4(1) f])
      qed
    qed
  qed
qed

lemma render_no_trailing:
  assumes "\<And>w. w \<in> set ws \<Longrightarrow> w \<noteq> [] \<and> SLASH \<notin> set w" "ws \<noteq> []"
  shows "last (render ws) \<noteq> SLASH"
proof -
  obtain us w where ws: "ws = us @ [w]" using assms(2) by (cases ws rule: rev_cases) auto
  then have w: "w \<noteq> []" "SLASH \<notin> set w" using assms(1) [of w] by simp_all
  have "last (render ws) = last w" using w(1) by (simp add: ws render_def)
  moreover have "last w \<in> set w" using w(1) by (rule last_in_set)
  ultimately show ?thesis using w(2) by auto
qed

lemma match_rest:
  "snd (snd (vfs_match_mount p s)) =
     (let m = fst (snd (vfs_match_mount p s)); rest = drop (length (m_path m)) p
      in if rest \<noteq> [] \<and> hd rest = SLASH \<and> length (m_path m) > 1 then tl rest else rest)"
  unfolding vfs_match_mount_def Let_def fst_conv snd_conv ..

lemma rest_no_trailing:
  assumes "vfs_match_mount (vfs_normalize_path (SLASH # full)) s = (r, mnt, rest)" "m_path mnt \<noteq> []"
  shows "no_trailing rest"
proof -
  let ?p = "vfs_normalize_path (SLASH # full)"
  let ?l = "length (m_path mnt)"
  have rest: "rest = (if drop ?l ?p \<noteq> [] \<and> hd (drop ?l ?p) = SLASH \<and> ?l > 1 then tl (drop ?l ?p) else drop ?l ?p)"
    using match_rest [of ?p s, unfolded assms(1) Let_def fst_conv snd_conv] .
  have "tl (drop ?l ?p) = drop (Suc ?l) ?p" by (simp add: drop_Suc tl_drop)
  then have "rest = drop (Suc ?l) ?p \<or> rest = drop ?l ?p" unfolding rest by simp
  then have "\<exists>k \<ge> ?l. rest = drop k ?p" using le_SucI [of ?l ?l] by blast
  then obtain k where k: "rest = drop k ?p" "?l \<le> k" by blast
  have "1 \<le> k" using assms(2) k(2) by (cases "m_path mnt") simp_all
  show ?thesis
  proof (cases "comps full = []")
    case True
    then have "?p = [SLASH]" using normalize_eq [of full] by simp
    then show ?thesis using k(1) \<open>1 \<le> k\<close> by (simp add: no_trailing_def)
  next
    case False
    have "last (render (comps full)) \<noteq> SLASH" by (rule render_no_trailing [OF comps_clean False])
    moreover have "?p = render (comps full)" using normalize_eq [of full] False by simp
    ultimately show ?thesis using k(1) by (cases "k < length ?p") (simp_all add: no_trailing_def)
  qed
qed

lemma root_linked:
  assumes "ramfs_ok s" "mounts_ok s" "r \<in> mount_roots s"
  shows "linked s [r]"
proof -
  obtain v where v: "nodes s r = Some v" and top: "\<And>n w. nodes s n = Some w \<Longrightarrow> r \<notin> set (rn_child w)"
    using assms(2,3) unfolding mounts_ok_def by blast
  have "vn_parent v = None \<or> vn_parent v = Some r"
    using tree_node [OF ramfs_tree [OF assms(1)] v] top unfolding node_ok_def by (cases "vn_parent v") blast+
  then show ?thesis unfolding linked.simps using v top by blast
qed

lemma resolve_walk:
  assumes ok: "vfs_ok s" and full: "full_path (g_clients s ! i) path = Ok (SLASH # full)"
    and m: "vfs_match_mount (vfs_normalize_path (SLASH # full)) s = (r, mnt, rest)" and p: "m_path mnt \<noteq> []"
  shows "\<exists>s'. vfs_resolve i path want_parent s = Inr (walked (resolve_names want_parent [m_root mnt] (comps rest) s), s')
    \<and> reparented s s'"
proof -
  note V = vfs_okD [OF ok]
  have l: "linked s [m_root mnt]" by (rule root_linked [OF V(1,4) match_root [OF V(4) m]])
  have up: "up [m_root mnt] = [m_root mnt]" by (simp add: up_def)
  have par: "vfs_parent_or_self (m_root mnt) s = Inr (m_root mnt)" using linked_up [OF l] by (simp add: up)
  show ?thesis using walk_refines [OF V(1) l rest_no_trailing [OF m p], of want_parent]
    unfolding vfs_resolve_def full rc.case m Let_def prod.case par bindE.simps up by simp
qed

end
