(* ===== verification/Spec2Isabelle.thy ===== *)
theory Spec2Isabelle
  imports Noza_System Name_Server Sync_Server Memory_Server Fs_Server Vfs_Paths
begin

text \<open>
  Verification of Noza OS, a micro-kernel operating system for Cortex-M with two cores.

  \<^bold>\<open>The program.\<close> The kernel (\<^verbatim>\<open>kernel/noza_os.c\<close>) offers threads, synchronous messages between threads, futexes,
  timers, signals and interrupts as messages. Threads trap into it with a system call; the scheduler of a core
  takes the kernel lock, handles what is due, serves the call and chooses the next thread. Everything else runs in
  threads and is reached by messages: the name server (\<^verbatim>\<open>service/name_lookup\<close>) binds names to services, the
  synchronisation server (\<^verbatim>\<open>service/sync\<close>) keeps mutexes, condition variables and semaphores, the memory server
  (\<^verbatim>\<open>service/memory\<close>) hands out memory.

  \<^bold>\<open>Configuration.\<close> The model is of the RP2040 configuration: two cores, 32 threads, 8 priorities, 32 timers, 64
  futex slots, 26 interrupt lines, interrupts as messages enabled. 32-bit registers and identifiers are words of 32
  bits, bit-fields are reduced as in the code; the 64-bit times in microseconds are integers with the wrap-around
  written out (\<open>int64\<close>), and it is assumed that the clock stays below \<open>2 ^ 62\<close>.

  \<^bold>\<open>Effects and errors.\<close> An operation is a function from states to \<open>halt + state\<close> (\<open>res\<close>, \<open>bindE\<close>, in
  \<^verbatim>\<open>Noza_Prelude\<close>): \<open>Inl\<close> is a kernel panic, a null pointer, an access out of bounds, a broken linked list or a loop
  that ran out of fuel. An error that the code reports to its caller is an ordinary result. \<open>ok m Q\<close> says that \<open>m\<close>
  does not halt and its result satisfies \<open>Q\<close>; nearly all lemmas have this form, so that they prove that operations
  return and not only what they return. Loops that follow a list have the length of the list as fuel, the loop
  over due timers has the sum of the overdue times, and the loop over pending interrupts the width of the bitmap
  plus one; the lemmas on them show that this is enough.

  \<^bold>\<open>Kernel theories.\<close>
  \<^item> \<^verbatim>\<open>Cdl\<close>: the circular doubly linked lists at the level of \<^verbatim>\<open>next\<close> and \<^verbatim>\<open>prev\<close> pointers in a heap, with the sorted
    insertions for sleeping threads and timers. Refinement to HOL lists; the theories above it use the lists.
  \<^item> \<^verbatim>\<open>Kernel_State\<close>: \<^verbatim>\<open>thread_t\<close>, \<^verbatim>\<open>noza_os_t\<close>, timers, futex slots and interrupt bindings as records; \<open>lists\<close> gives the
    contents of each thread list (\<open>lid\<close>), \<open>wqs\<close> of each wait queue. The return values of calls.
  \<^item> \<^verbatim>\<open>Id_Map\<close>, \<^verbatim>\<open>Vid_Map\<close>: the hash chains of identifiers and the search for a free identifier. \<^verbatim>\<open>Kernel_Lists\<close>: moving
    threads between lists.
  \<^item> \<^verbatim>\<open>Kernel_Inv\<close>, \<^verbatim>\<open>Kernel_Moves\<close>: the invariant \<open>kinv\<close>. Every thread is where its state says: on a core, in exactly
    one list, in a wait queue, or awaited by a join; ports and joins belong to live threads; identifiers are unique
    and found; timers are sorted. \<open>kinv_ex X\<close> excuses the threads \<open>X\<close> that are in transit. The lemmas of
    \<^verbatim>\<open>Kernel_Moves\<close> carry the invariant through each elementary move. \<^verbatim>\<open>Demo\<close> is a concrete state with threads in all
    states, at which the properties are instantiated.
  \<^item> \<^verbatim>\<open>Ipc\<close>, \<^verbatim>\<open>Wait_Queue\<close>, \<^verbatim>\<open>Futex\<close>, \<^verbatim>\<open>Timer\<close>, \<^verbatim>\<open>Thread_Ops\<close>, \<^verbatim>\<open>Thread_Create\<close>, \<^verbatim>\<open>Thread_Calls\<close>, \<^verbatim>\<open>Irq\<close>: the operations of
    each part, each with its outcome and the preservation of \<open>kinv\<close>.
  \<^item> \<^verbatim>\<open>Syscalls\<close>: the call table and \<^verbatim>\<open>serv_syscall\<close>; \<open>call_ok\<close> is the precondition under which a call cannot stop
    the kernel. \<^verbatim>\<open>Scheduler\<close>: the sections of \<^verbatim>\<open>noza_os_scheduler\<close> between two points where the kernel lock is given
    up. \<^verbatim>\<open>Boot\<close>: \<^verbatim>\<open>noza_init\<close> and \<^verbatim>\<open>noza_run\<close>.
  \<^item> \<^verbatim>\<open>Noza_System\<close>: the step relation \<open>noza_step\<close>. Scheduler sections on either core interleave with traps,
    interrupts, time and changes of user memory. The locale \<open>invariant_system\<close> of \<^verbatim>\<open>Noza_Prelude\<close>, interpreted for it,
    gives the invariant and the absence of halts in all reachable states.

  \<^bold>\<open>Service theories.\<close>
  \<^item> \<^verbatim>\<open>String_Map\<close>: the AVL tree of \<^verbatim>\<open>string_map.c\<close> with the C string functions it uses. What is read through the
    null children in \<^verbatim>\<open>insert_value\<close> is a parameter \<open>nk\<close>; the theorems hold for every value of it.
  \<^item> \<^verbatim>\<open>Name_Server\<close>: the server and its client calls; the finite map \<open>registry\<close> is its abstract state. The locale
    \<open>naming\<close> states what a client relies on and is interpreted on the client calls composed with the server's loop.
  \<^item> \<^verbatim>\<open>Sync_Server\<close>: the server with the messages of its clients in a word-addressed memory that clients can change
    between requests. Mutexes refine a lock with a first-in-first-out queue, semaphores a counting semaphore; the
    properties of condition variables show that wake-ups are lost.
  \<^item> \<^verbatim>\<open>Tinyalloc\<close>: the allocator \<^verbatim>\<open>3rd_party/tinyalloc_port\<close>. The invariant \<open>heap_ok\<close> says that the blocks tile the
    memory between base and top, byte by byte (\<open>hits\<close> counts the blocks a byte is in).
  \<^item> \<^verbatim>\<open>Memory_Server\<close>: the memory service with \<^verbatim>\<open>_sbrk\<close>, and its client. The name look-up, the message call and the
    allocator of the C library are arguments of the client's operations.

  \<^bold>\<open>What the properties say.\<close> C1 and C2 are about all reachable kernel states. The properties of messages, futexes,
  threads, timers, interrupts and the scheduler give the outcome of the operations on every thread concerned and
  show that the order of two operations on different cores does not matter where it should not. Where the code
  does not do what it means to, the exact condition is proved: the sleep list can lose its order, a time-out can
  come late, a reply or a call can stop the kernel, removal from the name server's tree can move a number to another
  name, a signal of a condition variable can be lost, released waiting nodes leak, and the allocator hands out
  memory in use after a request that overflows.

  \<^bold>\<open>Not modelled.\<close> The assembly of traps and context switches and the platform layer (registers, clocks): the model
  starts at the saved registers, and the clock is a field that only grows. The sections of the scheduler are atomic,
  as the kernel lock makes them. Stack contents beyond the first exception frame are not part of the state. The
  remaining services (files, loader, launcher), the user library, the POSIX layer, console, drivers and
  third-party code are not part of this development; messages to servers are the interface at which it ends.
\<close>

end
